(* ===== verification/Prelude.thy ===== *)
theory Prelude
  imports Main "HOL-Library.Word" "HOL-Library.Code_Target_Nat" "HOL-Library.AList" "HOL-Library.Monad_Syntax"
begin

text \<open>
  What the components share: the C types of the sources as HOL types, C strings,
  decimal printing (\<open>%lu\<close>, \<open>%u\<close>, \<open>%d\<close>) with its injectivity, signed
  bytes, and a few facts on lists.

  Undefined behaviour. A C function that can dereference a null pointer, read an
  uninitialised object or overrun a buffer is modelled with result type
  \<open>'a c_res\<close>; \<open>None\<close> is undefined behaviour, \<open>Some r\<close> a normal return. A claim that
  an operation is safe is a claim that it returns \<open>Some\<close>.
\<close>

named_theorems c_const \<open>unfolds the integer and string constants of the sources\<close>
named_theorems fname_inj \<open>injectivity and disjointness of generated file names\<close>

type_synonym 'a c_res = "'a option"
type_synonym u8 = "8 word"
type_synonym u16 = "16 word"
type_synonym u32 = "32 word"
type_synonym u64 = "64 word"

subsection \<open>C strings\<close>

abbreviation NUL :: char where
  "NUL \<equiv> CHR 0x00"

text \<open>A \<open>char *\<close> argument is the list of its characters before the terminator.\<close>

definition is_cstr :: "string \<Rightarrow> bool" where
  "is_cstr s = (NUL \<notin> set s)"

lemma is_cstr_simps [simp]:
  "is_cstr []"
  "is_cstr (c # s) = (c \<noteq> NUL \<and> is_cstr s)"
  "is_cstr (s @ t) = (is_cstr s \<and> is_cstr t)"
  by (auto simp: is_cstr_def)

text \<open>Reading a string out of a character array: the characters up to the first
  terminator, or \<open>None\<close> when the array holds no terminator (the read would run past
  its end).\<close>

fun read_cstr :: "char list \<Rightarrow> string c_res" where
  "read_cstr [] = None"
| "read_cstr (c # cs) = (if c = NUL then Some [] else map_option ((#) c) (read_cstr cs))"

lemma read_cstr_append [simp]: "is_cstr s \<Longrightarrow> read_cstr (s @ NUL # t) = Some s"
  by (induction s) auto

lemma read_cstr_is_cstr: "read_cstr cs = Some s \<Longrightarrow> is_cstr s"
  by (induction cs arbitrary: s) (auto split: if_splits)

lemma read_cstr_length: "read_cstr cs = Some s \<Longrightarrow> length s < length cs"
  by (induction cs arbitrary: s) (auto split: if_splits)

text \<open>\<open>char\<close> is signed on the target (x86): its promotion to \<open>int\<close>.\<close>

definition schar :: "char \<Rightarrow> int" where
  "schar c = (let n = (of_char c :: int) in if n < 128 then n else n - 256)"

lemma schar_bounds: "-128 \<le> schar c \<and> schar c < 128"
proof -
  have "(of_char c :: int) mod 256 = of_char c" by simp
  then have "0 \<le> (of_char c :: int)" "(of_char c :: int) < 256" by presburger+
  then show ?thesis by (auto simp: schar_def Let_def)
qed

subsection \<open>Decimal printing\<close>

definition digit_char :: "nat \<Rightarrow> char" where
  "digit_char n = char_of (48 + n)"

definition digit_val :: "char \<Rightarrow> nat" where
  "digit_val c = of_char c - 48"

definition is_digit :: "char \<Rightarrow> bool" where
  "is_digit c = (48 \<le> (of_char c :: nat) \<and> (of_char c :: nat) \<le> 57)"

lemma digit_char_facts:
  assumes "n < 10"
  shows digit_val_char: "digit_val (digit_char n) = n"
    and is_digit_char: "is_digit (digit_char n)"
proof -
  have "(of_char (digit_char n) :: nat) = 48 + n"
    using assms by (simp add: digit_char_def)
  then show "digit_val (digit_char n) = n" "is_digit (digit_char n)"
    using assms by (auto simp: digit_val_def is_digit_def)
qed

fun dec :: "nat \<Rightarrow> string" where
  "dec n = (if n < 10 then [digit_char n] else dec (n div 10) @ [digit_char (n mod 10)])"

declare dec.simps [simp del]

definition undec :: "string \<Rightarrow> nat" where
  "undec s = foldl (\<lambda>a c. 10 * a + digit_val c) 0 s"

lemma undec_snoc: "undec (s @ [c]) = 10 * undec s + digit_val c"
  by (simp add: undec_def)

lemma undec_dec [simp]: "undec (dec n) = n"
proof (induction n rule: dec.induct)
  case (1 n)
  show ?case
  proof (cases "n < 10")
    case True
    then show ?thesis by (simp add: dec.simps undec_def digit_val_char)
  next
    case False
    then have "undec (dec n) = 10 * (n div 10) + digit_val (digit_char (n mod 10))"
      using "1.IH" by (simp add: dec.simps [of n] undec_snoc)
    then show ?thesis by (simp add: digit_val_char)
  qed
qed

lemma dec_inj [simp, fname_inj]: "dec m = dec n \<longleftrightarrow> m = n"
  by (metis undec_dec)

lemma dec_digits: "list_all is_digit (dec n)"
proof (induction n rule: dec.induct)
  case (1 n)
  then show ?case
    by (cases "n < 10") (simp_all add: dec.simps [of n] is_digit_char)
qed

lemma dec_not_Nil [simp]: "dec n \<noteq> []"
  by (subst dec.simps) simp

lemma dec_notin: "\<not> is_digit c \<Longrightarrow> c \<notin> set (dec n)"
  using dec_digits [of n] by (auto simp: list_all_iff)

lemma not_digit_seps [simp]:
  "\<not> is_digit (CHR ''-'')" "\<not> is_digit (CHR ''.'')" "\<not> is_digit (CHR ''/'')"
  "\<not> is_digit (CHR '':'')" "\<not> is_digit NUL"
  by (simp_all add: is_digit_def)

lemma is_cstr_dec [simp]: "is_cstr (dec n)"
  by (simp add: is_cstr_def dec_notin)

lemma dec_length_bound: "n < 10 ^ k \<Longrightarrow> 0 < k \<Longrightarrow> length (dec n) \<le> k"
proof (induction n arbitrary: k rule: dec.induct)
  case (1 n)
  show ?case
  proof (cases "n < 10")
    case True
    with "1.prems" show ?thesis by (simp add: dec.simps)
  next
    case False
    with "1.prems" obtain j where k: "k = Suc j" and j: "0 < j"
      by (cases k; cases "k - 1") auto
    from "1.prems" k have "n div 10 < 10 ^ j" by (simp add: less_mult_imp_div_less mult.commute)
    with "1.IH" [OF False] j have "length (dec (n div 10)) \<le> j" by blast
    with False k show ?thesis by (simp add: dec.simps [of n])
  qed
qed

subsection \<open>Lists\<close>

text \<open>A separator that occurs in neither prefix splits a concatenation uniquely.\<close>

lemma append_sep_eq [fname_inj]:
  assumes "c \<notin> set xs" and "c \<notin> set xs'"
  shows "xs @ c # ys = xs' @ c # ys' \<longleftrightarrow> xs = xs' \<and> ys = ys'"
  using assms
proof (induction xs arbitrary: xs')
  case Nil
  then show ?case by (cases xs') auto
next
  case (Cons x xs)
  then show ?case by (cases xs') auto
qed

lemma bind_Some_iff: "Option.bind m f = Some r \<longleftrightarrow> (\<exists>x. m = Some x \<and> f x = Some r)"
  by (cases m) auto

lemma nth_butlast_last:
  "xs \<noteq> [] \<Longrightarrow> i < length xs \<Longrightarrow> xs ! i = (if i = length xs - 1 then last xs else butlast xs ! i)"
  by (auto simp: last_conv_nth nth_butlast)

subsection \<open>Association lists with distinct keys\<close>

lemma map_of_list_update:
  assumes "i < length es" and "fst (es ! i) = k" and "distinct (map fst es)"
  shows "map_of (es[i := (k, v)]) = (map_of es)(k \<mapsto> v)"
  using assms
proof (induction es arbitrary: i)
  case (Cons e es)
  then show ?case by (cases i; cases e) (force simp: fun_eq_iff)+
qed simp

lemma map_of_append_new:
  "map_of es k = None \<Longrightarrow> map_of (es @ [(k, v)]) = (map_of es)(k \<mapsto> v)"
  by (auto simp: fun_eq_iff map_add_def split: option.split)

lemma map_of_butlast:
  assumes "es \<noteq> []" and "distinct (map fst es)"
  shows "map_of (butlast es) = (map_of es)(fst (last es) := None)"
proof -
  have es: "es = butlast es @ [last es]" using assms(1) by simp
  with assms(2) have "fst (last es) \<notin> fst ` set (butlast es)"
    by (metis (no_types, lifting) distinct_append disjoint_insert(1) image_set list.simps(15)
        map_append list.simps(9))
  then have "map_of (butlast es) (fst (last es)) = None" by (simp add: map_of_eq_None_iff)
  moreover have "map_of es = map_of (butlast es @ [last es])" using es by simp
  ultimately show ?thesis
    by (cases "last es") (auto simp: fun_eq_iff map_add_def split: option.split)
qed

lemma map_of_move_last:
  assumes i: "i < length es - 1" and dist: "distinct (map fst es)"
  shows "map_of ((butlast es)[i := last es]) = (map_of es)(fst (es ! i) := None)"
proof -
  let ?bs = "butlast es"
  from i have ne: "es \<noteq> []" by auto
  then have es: "es = ?bs @ [last es]" by simp
  have split: "?bs = take i ?bs @ es ! i # drop (Suc i) ?bs"
    using i id_take_nth_drop [of i ?bs] by (simp add: nth_butlast)
  have upd: "?bs[i := last es] = take i ?bs @ last es # drop (Suc i) ?bs"
    using i by (simp add: upd_conv_take_nth_drop)
  have "es = (take i ?bs @ es ! i # drop (Suc i) ?bs) @ [last es]"
    unfolding split [symmetric] by (rule es)
  then have "es = take i ?bs @ es ! i # drop (Suc i) ?bs @ [last es]"
    by (simp only: append_assoc append_Cons)
  then have d: "distinct (map fst (take i ?bs @ es ! i # drop (Suc i) ?bs @ [last es]))"
    and m: "map_of es = map_of (take i ?bs @ es ! i # drop (Suc i) ?bs @ [last es])"
    using dist by metis+
  show ?thesis
    unfolding upd m using d
    by (cases "es ! i"; cases "last es")
      (auto simp: fun_eq_iff map_add_def map_of_eq_None_iff image_iff split: option.split
        dest!: map_of_SomeD)
qed

subsection \<open>Integers in memory\<close>

text \<open>The four bytes of a non-negative 32-bit \<open>int\<close>, least significant first, and the
  \<open>int\<close> four bytes represent.\<close>

definition int_bytes :: "nat \<Rightarrow> char list" where
  "int_bytes n = [char_of n, char_of (n div 256), char_of (n div 65536), char_of (n div 16777216)]"

fun bytes_int :: "char list \<Rightarrow> int c_res" where
  "bytes_int (a # b # c # d # _) =
     Some (let n = (of_char a :: nat) + 256 * of_char b + 65536 * of_char c + 16777216 * of_char d
           in if n < 2147483648 then int n else int n - 4294967296)"
| "bytes_int _ = None"

lemma bytes_int_int_bytes:
  assumes "n < 2147483648"
  shows "bytes_int (int_bytes n @ t) = Some (int n)"
proof -
  define a b c where abc: "a = n div 256" "b = a div 256" "c = b div 256"
  have "n div 65536 = b" "n div 16777216 = c"
    by (simp_all add: abc flip: div_mult2_eq)
  moreover have "c mod 256 = c" using assms by (simp add: abc)
  moreover have "n mod 256 + 256 * (a mod 256) + 65536 * (b mod 256) + 16777216 * c = n"
    using div_mult_mod_eq [of n 256, folded abc(1)] div_mult_mod_eq [of a 256, folded abc(2)]
      div_mult_mod_eq [of b 256, folded abc(3)] by linarith
  ultimately have "(of_char (char_of n) :: nat) + 256 * of_char (char_of (n div 256))
      + 65536 * of_char (char_of (n div 65536)) + 16777216 * of_char (char_of (n div 16777216)) = n"
    by (simp add: abc)
  then show ?thesis using assms by (simp only: int_bytes_def bytes_int.simps append.simps Let_def) simp
qed

lemma length_int_bytes [simp]: "length (int_bytes n) = 4"
  by (simp add: int_bytes_def)

lemma unat_of_nat_u64: "n < 18446744073709551616 \<Longrightarrow> unat (of_nat n :: u64) = n"
  by (simp add: unsigned_of_nat take_bit_nat_eq_self)

lemma unat_push_bit: "unat x * 2 ^ k < 2 ^ LENGTH('a) \<Longrightarrow> unat (push_bit k x :: 'a::len word) = unat x * 2 ^ k"
  unfolding unsigned_push_bit_eq by (simp add: push_bit_eq_mult take_bit_nat_eq_self)

lemma unat_drop_bit: "unat (drop_bit k x :: 'a::len word) = unat x div 2 ^ k"
  unfolding unsigned_drop_bit_eq by (simp add: drop_bit_eq_div take_bit_nat_eq_self)

end
