(* ===== verification/UtList.thy ===== *)
theory UtList
  imports Prelude
begin

text \<open>
  The doubly-linked list macros of \<^verbatim>\<open>utlist.h\<close> that the server uses. Nodes are
  addresses; the \<open>next\<close> and \<open>prev\<close> members of all nodes are two functions of the
  address (one per member), \<open>None\<close> is the null pointer. The \<open>prev\<close> of the head is the
  last node, the \<open>next\<close> of the last node is null. A null dereference and a failed
  \<open>assert\<close> are \<open>None\<close>. The lemmas show that on a well-formed list the macros are the
  list operations append, \<open>remove1\<close> and successor.
\<close>

type_synonym addr = nat

record dl_links =
  dl_next :: "addr \<Rightarrow> addr option"
  dl_prev :: "addr \<Rightarrow> addr option"

definition set_next :: "addr \<Rightarrow> addr option \<Rightarrow> dl_links \<Rightarrow> dl_links" where
  "set_next a v L = L\<lparr>dl_next := (dl_next L)(a := v)\<rparr>"

definition set_prev :: "addr \<Rightarrow> addr option \<Rightarrow> dl_links \<Rightarrow> dl_links" where
  "set_prev a v L = L\<lparr>dl_prev := (dl_prev L)(a := v)\<rparr>"

lemma set_link_simps [simp]:
  "dl_next (set_next a v L) = (dl_next L)(a := v)"
  "dl_prev (set_next a v L) = dl_prev L"
  "dl_next (set_prev a v L) = dl_next L"
  "dl_prev (set_prev a v L) = (dl_prev L)(a := v)"
  by (simp_all add: set_next_def set_prev_def)

definition DL_APPEND :: "dl_links \<Rightarrow> addr option \<Rightarrow> addr \<Rightarrow> (dl_links \<times> addr option) c_res" where
  "DL_APPEND L head add = (case head of
       Some h \<Rightarrow> do {
         L1 \<leftarrow> Some (set_prev add (dl_prev L h) L);
         p \<leftarrow> dl_prev L1 h;
         L2 \<leftarrow> Some (set_next p (Some add) L1);
         L3 \<leftarrow> Some (set_prev h (Some add) L2);
         Some (set_next add None L3, Some h)
       }
     | None \<Rightarrow> Some (set_next add None (set_prev add (Some add) L), Some add))"

definition DL_DELETE :: "dl_links \<Rightarrow> addr option \<Rightarrow> addr \<Rightarrow> (dl_links \<times> addr option) c_res" where
  "DL_DELETE L head del = do {
     p \<leftarrow> dl_prev L del;
     if p = del then Some (L, None)
     else if head = Some del then do {
       n \<leftarrow> dl_next L del;
       Some (set_prev n (Some p) L, Some n)
     }
     else do {
       L1 \<leftarrow> Some (set_next p (dl_next L del) L);
       (case dl_next L1 del of
          Some n \<Rightarrow> Some (set_prev n (dl_prev L1 del) L1, head)
        | None \<Rightarrow> do { h \<leftarrow> head; Some (set_prev h (dl_prev L1 del) L1, head) })
     }
   }"

subsection \<open>Successor and predecessor in a list\<close>

definition hd_opt :: "'a list \<Rightarrow> 'a option" where
  "hd_opt xs = (case xs of [] \<Rightarrow> None | x # _ \<Rightarrow> Some x)"

lemma hd_opt_simps [simp]: "hd_opt [] = None" "hd_opt (x # xs) = Some x"
  "hd_opt (xs @ ys) = (if xs = [] then hd_opt ys else hd_opt xs)"
  by (auto simp: hd_opt_def split: list.split)

lemma hd_opt_conv: "xs \<noteq> [] \<Longrightarrow> hd_opt xs = Some (hd xs)"
  by (cases xs) auto

fun next_of :: "'a list \<Rightarrow> 'a \<Rightarrow> 'a option" where
  "next_of [] x = None"
| "next_of (y # ys) x = (if x = y then hd_opt ys else next_of ys x)"

fun prev_of :: "'a list \<Rightarrow> 'a \<Rightarrow> 'a option" where
  "prev_of (y # z # ys) x = (if x = z then Some y else prev_of (z # ys) x)"
| "prev_of _ x = None"

lemma next_of_set: "next_of xs x = Some y \<Longrightarrow> x \<in> set xs \<and> y \<in> set xs"
  by (induction xs) (auto simp: hd_opt_def split: if_splits list.splits)

lemma prev_of_set: "prev_of xs x = Some y \<Longrightarrow> x \<in> set xs \<and> y \<in> set xs"
  by (induction xs x rule: prev_of.induct) (auto split: if_splits)

lemma next_of_notin [simp]: "x \<notin> set xs \<Longrightarrow> next_of xs x = None"
  by (meson next_of_set not_None_eq)

lemma prev_of_notin [simp]: "x \<notin> set xs \<Longrightarrow> prev_of xs x = None"
  by (meson prev_of_set not_None_eq)

lemma next_of_append:
  "distinct as \<Longrightarrow> next_of (as @ ys) x =
    (if x \<notin> set as then next_of ys x else if x = last as then hd_opt ys else next_of as x)"
  by (induction as) auto

lemma prev_of_append:
  "set as \<inter> set ys = {} \<Longrightarrow> prev_of (as @ ys) x =
    (if x \<in> set as then prev_of as x
     else if as \<noteq> [] \<and> hd_opt ys = Some x then Some (last as) else prev_of ys x)"
proof (induction as)
  case (Cons a as)
  then show ?case by (cases as; cases ys) auto
qed simp

lemma prev_of_None_iff: "distinct xs \<Longrightarrow> x \<in> set xs \<Longrightarrow> prev_of xs x = None \<longleftrightarrow> x = hd xs"
  by (induction xs x rule: prev_of.induct) auto

lemma next_of_Some_neq_last: "distinct xs \<Longrightarrow> next_of xs x = Some y \<Longrightarrow> x \<noteq> last xs"
  by (induction xs) (auto split: if_splits)

subsection \<open>Well-formed lists\<close>

definition dl_repr :: "dl_links \<Rightarrow> addr option \<Rightarrow> addr list \<Rightarrow> bool" where
  "dl_repr L head xs \<longleftrightarrow> distinct xs \<and> head = hd_opt xs
     \<and> (\<forall>x \<in> set xs. dl_next L x = next_of xs x
          \<and> dl_prev L x = Some (case prev_of xs x of None \<Rightarrow> last xs | Some p \<Rightarrow> p))"

lemma dl_repr_empty [simp]: "dl_repr L head [] \<longleftrightarrow> head = None"
  by (simp add: dl_repr_def)

lemma DL_APPEND_repr:
  assumes "dl_repr L head xs" and "a \<notin> set xs"
  shows "\<exists>L'. DL_APPEND L head a = Some (L', hd_opt (xs @ [a])) \<and> dl_repr L' (hd_opt (xs @ [a])) (xs @ [a])"
proof (cases xs)
  case Nil
  then show ?thesis using assms by (auto simp: DL_APPEND_def dl_repr_def)
next
  case (Cons h ys)
  then have ne: "xs \<noteq> []" and head: "head = Some h" and hx: "h \<in> set xs" and "distinct xs"
    using assms(1) by (auto simp: dl_repr_def)
  have lx: "last xs \<in> set xs" using ne by simp
  have "prev_of xs h = None" using prev_of_None_iff [OF \<open>distinct xs\<close> hx] Cons by simp
  then have ph: "dl_prev L h = Some (last xs)" using assms(1) hx by (simp add: dl_repr_def)
  let ?L = "set_next a None (set_prev h (Some a) (set_next (last xs) (Some a) (set_prev a (Some (last xs)) L)))"
  have "h \<noteq> a" "last xs \<noteq> a" using assms(2) hx lx by auto
  then have "DL_APPEND L head a = Some (?L, Some h)"
    by (simp add: DL_APPEND_def head ph)
  moreover have "dl_repr ?L (Some h) (xs @ [a])"
    unfolding dl_repr_def
  proof (intro conjI ballI)
    fix x assume "x \<in> set (xs @ [a])"
    then show "dl_next ?L x = next_of (xs @ [a]) x"
      using assms \<open>distinct xs\<close> by (auto simp: dl_repr_def next_of_append)
    show "dl_prev ?L x = Some (case prev_of (xs @ [a]) x of None \<Rightarrow> last (xs @ [a]) | Some p \<Rightarrow> p)"
    proof (cases "x = a")
      case True
      then show ?thesis using assms(2) ne \<open>h \<noteq> a\<close> by (simp add: prev_of_append)
    next
      case False
      then have x: "x \<in> set xs" using \<open>x \<in> set (xs @ [a])\<close> by simp
      then have "prev_of (xs @ [a]) x = prev_of xs x" using assms(2) by (simp add: prev_of_append)
      moreover have "prev_of xs x = None \<longleftrightarrow> x = h"
        using prev_of_None_iff [OF \<open>distinct xs\<close> x] Cons by simp
      ultimately show ?thesis
        using assms(1) x False by (auto simp: dl_repr_def split: option.splits)
    qed
  qed (use assms(2) \<open>distinct xs\<close> Cons in auto)
  ultimately show ?thesis using Cons by simp
qed

lemma DL_DELETE_repr:
  assumes "dl_repr L head xs" and "d \<in> set xs"
  shows "\<exists>L'. DL_DELETE L head d = Some (L', hd_opt (remove1 d xs)) \<and> dl_repr L' (hd_opt (remove1 d xs)) (remove1 d xs)"
proof -
  from assms have dist: "distinct xs" by (simp add: dl_repr_def)
  from assms(2) obtain as bs where xs: "xs = as @ d # bs" by (meson split_list)
  with dist have da: "d \<notin> set as" "d \<notin> set bs" "distinct as" "distinct bs" "set as \<inter> set bs = {}"
    by auto
  have rem: "remove1 d xs = as @ bs" using da xs by (simp add: remove1_append)
  have head: "head = hd_opt xs" using assms(1) by (simp add: dl_repr_def)
  have "prev_of (d # bs) d = None" using da prev_of_None_iff [of "d # bs" d] by simp
  then have nd: "dl_next L d = hd_opt bs"
    and pd: "dl_prev L d = Some (if as = [] then last xs else last as)"
    using assms(1) da xs by (auto simp: dl_repr_def next_of_append prev_of_append split: option.split)
  have nx: "dl_next L x = next_of xs x" and pv: "dl_prev L x = Some (case prev_of xs x of None \<Rightarrow> last xs | Some p \<Rightarrow> p)"
    if "x \<in> set xs" for x using assms(1) that by (auto simp: dl_repr_def)
  show ?thesis
  proof (cases as)
    case Nil
    show ?thesis
    proof (cases bs)
      case Nil
      then show ?thesis using \<open>as = []\<close> rem xs pd by (simp add: DL_DELETE_def)
    next
      case (Cons n bs')
      have "last xs \<noteq> d" using xs Cons da by auto
      then have "DL_DELETE L head d = Some (set_prev n (Some (last xs)) L, Some n)"
        using pd nd head xs \<open>as = []\<close> Cons by (simp add: DL_DELETE_def)
      moreover have "dl_repr (set_prev n (Some (last xs)) L) (Some n) bs"
        using nx pv xs \<open>as = []\<close> Cons da prev_of_None_iff [of bs n]
        by (auto simp: dl_repr_def split: option.splits)
      ultimately show ?thesis using rem Cons \<open>as = []\<close> by auto
    qed
  next
    case (Cons h as')
    then have hd: "head = Some h" "h \<noteq> d" "last as \<noteq> d" using head xs da by auto
    let ?L1 = "set_next (last as) (hd_opt bs) L"
    let ?m = "case bs of [] \<Rightarrow> h | n # _ \<Rightarrow> n"
    let ?L = "set_prev ?m (Some (last as)) ?L1"
    have "DL_DELETE L head d = Some (?L, Some h)"
      using pd nd hd Cons by (cases bs) (auto simp: DL_DELETE_def)
    moreover have "dl_repr ?L (Some h) (as @ bs)"
      unfolding dl_repr_def
    proof (intro conjI ballI)
      fix x assume x: "x \<in> set (as @ bs)"
      have la: "last as \<in> set as" "as \<noteq> []" using Cons by auto
      then show "dl_next ?L x = next_of (as @ bs) x"
        using nx [of x] x xs da by (auto simp: next_of_append)
      have h: "prev_of as y = None \<longleftrightarrow> y = h" if "y \<in> set as" for y
        using prev_of_None_iff [OF da(3) that] Cons by simp
      have b: "prev_of bs y = None \<longleftrightarrow> hd_opt bs = Some y" if "y \<in> set bs" for y
        using prev_of_None_iff [OF da(4) that] that by (cases bs) auto
      have "h \<in> set as" using Cons by simp
      show "dl_prev ?L x = Some (case prev_of (as @ bs) x of None \<Rightarrow> last (as @ bs) | Some p \<Rightarrow> p)"
      proof (cases "x \<in> set as")
        case True
        then have "x \<noteq> d" "x \<notin> set bs" using da by auto
        moreover have "prev_of xs x = prev_of as x" "prev_of (as @ bs) x = prev_of as x"
          using True da xs by (simp_all add: prev_of_append)
        ultimately show ?thesis
          using pv [of x] h [OF True] True xs \<open>as \<noteq> []\<close>
          by (cases bs) (auto split: option.splits)
      next
        case False
        then have xb: "x \<in> set bs" using x by simp
        then have "x \<noteq> d" "x \<noteq> h" "prev_of (d # bs) x = (if hd_opt bs = Some x then Some d else prev_of bs x)"
          using da False \<open>h \<in> set as\<close> by (cases bs; auto)+
        moreover from this have "prev_of xs x = (if hd_opt bs = Some x then Some d else prev_of bs x)"
          "prev_of (as @ bs) x = (if hd_opt bs = Some x then Some (last as) else prev_of bs x)"
          using False da xs \<open>as \<noteq> []\<close> by (simp_all add: prev_of_append)
        ultimately show ?thesis
          using pv [of x] b [OF xb] xb xs by (cases bs) (auto split: option.splits)
      qed
    qed (use da Cons in auto)
    ultimately show ?thesis using rem Cons by auto
  qed
qed

text \<open>\<open>DL_FOREACH_SAFE\<close> reads the successor of the current node.\<close>

lemma dl_next_repr: "dl_repr L head xs \<Longrightarrow> x \<in> set xs \<Longrightarrow> dl_next L x = next_of xs x"
  by (simp add: dl_repr_def)

end
