(* ===== verification/KvConstants.thy ===== *)
theory KvConstants
  imports Prelude
begin

text \<open>
  The constants of \<^verbatim>\<open>kvconstants.h\<close>: size limits, error codes, message texts, the
  message and transaction-state enumerations, and the mapping from error codes to texts.
\<close>

definition MAX_KEYLEN :: nat where [c_const]: "MAX_KEYLEN = 1024"
definition MAX_VALLEN :: nat where [c_const]: "MAX_VALLEN = 1024"
definition MAX_FILENAME :: nat where [c_const]: "MAX_FILENAME = 1024"

definition MSG_SUCCESS :: string where "MSG_SUCCESS = ''SUCCESS''"
definition ERRMSG_NO_KEY :: string where "ERRMSG_NO_KEY = ''ERROR: NO KEY''"
definition ERRMSG_KEY_LEN :: string where "ERRMSG_KEY_LEN = ''ERROR: IMPROPER KEY LENGTH''"
definition ERRMSG_VAL_LEN :: string where "ERRMSG_VAL_LEN = ''ERROR: VALUE TOO LONG''"
definition ERRMSG_INVALID_REQUEST :: string where
  "ERRMSG_INVALID_REQUEST = ''ERROR: INVALID REQUEST''"
definition ERRMSG_NOT_IMPLEMENTED :: string where
  "ERRMSG_NOT_IMPLEMENTED = ''ERROR: NOT IMPLEMENTED''"
definition ERRMSG_GENERIC_ERROR :: string where
  "ERRMSG_GENERIC_ERROR = ''ERROR: UNABLE TO PROCESS REQUEST''"

lemmas msg_defs = MSG_SUCCESS_def ERRMSG_NO_KEY_def ERRMSG_KEY_LEN_def ERRMSG_VAL_LEN_def
  ERRMSG_INVALID_REQUEST_def ERRMSG_NOT_IMPLEMENTED_def ERRMSG_GENERIC_ERROR_def

definition ERRKEYLEN :: int where [c_const]: "ERRKEYLEN = -11"
definition ERRVALLEN :: int where [c_const]: "ERRVALLEN = -12"
definition ERRNOKEY :: int where [c_const]: "ERRNOKEY = -13"
definition ERRINVLDMSG :: int where [c_const]: "ERRINVLDMSG = -14"
definition ERRFILLEN :: int where [c_const]: "ERRFILLEN = -15"
definition ERRFILCRT :: int where [c_const]: "ERRFILCRT = -16"
definition ERRFILACCESS :: int where [c_const]: "ERRFILACCESS = -17"

text \<open>Error numbers of the C library (Linux): positive, unlike the codes above.\<close>

definition ENOENT :: int where [c_const]: "ENOENT = 2"
definition ENOMEM :: int where [c_const]: "ENOMEM = 12"
definition ENOTEMPTY :: int where [c_const]: "ENOTEMPTY = 39"

datatype msgtype_t = GETREQ | PUTREQ | DELREQ | GETRESP | RESP | ACK | ABORT | COMMIT
  | VOTE_COMMIT | VOTE_ABORT | REGISTER | INFO

datatype tpc_state_t = TPC_INIT | TPC_WAIT | TPC_READY | TPC_ABORT | TPC_COMMIT

text \<open>The integer a message type is transmitted as (its position in the enumeration), and
  the enumerator an integer stands for.\<close>

fun msgtype_int :: "msgtype_t \<Rightarrow> int" where
  "msgtype_int GETREQ = 0" | "msgtype_int PUTREQ = 1" | "msgtype_int DELREQ = 2"
| "msgtype_int GETRESP = 3" | "msgtype_int RESP = 4" | "msgtype_int ACK = 5"
| "msgtype_int ABORT = 6" | "msgtype_int COMMIT = 7" | "msgtype_int VOTE_COMMIT = 8"
| "msgtype_int VOTE_ABORT = 9" | "msgtype_int REGISTER = 10" | "msgtype_int INFO = 11"

lemma msgtype_int_inj [simp]: "msgtype_int a = msgtype_int b \<longleftrightarrow> a = b"
  by (cases a; cases b) simp_all

lemma msgtype_int_bounds: "0 \<le> msgtype_int t \<and> msgtype_int t \<le> 11"
  by (cases t) simp_all

definition GETMSG :: "int \<Rightarrow> string" where
  "GETMSG error = (if error = ERRKEYLEN then ERRMSG_KEY_LEN
     else if error = ERRVALLEN then ERRMSG_VAL_LEN
     else if error = ERRNOKEY then ERRMSG_NO_KEY
     else ERRMSG_GENERIC_ERROR)"

end
