(* ===== verification/KvCacheSet.thy ===== *)
theory KvCacheSet
  imports UtList KvConstants
begin

text \<open>
  One set of the cache, \<^verbatim>\<open>kvcacheset.c\<close>. Entries are heap objects: \<open>cs_mem\<close> maps the
  address of a live entry to its key, value and reference bit, its list links are in
  \<open>cs_links\<close>. The queue of entries is the \<^verbatim>\<open>utlist\<close> list starting at
  \<open>cs_entries\<close>; the \<^verbatim>\<open>uthash\<close> table holds pointers to the same entries and is the list of
  the addresses added to it, found by key. \<open>malloc\<close> returns the next unused address; which
  requests it refuses is the parameter \<open>mok\<close>. Using a freed or null pointer is \<open>None\<close>.

  The theory models the second-chance eviction loop as the code runs it on the linked list,
  and proves that it implements the queue algorithm \<open>sc_evict\<close>, that a set never holds more
  than \<open>elem_per_set\<close> entries, and that the set behaves as a map that may forget entries.
\<close>

record kvcacheentry =
  ce_key :: string
  ce_value :: "string option"
  ce_refbit :: bool

record kvcacheset_t =
  elem_per_set :: u32
  num_entries :: u32
  cs_entries :: "addr option"
  cs_hash :: "addr list"
  cs_links :: dl_links
  cs_mem :: "addr \<Rightarrow> kvcacheentry option"
  cs_brk :: addr

text \<open>\<open>sizeof (struct kvcacheentry)\<close> on the target.\<close>

definition sizeof_kvcacheentry :: nat where [c_const]: "sizeof_kvcacheentry = 96"

definition HASH_FIND_STR :: "(addr \<Rightarrow> kvcacheentry option) \<Rightarrow> addr list \<Rightarrow> string \<Rightarrow> addr option" where
  "HASH_FIND_STR mem tbl key = find (\<lambda>a. map_option ce_key (mem a) = Some key) tbl"

definition new_entry :: "string \<Rightarrow> string \<Rightarrow> kvcacheentry" where
  "new_entry key value = \<lparr>ce_key = key, ce_value = Some value, ce_refbit = False\<rparr>"

lemma new_entry_simps [simp]:
  "ce_key (new_entry k v) = k" "ce_value (new_entry k v) = Some v" "\<not> ce_refbit (new_entry k v)"
  by (simp_all add: new_entry_def)

text \<open>A set as \<open>malloc\<close> delivers it; the fields of the model's heap start empty.\<close>

definition raw_cacheset :: "kvcacheset_t" where
  "raw_cacheset = \<lparr>elem_per_set = 0, num_entries = 0, cs_entries = None, cs_hash = [],
     cs_links = \<lparr>dl_next = (\<lambda>_. None), dl_prev = (\<lambda>_. None)\<rparr>, cs_mem = (\<lambda>_. None), cs_brk = 0\<rparr>"

text \<open>\<open>lockret\<close> is the result of \<open>pthread_rwlock_init\<close>.\<close>

definition kvcacheset_init :: "int \<Rightarrow> kvcacheset_t \<Rightarrow> u32 \<Rightarrow> int \<times> kvcacheset_t" where
  "kvcacheset_init lockret cacheset eps =
     (if eps < 2 then (-1, cacheset)
      else let cs1 = cacheset\<lparr>elem_per_set := eps\<rparr> in
        if lockret < 0 then (lockret, cs1)
        else (0, cs1\<lparr>num_entries := 0, cs_entries := None, cs_hash := []\<rparr>))"

definition kvcacheset_get ::
    "(nat \<Rightarrow> bool) \<Rightarrow> kvcacheset_t \<Rightarrow> string \<Rightarrow> (int \<times> string option \<times> kvcacheset_t) c_res" where
  "kvcacheset_get mok cacheset key =
     (case HASH_FIND_STR (cs_mem cacheset) (cs_hash cacheset) key of
        None \<Rightarrow> Some (ERRNOKEY, None, cacheset)
      | Some elt \<Rightarrow> do {
          e \<leftarrow> cs_mem cacheset elt;
          v \<leftarrow> ce_value e;
          if mok (length v + 1)
          then Some (0, Some v, cacheset\<lparr>cs_mem := (cs_mem cacheset)(elt \<mapsto> e\<lparr>ce_refbit := True\<rparr>)\<rparr>)
          else None
        })"

text \<open>The measure of the eviction loop.\<close>

definition referenced :: "kvcacheset_t \<Rightarrow> addr set" where
  "referenced cs = {a. a < cs_brk cs \<and> (\<exists>e. cs_mem cs a = Some e \<and> ce_refbit e)}"

text \<open>The eviction loop: \<open>DL_FOREACH_SAFE\<close> with \<open>elt\<close> the current node. An address that
  \<open>malloc\<close> never returned cannot be dereferenced.\<close>

function evict_loop :: "kvcacheset_t \<Rightarrow> addr option \<Rightarrow> kvcacheset_t c_res" where
  "evict_loop cs None = Some cs"
| "evict_loop cs (Some elt) =
     (if cs_brk cs \<le> elt then None else
      case cs_mem cs elt of None \<Rightarrow> None
      | Some e \<Rightarrow> do {
          (L, hd) \<leftarrow> DL_DELETE (cs_links cs) (cs_entries cs) elt;
          if \<not> ce_refbit e
          then Some (cs\<lparr>cs_links := L, cs_entries := hd, cs_hash := remove1 elt (cs_hash cs),
                 cs_mem := (cs_mem cs)(elt := None)\<rparr>)
          else do {
            (L', hd') \<leftarrow> DL_APPEND L hd elt;
            evict_loop (cs\<lparr>cs_links := L', cs_entries := hd',
                 cs_mem := (cs_mem cs)(elt \<mapsto> e\<lparr>ce_refbit := False\<rparr>)\<rparr>) (dl_next (cs_links cs) elt)
          }
        })"
  by pat_completeness auto

termination
proof (relation "measure (\<lambda>(cs, elt). card (referenced cs))")
  fix cs :: kvcacheset_t and elt e x L hd y L' hd'
  assume a: "\<not> cs_brk cs \<le> elt" "cs_mem cs elt = Some e" "\<not> \<not> ce_refbit e"
  let ?cs = "cs\<lparr>cs_links := L', cs_entries := hd', cs_mem := (cs_mem cs)(elt \<mapsto> e\<lparr>ce_refbit := False\<rparr>)\<rparr>"
  have "elt \<in> referenced cs" using a by (simp add: referenced_def)
  moreover have "referenced ?cs = referenced cs - {elt}" by (auto simp: referenced_def)
  moreover have "finite (referenced cs)" by (simp add: referenced_def)
  ultimately show "((?cs, dl_next (cs_links cs) elt), (cs, Some elt)) \<in> measure (\<lambda>(cs, elt). card (referenced cs))"
    using card_Diff1_less [of "referenced cs" elt] by simp
qed simp

text \<open>Making room for a new entry: counting up, or evicting.\<close>

definition make_room :: "kvcacheset_t \<Rightarrow> kvcacheset_t c_res" where
  "make_room cs = (if num_entries cs < elem_per_set cs
     then Some (cs\<lparr>num_entries := num_entries cs + 1\<rparr>) else evict_loop cs (cs_entries cs))"

definition kvcacheset_put ::
    "(nat \<Rightarrow> bool) \<Rightarrow> kvcacheset_t \<Rightarrow> string \<Rightarrow> string \<Rightarrow> (int \<times> kvcacheset_t) c_res" where
  "kvcacheset_put mok cacheset key value =
     (case HASH_FIND_STR (cs_mem cacheset) (cs_hash cacheset) key of
        Some selected \<Rightarrow> do {
          e \<leftarrow> cs_mem cacheset selected;
          if \<not> mok (length value + 1)
          then Some (ERRFILCRT, cacheset\<lparr>cs_mem := (cs_mem cacheset)
                 (selected \<mapsto> e\<lparr>ce_value := None, ce_refbit := True\<rparr>)\<rparr>)
          else Some (0, cacheset\<lparr>cs_mem := (cs_mem cacheset)
                 (selected \<mapsto> e\<lparr>ce_value := Some value, ce_refbit := True\<rparr>)\<rparr>)
        }
      | None \<Rightarrow>
          if \<not> mok sizeof_kvcacheentry then None
          else let selected = cs_brk cacheset; cs1 = cacheset\<lparr>cs_brk := Suc selected\<rparr> in
            if \<not> mok (length key + 1) then Some (ERRFILCRT, cs1)
            else if \<not> mok (length value + 1) then Some (ERRFILCRT, cs1)
            else do {
              cs2 \<leftarrow> make_room cs1;
              (L, hd) \<leftarrow> DL_APPEND (cs_links cs2) (cs_entries cs2) selected;
              Some (0, cs2\<lparr>cs_links := L, cs_entries := hd, cs_hash := cs_hash cs2 @ [selected],
                cs_mem := (cs_mem cs2)
                  (selected \<mapsto> new_entry key value)\<rparr>)
            })"

definition kvcacheset_del :: "kvcacheset_t \<Rightarrow> string \<Rightarrow> (int \<times> kvcacheset_t) c_res" where
  "kvcacheset_del cacheset key =
     (case HASH_FIND_STR (cs_mem cacheset) (cs_hash cacheset) key of
        Some elt \<Rightarrow> do {
          (L, hd) \<leftarrow> DL_DELETE (cs_links cacheset) (cs_entries cacheset) elt;
          Some (0, cacheset\<lparr>cs_links := L, cs_entries := hd,
            cs_hash := remove1 elt (cs_hash cacheset), cs_mem := (cs_mem cacheset)(elt := None)\<rparr>)
        }
      | None \<Rightarrow> Some (ERRNOKEY, cacheset))"

text \<open>\<open>HASH_ITER\<close> visits the entries in the order they were added.\<close>

fun clear_loop :: "kvcacheset_t \<Rightarrow> addr list \<Rightarrow> kvcacheset_t c_res" where
  "clear_loop cs [] = Some cs"
| "clear_loop cs (elt # elts) = do {
     (L, hd) \<leftarrow> DL_DELETE (cs_links cs) (cs_entries cs) elt;
     clear_loop (cs\<lparr>cs_links := L, cs_entries := hd, cs_hash := remove1 elt (cs_hash cs),
       cs_mem := (cs_mem cs)(elt := None)\<rparr>) elts
   }"

definition kvcacheset_clear :: "kvcacheset_t \<Rightarrow> kvcacheset_t c_res" where
  "kvcacheset_clear cacheset = clear_loop cacheset (cs_hash cacheset)"

definition kvcacheset_refbit :: "kvcacheset_t \<Rightarrow> string \<Rightarrow> int c_res" where
  "kvcacheset_refbit cacheset key =
     (case HASH_FIND_STR (cs_mem cacheset) (cs_hash cacheset) key of
        None \<Rightarrow> Some (-1)
      | Some entry \<Rightarrow> do { e \<leftarrow> cs_mem cacheset entry; Some (if ce_refbit e then 1 else 0) })"

subsection \<open>Representation\<close>

text \<open>\<open>xs\<close> is the queue, front first: the linked list and the hash table hold the same
  entries, all allocated and with a value, and no two entries have the same key.\<close>

definition cs_keys :: "kvcacheset_t \<Rightarrow> addr list \<Rightarrow> string list" where
  "cs_keys cs xs = map (\<lambda>a. ce_key (the (cs_mem cs a))) xs"

definition cs_rep :: "kvcacheset_t \<Rightarrow> addr list \<Rightarrow> bool" where
  "cs_rep cs xs \<longleftrightarrow> dl_repr (cs_links cs) (cs_entries cs) xs
     \<and> distinct (cs_hash cs) \<and> set (cs_hash cs) = set xs
     \<and> (\<forall>a \<in> set xs. a < cs_brk cs \<and> (\<exists>e v. cs_mem cs a = Some e \<and> ce_value e = Some v))
     \<and> distinct (cs_keys cs xs)"

definition cs_bounds :: "kvcacheset_t \<Rightarrow> addr list \<Rightarrow> bool" where
  "cs_bounds cs xs \<longleftrightarrow> 2 \<le> elem_per_set cs \<and> num_entries cs \<le> elem_per_set cs
     \<and> length xs \<le> unat (num_entries cs)"

definition cs_inv :: "kvcacheset_t \<Rightarrow> bool" where
  "cs_inv cs \<longleftrightarrow> (\<exists>xs. cs_rep cs xs \<and> cs_bounds cs xs)"

text \<open>The contents of the queue.\<close>

definition cs_queue :: "kvcacheset_t \<Rightarrow> addr list \<Rightarrow> kvcacheentry list" where
  "cs_queue cs xs = map (\<lambda>a. the (cs_mem cs a)) xs"

lemma cs_repD:
  assumes "cs_rep cs xs"
  shows "dl_repr (cs_links cs) (cs_entries cs) xs" "distinct (cs_hash cs)" "set (cs_hash cs) = set xs"
    "a \<in> set xs \<Longrightarrow> a < cs_brk cs" "a \<in> set xs \<Longrightarrow> \<exists>e v. cs_mem cs a = Some e \<and> ce_value e = Some v"
    "distinct (cs_keys cs xs)" "distinct xs" "cs_entries cs = hd_opt xs"
  using assms by (auto simp: cs_rep_def dl_repr_def)

lemma cs_keys_mem_upd:
  assumes "cs_mem cs a = Some e" and "ce_key e' = ce_key e"
  shows "cs_keys (cs\<lparr>cs_mem := (cs_mem cs)(a \<mapsto> e')\<rparr>) xs = cs_keys cs xs"
  using assms by (auto simp: cs_keys_def)

lemma cs_rep_mem_upd:
  assumes "cs_rep cs xs" and "cs_mem cs a = Some e" and "ce_key e' = ce_key e" and "ce_value e' = Some v"
  shows "cs_rep (cs\<lparr>cs_mem := (cs_mem cs)(a \<mapsto> e')\<rparr>) xs"
  using assms cs_keys_mem_upd [OF assms(2,3), of xs] by (auto simp: cs_rep_def)

lemma cs_rep_unlink:
  assumes "cs_rep cs xs" and "a \<in> set xs"
  shows "\<exists>L hd. DL_DELETE (cs_links cs) (cs_entries cs) a = Some (L, hd)
    \<and> cs_rep (cs\<lparr>cs_links := L, cs_entries := hd, cs_hash := remove1 a (cs_hash cs),
         cs_mem := (cs_mem cs)(a := None)\<rparr>) (remove1 a xs)"
proof -
  note D = cs_repD [OF assms(1)]
  from DL_DELETE_repr [OF D(1) assms(2)] obtain L where L:
    "DL_DELETE (cs_links cs) (cs_entries cs) a = Some (L, hd_opt (remove1 a xs))"
    "dl_repr L (hd_opt (remove1 a xs)) (remove1 a xs)" by blast
  let ?cs = "cs\<lparr>cs_links := L, cs_entries := hd_opt (remove1 a xs), cs_hash := remove1 a (cs_hash cs),
         cs_mem := (cs_mem cs)(a := None)\<rparr>"
  have sub: "set (remove1 a xs) = set xs - {a}" using D(7) by simp
  have "cs_keys ?cs (remove1 a xs) = cs_keys cs (remove1 a xs)"
    using sub by (auto simp: cs_keys_def)
  moreover have "distinct (cs_keys cs (remove1 a xs))"
    using D(6,7) by (auto simp: cs_keys_def distinct_map intro: inj_on_subset)
  ultimately have "cs_rep ?cs (remove1 a xs)"
    using L(2) D(2,3,4,5,7) sub unfolding cs_rep_def by auto
  with L(1) show ?thesis by blast
qed

lemma cs_rep_rotate:
  assumes "cs_rep cs (a # xs)" and "cs_mem cs a = Some e"
  shows "\<exists>L hd L' hd'. DL_DELETE (cs_links cs) (cs_entries cs) a = Some (L, hd)
    \<and> DL_APPEND L hd a = Some (L', hd') \<and> dl_next (cs_links cs) a = hd_opt xs
    \<and> cs_rep (cs\<lparr>cs_links := L', cs_entries := hd', cs_mem := (cs_mem cs)(a \<mapsto> e\<lparr>ce_refbit := False\<rparr>)\<rparr>) (xs @ [a])"
proof -
  note D = cs_repD [OF assms(1)]
  from D(7) have a: "a \<notin> set xs" by simp
  from DL_DELETE_repr [OF D(1), of a] obtain L where L:
    "DL_DELETE (cs_links cs) (cs_entries cs) a = Some (L, hd_opt xs)" "dl_repr L (hd_opt xs) xs"
    by auto
  from DL_APPEND_repr [OF L(2) a] obtain L' where L':
    "DL_APPEND L (hd_opt xs) a = Some (L', hd_opt (xs @ [a]))" "dl_repr L' (hd_opt (xs @ [a])) (xs @ [a])"
    by blast
  let ?cs = "cs\<lparr>cs_links := L', cs_entries := hd_opt (xs @ [a]), cs_mem := (cs_mem cs)(a \<mapsto> e\<lparr>ce_refbit := False\<rparr>)\<rparr>"
  have "cs_keys ?cs (xs @ [a]) = cs_keys cs (xs @ [a])"
    using a assms(2) by (auto simp: cs_keys_def)
  moreover have "distinct (cs_keys cs (xs @ [a]))"
    using D(6) by (auto simp: cs_keys_def)
  moreover have "\<exists>v. ce_value e = Some v" using D(5) [of a] assms(2) by auto
  ultimately have "cs_rep ?cs (xs @ [a])"
    using L'(2) D(2-5) unfolding cs_rep_def by (auto simp: Un_commute)
  moreover have "dl_next (cs_links cs) a = hd_opt xs"
    using dl_next_repr [OF D(1), of a] by simp
  ultimately show ?thesis using L(1) L'(1) by blast
qed

subsection \<open>The second-chance algorithm\<close>

text \<open>What the eviction loop does to the queue: the entries before the first unreferenced one
  lose their reference bit and go to the back, and that entry is dropped. If every entry is
  referenced, all bits are cleared and the front entry is dropped, unless it is the only one:
  then \<open>DL_FOREACH_SAFE\<close> has already read a null successor and nothing is evicted.\<close>

definition sc_clear :: "kvcacheentry \<Rightarrow> kvcacheentry" where
  "sc_clear e = e\<lparr>ce_refbit := False\<rparr>"

definition sc_evict :: "kvcacheentry list \<Rightarrow> kvcacheentry list" where
  "sc_evict q = (case dropWhile ce_refbit q of
       r # rs \<Rightarrow> rs @ map sc_clear (takeWhile ce_refbit q)
     | [] \<Rightarrow> map sc_clear (if length q \<le> 1 then q else tl q))"

definition same_config :: "kvcacheset_t \<Rightarrow> kvcacheset_t \<Rightarrow> bool" where
  "same_config cs cs' \<longleftrightarrow> elem_per_set cs' = elem_per_set cs \<and> num_entries cs' = num_entries cs
     \<and> cs_brk cs' = cs_brk cs"

lemma sc_clear_simps [simp]:
  "ce_key (sc_clear e) = ce_key e" "ce_value (sc_clear e) = ce_value e" "\<not> ce_refbit (sc_clear e)"
  "sc_clear (sc_clear e) = sc_clear e"
  by (simp_all add: sc_clear_def)

lemma evict_loop_prefix:
  assumes "cs_rep cs (pre @ r # rs)" and "\<forall>a \<in> set pre. ce_refbit (the (cs_mem cs a))"
    and "\<not> ce_refbit (the (cs_mem cs r))"
  shows "\<exists>cs'. evict_loop cs (hd_opt (pre @ r # rs)) = Some cs' \<and> cs_rep cs' (rs @ pre)
    \<and> same_config cs cs'
    \<and> cs_queue cs' (rs @ pre) = cs_queue cs rs @ map sc_clear (cs_queue cs pre)"
  using assms
proof (induction pre arbitrary: cs rs)
  case Nil
  note D = cs_repD [OF Nil.prems(1)]
  obtain e where e: "cs_mem cs r = Some e" using D(5) [of r] by auto
  obtain L hd where L: "DL_DELETE (cs_links cs) (cs_entries cs) r = Some (L, hd)"
    "cs_rep (cs\<lparr>cs_links := L, cs_entries := hd, cs_hash := remove1 r (cs_hash cs),
         cs_mem := (cs_mem cs)(r := None)\<rparr>) rs"
    using cs_rep_unlink [OF Nil.prems(1), of r] by auto
  have "r \<notin> set rs" "r < cs_brk cs" using D(4,7) by auto
  then show ?case
    using e L Nil.prems(3) by (auto simp: same_config_def cs_queue_def cong: map_cong)
next
  case (Cons a pre)
  note D = cs_repD [OF Cons.prems(1)]
  obtain e where e: "cs_mem cs a = Some e" using D(5) [of a] by auto
  with Cons.prems(2) have ref: "ce_refbit e" by simp
  obtain L hd L' hd' where L: "DL_DELETE (cs_links cs) (cs_entries cs) a = Some (L, hd)"
    "DL_APPEND L hd a = Some (L', hd')" "dl_next (cs_links cs) a = hd_opt (pre @ r # rs)"
    "cs_rep (cs\<lparr>cs_links := L', cs_entries := hd', cs_mem := (cs_mem cs)(a \<mapsto> e\<lparr>ce_refbit := False\<rparr>)\<rparr>)
      (pre @ r # rs @ [a])" (is "cs_rep ?cs _")
    using cs_rep_rotate [OF Cons.prems(1) [unfolded append_Cons] e] by auto
  have notin: "a \<notin> set pre" "a \<noteq> r" "a \<notin> set rs" "a < cs_brk cs" using D(4,7) by auto
  have "\<exists>cs'. evict_loop ?cs (hd_opt (pre @ r # rs @ [a])) = Some cs' \<and> cs_rep cs' ((rs @ [a]) @ pre)
      \<and> same_config ?cs cs' \<and> cs_queue cs' ((rs @ [a]) @ pre) = cs_queue ?cs (rs @ [a]) @ map sc_clear (cs_queue ?cs pre)"
    using Cons.prems(2,3) notin by (intro Cons.IH L(4)) auto
  moreover have "hd_opt (pre @ r # rs @ [a]) = hd_opt (pre @ r # rs)" by (cases pre) auto
  moreover have "evict_loop cs (Some a) = evict_loop ?cs (hd_opt (pre @ r # rs))"
    using e ref L notin(4) by simp
  moreover have "cs_queue ?cs (rs @ [a]) = cs_queue cs rs @ [sc_clear e]" "cs_queue ?cs pre = cs_queue cs pre"
    using notin by (auto simp: cs_queue_def sc_clear_def)
  ultimately show ?case
    using e by (auto simp: same_config_def cs_queue_def)
qed

lemma evict_loop_all_referenced:
  assumes "cs_rep cs xs" and allref: "\<forall>a \<in> set xs. ce_refbit (the (cs_mem cs a))"
  shows "\<exists>cs' xs'. evict_loop cs (hd_opt xs) = Some cs' \<and> cs_rep cs' xs' \<and> same_config cs cs'
    \<and> cs_queue cs' xs' = map sc_clear (cs_queue cs (if length xs \<le> 1 then xs else tl xs)) \<and> set xs' \<subseteq> set xs"
proof (cases xs)
  case Nil
  then show ?thesis using assms by (auto simp: same_config_def cs_queue_def)
next
  case (Cons a ys)
  note D = cs_repD [OF assms(1)]
  obtain e where e: "cs_mem cs a = Some e" using D(5) [of a] Cons by auto
  obtain L hd L' hd' where L: "DL_DELETE (cs_links cs) (cs_entries cs) a = Some (L, hd)"
    "DL_APPEND L hd a = Some (L', hd')" "dl_next (cs_links cs) a = hd_opt ys"
    "cs_rep (cs\<lparr>cs_links := L', cs_entries := hd', cs_mem := (cs_mem cs)(a \<mapsto> e\<lparr>ce_refbit := False\<rparr>)\<rparr>)
      (ys @ [a])" (is "cs_rep ?cs _")
    using cs_rep_rotate [OF assms(1) [unfolded Cons] e] by auto
  have notin: "a \<notin> set ys" "a < cs_brk cs" using D(4,7) Cons by auto
  have step: "evict_loop cs (hd_opt xs) = evict_loop ?cs (hd_opt ys)"
    using e L notin(2) Cons allref by simp
  show ?thesis
  proof (cases ys)
    case Nil
    have "evict_loop cs (hd_opt xs) = Some ?cs" using step Nil by simp
    moreover have "cs_queue ?cs xs = map sc_clear (cs_queue cs xs)"
      using Cons Nil e by (simp add: cs_queue_def sc_clear_def)
    ultimately show ?thesis
      using L(4) Cons Nil by (auto simp: same_config_def intro!: exI [of _ "[a]"])
  next
    case (Cons b zs)
    have "\<exists>cs'. evict_loop ?cs (hd_opt (ys @ a # [])) = Some cs' \<and> cs_rep cs' ([] @ ys)
        \<and> same_config ?cs cs' \<and> cs_queue cs' ([] @ ys) = cs_queue ?cs [] @ map sc_clear (cs_queue ?cs ys)"
      using allref notin \<open>xs = a # ys\<close> L(4) by (intro evict_loop_prefix) auto
    moreover have "cs_queue ?cs ys = cs_queue cs ys" "cs_queue ?cs [] = []"
      using notin by (auto simp: cs_queue_def)
    moreover have "hd_opt (ys @ a # []) = hd_opt ys" using Cons by simp
    ultimately obtain cs' where "evict_loop cs (hd_opt xs) = Some cs'" "cs_rep cs' ys"
      "same_config cs cs'" "cs_queue cs' ys = map sc_clear (cs_queue cs ys)"
      using step by (auto simp: same_config_def)
    moreover have "\<not> length xs \<le> 1" "tl xs = ys" "set ys \<subseteq> set xs" using \<open>xs = a # ys\<close> Cons by auto
    ultimately show ?thesis by auto
  qed
qed

lemma evict_loop_spec:
  assumes "cs_rep cs xs"
  shows "\<exists>cs' xs'. evict_loop cs (hd_opt xs) = Some cs' \<and> cs_rep cs' xs' \<and> same_config cs cs'
    \<and> cs_queue cs' xs' = sc_evict (cs_queue cs xs) \<and> set xs' \<subseteq> set xs"
proof -
  let ?ref = "\<lambda>a. ce_refbit (the (cs_mem cs a))"
  have q: "takeWhile ce_refbit (cs_queue cs xs) = cs_queue cs (takeWhile ?ref xs)"
    "dropWhile ce_refbit (cs_queue cs xs) = cs_queue cs (dropWhile ?ref xs)"
    by (simp_all add: cs_queue_def takeWhile_map dropWhile_map comp_def)
  show ?thesis
  proof (cases "dropWhile ?ref xs")
    case (Cons r rs)
    let ?pre = "takeWhile ?ref xs"
    have xs: "xs = ?pre @ r # rs" using takeWhile_dropWhile_id [of ?ref xs] Cons by simp
    have "\<not> ?ref r" using Cons by (simp add: dropWhile_eq_Cons_conv)
    moreover have "\<forall>a \<in> set ?pre. ?ref a" by (auto dest: set_takeWhileD)
    ultimately obtain cs' where "evict_loop cs (hd_opt xs) = Some cs'" "cs_rep cs' (rs @ ?pre)"
      "same_config cs cs'" "cs_queue cs' (rs @ ?pre) = cs_queue cs rs @ map sc_clear (cs_queue cs ?pre)"
      using evict_loop_prefix [of cs ?pre r rs] assms xs by auto
    moreover have "set (rs @ ?pre) \<subseteq> set xs" by (subst (2) xs) auto
    moreover have "sc_evict (cs_queue cs xs) = cs_queue cs rs @ map sc_clear (cs_queue cs ?pre)"
      using Cons q by (simp add: sc_evict_def) (simp add: cs_queue_def)
    ultimately show ?thesis by metis
  next
    case Nil
    then have "\<forall>a \<in> set xs. ?ref a" by (simp add: dropWhile_eq_Nil_conv)
    moreover have "sc_evict (cs_queue cs xs) = map sc_clear (cs_queue cs (if length xs \<le> 1 then xs else tl xs))"
    proof -
      have dw: "dropWhile ce_refbit (cs_queue cs xs) = []" unfolding q(2) Nil by (simp add: cs_queue_def)
      show ?thesis unfolding sc_evict_def dw by (simp add: cs_queue_def map_tl)
    qed
    ultimately show ?thesis using evict_loop_all_referenced [OF assms] by simp
  qed
qed

subsection \<open>Operations on a well-formed set\<close>

text \<open>The map a set represents.\<close>

definition cs_map :: "kvcacheset_t \<Rightarrow> string \<Rightarrow> string option" where
  "cs_map cs key = (case HASH_FIND_STR (cs_mem cs) (cs_hash cs) key of
     None \<Rightarrow> None | Some a \<Rightarrow> Option.bind (cs_mem cs a) ce_value)"

definition queue_map :: "kvcacheentry list \<Rightarrow> string \<Rightarrow> string option" where
  "queue_map q = map_of (map (\<lambda>e. (ce_key e, the (ce_value e))) q)"

lemma queue_map_simps [simp]:
  "queue_map [] = Map.empty"
  "queue_map (e # q) = (queue_map q)(ce_key e \<mapsto> the (ce_value e))"
  by (simp_all add: queue_map_def)

lemma HASH_FIND_STR_cases:
  assumes "cs_rep cs xs"
  obtains (found) a e v where "HASH_FIND_STR (cs_mem cs) (cs_hash cs) key = Some a" "a \<in> set xs"
      "cs_mem cs a = Some e" "ce_key e = key" "ce_value e = Some v"
  | (missing) "HASH_FIND_STR (cs_mem cs) (cs_hash cs) key = None" "key \<notin> set (cs_keys cs xs)"
proof (cases "HASH_FIND_STR (cs_mem cs) (cs_hash cs) key")
  case None
  then have "\<forall>a \<in> set xs. map_option ce_key (cs_mem cs a) \<noteq> Some key"
    using cs_repD(3) [OF assms] by (auto simp: HASH_FIND_STR_def find_None_iff)
  then have "key \<notin> set (cs_keys cs xs)"
    using cs_repD(5) [OF assms] by (fastforce simp: cs_keys_def)
  with None missing show thesis by blast
next
  case (Some a)
  then have a: "a \<in> set xs" "map_option ce_key (cs_mem cs a) = Some key"
    using cs_repD(3) [OF assms] by (auto simp: HASH_FIND_STR_def find_Some_iff)
  with cs_repD(5) [OF assms a(1)] Some found show thesis by auto
qed

lemma queue_map_at:
  assumes "cs_rep cs xs" and "a \<in> set xs" and "cs_mem cs a = Some e" and "ce_value e = Some v"
  shows "queue_map (cs_queue cs xs) (ce_key e) = Some v"
proof -
  have "distinct (map fst (map (\<lambda>e. (ce_key e, the (ce_value e))) (cs_queue cs xs)))"
    using cs_repD(6) [OF assms(1)] by (simp add: cs_keys_def cs_queue_def comp_def)
  moreover have "(ce_key e, v) \<in> set (map (\<lambda>e. (ce_key e, the (ce_value e))) (cs_queue cs xs))"
    using assms(2-4) by (force simp: cs_queue_def)
  ultimately show ?thesis unfolding queue_map_def by (rule map_of_is_SomeI)
qed

lemma cs_map_queue:
  assumes "cs_rep cs xs"
  shows "cs_map cs = queue_map (cs_queue cs xs)"
proof
  fix key
  show "cs_map cs key = queue_map (cs_queue cs xs) key"
    using assms
  proof (cases rule: HASH_FIND_STR_cases [of _ _ key])
    case (found a e v)
    then show ?thesis using queue_map_at [OF assms found(2,3,5)] by (simp add: cs_map_def)
  next
    case missing
    then have "key \<notin> ce_key ` set (cs_queue cs xs)" by (auto simp: cs_keys_def cs_queue_def)
    then show ?thesis
      using missing(1) by (auto simp: cs_map_def queue_map_def map_of_eq_None_iff [THEN iffD2] image_image)
  qed
qed

lemma cs_rep_distinct_keys: "cs_rep cs xs \<Longrightarrow> distinct (map ce_key (cs_queue cs xs))"
  using cs_repD(6) by (simp add: cs_keys_def cs_queue_def comp_def)

text \<open>The effect of an access: the entry of \<open>key\<close> is changed in place.\<close>

definition queue_upd :: "string \<Rightarrow> (kvcacheentry \<Rightarrow> kvcacheentry) \<Rightarrow> kvcacheentry list \<Rightarrow> kvcacheentry list" where
  "queue_upd key f q = map (\<lambda>e. if ce_key e = key then f e else e) q"

lemma cs_queue_mem_upd:
  assumes "cs_rep cs xs" and "a \<in> set xs" and "cs_mem cs a = Some e"
  shows "cs_queue (cs\<lparr>cs_mem := (cs_mem cs)(a \<mapsto> f e)\<rparr>) xs = queue_upd (ce_key e) f (cs_queue cs xs)"
proof -
  have inj: "inj_on (\<lambda>a. ce_key (the (cs_mem cs a))) (set xs)"
    using cs_repD(6) [OF assms(1)] by (simp add: cs_keys_def distinct_map)
  have "ce_key (the (cs_mem cs b)) = ce_key e \<longleftrightarrow> b = a" if "b \<in> set xs" for b
    using inj_on_eq_iff [OF inj that assms(2)] assms(3) by simp
  then have "the (((cs_mem cs)(a \<mapsto> f e)) b) =
      (if ce_key (the (cs_mem cs b)) = ce_key e then f (the (cs_mem cs b)) else the (cs_mem cs b))"
    if "b \<in> set xs" for b
    using that assms(3) by (cases "b = a") auto
  then show ?thesis by (simp add: cs_queue_def queue_upd_def)
qed

lemma kvcacheset_get_spec:
  assumes rep: "cs_rep cs xs" and "\<And>n. mok n"
  shows "case cs_map cs key of
      None \<Rightarrow> kvcacheset_get mok cs key = Some (ERRNOKEY, None, cs)
    | Some v \<Rightarrow> \<exists>cs'. kvcacheset_get mok cs key = Some (0, Some v, cs') \<and> cs_rep cs' xs \<and> same_config cs cs'
        \<and> cs_queue cs' xs = queue_upd key (ce_refbit_update (\<lambda>_. True)) (cs_queue cs xs)"
  using rep
proof (cases rule: HASH_FIND_STR_cases [of _ _ key])
  case (found a e v)
  let ?cs = "cs\<lparr>cs_mem := (cs_mem cs)(a \<mapsto> e\<lparr>ce_refbit := True\<rparr>)\<rparr>"
  have "cs_rep ?cs xs" using cs_rep_mem_upd [OF rep found(3)] found(5) by simp
  moreover have "cs_queue ?cs xs = queue_upd key (ce_refbit_update (\<lambda>_. True)) (cs_queue cs xs)"
    using cs_queue_mem_upd [OF rep found(2,3)] found(4) by simp
  ultimately show ?thesis
    using found assms(2) by (auto simp: cs_map_def kvcacheset_get_def same_config_def)
next
  case missing
  then show ?thesis by (simp add: cs_map_def kvcacheset_get_def)
qed

lemma kvcacheset_put_hit:
  assumes rep: "cs_rep cs xs" and "\<And>n. mok n" and "cs_map cs key \<noteq> None"
  shows "\<exists>cs'. kvcacheset_put mok cs key value = Some (0, cs') \<and> cs_rep cs' xs \<and> same_config cs cs'
    \<and> cs_queue cs' xs = queue_upd key (\<lambda>e. e\<lparr>ce_value := Some value, ce_refbit := True\<rparr>) (cs_queue cs xs)"
  using rep
proof (cases rule: HASH_FIND_STR_cases [of _ _ key])
  case (found a e v)
  let ?f = "\<lambda>e. e\<lparr>ce_value := Some value, ce_refbit := True\<rparr>"
  let ?cs = "cs\<lparr>cs_mem := (cs_mem cs)(a \<mapsto> ?f e)\<rparr>"
  have "cs_rep ?cs xs" using cs_rep_mem_upd [OF rep found(3), of "?f e"] by simp
  moreover have "cs_queue ?cs xs = queue_upd key ?f (cs_queue cs xs)"
    using cs_queue_mem_upd [OF rep found(2,3), of ?f] found(4) by simp
  ultimately show ?thesis
    using found assms(2) by (auto simp: kvcacheset_put_def same_config_def)
next
  case missing
  then show ?thesis using assms(3) by (simp add: cs_map_def)
qed

lemma sc_evict_cases:
  obtains (all) "\<forall>e \<in> set q. ce_refbit e" "sc_evict q = map sc_clear (if length q \<le> 1 then q else tl q)"
  | (some) pre r rs where "q = pre @ r # rs" "\<forall>e \<in> set pre. ce_refbit e" "\<not> ce_refbit r"
      "sc_evict q = rs @ map sc_clear pre"
proof (cases "dropWhile ce_refbit q")
  case Nil
  then have "\<forall>e \<in> set q. ce_refbit e" by (simp add: dropWhile_eq_Nil_conv)
  then show thesis by (rule all) (simp add: sc_evict_def Nil)
next
  case (Cons r rs)
  have "q = takeWhile ce_refbit q @ r # rs" by (simp flip: Cons)
  moreover have "\<not> ce_refbit r" using hd_dropWhile [of ce_refbit q] Cons by simp
  moreover have "sc_evict q = rs @ map sc_clear (takeWhile ce_refbit q)" by (simp add: sc_evict_def Cons)
  ultimately show thesis using some [of "takeWhile ce_refbit q" r rs] by (auto dest: set_takeWhileD)
qed

lemma set_sc_evict: "set (sc_evict q) \<subseteq> set q \<union> sc_clear ` set q"
proof (cases q rule: sc_evict_cases)
  case all
  have "set (tl q) \<subseteq> set q" by (cases q) auto
  then show ?thesis unfolding all(2) by auto
next
  case (some pre r rs)
  then show ?thesis by auto
qed

lemma length_sc_evict:
  "length (sc_evict q) = (if length q \<le> 1 \<and> (\<forall>e \<in> set q. ce_refbit e) then length q else length q - 1)"
proof (cases q rule: sc_evict_cases)
  case all
  then show ?thesis by simp
next
  case (some pre r rs)
  then show ?thesis by auto
qed

lemma sc_evict_keys: "ce_key ` set (sc_evict q) \<subseteq> ce_key ` set q"
  using set_sc_evict [of q] by force

lemma queue_map_Some:
  assumes "distinct (map ce_key q)"
  shows "queue_map q k = Some v \<longleftrightarrow> (\<exists>e \<in> set q. ce_key e = k \<and> the (ce_value e) = v)"
proof -
  have "distinct (map fst (map (\<lambda>e. (ce_key e, the (ce_value e))) q))"
    using assms by (simp add: comp_def)
  from map_of_eq_Some_iff [OF this] show ?thesis by (auto simp: queue_map_def)
qed

lemma sc_evict_distinct: "distinct (map ce_key q) \<Longrightarrow> distinct (map ce_key (sc_evict q))"
proof (cases q rule: sc_evict_cases)
  case all
  assume "distinct (map ce_key q)"
  moreover have "map ce_key (sc_evict q) = map ce_key (if length q \<le> 1 then q else tl q)"
    unfolding all(2) by simp
  ultimately show ?thesis by (cases q) auto
next
  case (some pre r rs)
  assume "distinct (map ce_key q)"
  then show ?thesis using some by (auto simp: comp_def)
qed

text \<open>Eviction only forgets.\<close>

lemma queue_map_sc_evict:
  assumes "distinct (map ce_key q)"
  shows "queue_map (sc_evict q) \<subseteq>\<^sub>m queue_map q"
proof (unfold map_le_def, intro ballI)
  fix k assume "k \<in> dom (queue_map (sc_evict q))"
  then obtain v where v: "queue_map (sc_evict q) k = Some v" by auto
  then obtain e where e: "e \<in> set (sc_evict q)" "ce_key e = k" "the (ce_value e) = v"
    using queue_map_Some [OF sc_evict_distinct [OF assms]] by blast
  then obtain e' where "e' \<in> set q" "ce_key e' = k" "the (ce_value e') = v"
    using set_sc_evict [of q] by fastforce
  then show "queue_map (sc_evict q) k = queue_map q k"
    using queue_map_Some [OF assms, of k v] v by auto
qed

lemma cs_map_NoneD:
  assumes "cs_rep cs xs" and "cs_map cs key = None"
  shows "HASH_FIND_STR (cs_mem cs) (cs_hash cs) key = None" and "key \<notin> set (cs_keys cs xs)"
proof -
  have "HASH_FIND_STR (cs_mem cs) (cs_hash cs) key = None \<and> key \<notin> set (cs_keys cs xs)"
    using assms(1)
  proof (cases rule: HASH_FIND_STR_cases [of _ _ key])
    case (found a e v)
    then show ?thesis using assms(2) by (simp add: cs_map_def)
  qed simp
  then show "HASH_FIND_STR (cs_mem cs) (cs_hash cs) key = None" "key \<notin> set (cs_keys cs xs)" by auto
qed

lemma set_cs_keys: "set (cs_keys cs xs) = ce_key ` set (cs_queue cs xs)"
  by (simp add: cs_keys_def cs_queue_def image_image)

definition room_count :: "kvcacheset_t \<Rightarrow> u32" where
  "room_count cs = (if num_entries cs < elem_per_set cs then num_entries cs + 1 else num_entries cs)"

definition room_queue :: "kvcacheset_t \<Rightarrow> kvcacheentry list \<Rightarrow> kvcacheentry list" where
  "room_queue cs q = (if num_entries cs < elem_per_set cs then q else sc_evict q)"

lemma make_room_spec:
  assumes "cs_rep cs xs"
  shows "\<exists>cs' ys. make_room cs = Some cs' \<and> cs_rep cs' ys \<and> set ys \<subseteq> set xs \<and> cs_brk cs' = cs_brk cs
    \<and> elem_per_set cs' = elem_per_set cs \<and> num_entries cs' = room_count cs
    \<and> cs_queue cs' ys = room_queue cs (cs_queue cs xs)"
proof (cases "num_entries cs < elem_per_set cs")
  case True
  have "cs_rep (cs\<lparr>num_entries := num_entries cs + 1\<rparr>) xs"
    using assms by (simp add: cs_rep_def cs_keys_def)
  with True show ?thesis
    by (auto simp: cs_queue_def make_room_def room_count_def room_queue_def intro!: exI [of _ xs])
next
  case False
  then have "room_count cs = num_entries cs" "room_queue cs (cs_queue cs xs) = sc_evict (cs_queue cs xs)"
    "make_room cs = evict_loop cs (hd_opt xs)"
    using cs_repD(8) [OF assms] by (simp_all add: room_count_def room_queue_def make_room_def)
  then show ?thesis using evict_loop_spec [OF assms] by (auto simp: same_config_def)
qed

lemma cs_rep_append:
  assumes rep: "cs_rep cs ys" and fresh: "a \<notin> set ys" "a < cs_brk cs"
    and key: "key \<notin> set (map ce_key (cs_queue cs ys))"
  shows "\<exists>L hd. DL_APPEND (cs_links cs) (cs_entries cs) a = Some (L, hd)
    \<and> cs_rep (cs\<lparr>cs_links := L, cs_entries := hd, cs_hash := cs_hash cs @ [a], cs_mem := (cs_mem cs)(a \<mapsto> new_entry key value)\<rparr>) (ys @ [a])
    \<and> cs_queue (cs\<lparr>cs_links := L, cs_entries := hd, cs_hash := cs_hash cs @ [a], cs_mem := (cs_mem cs)(a \<mapsto> new_entry key value)\<rparr>) (ys @ [a])
      = cs_queue cs ys @ [new_entry key value]"
proof -
  obtain L where L: "DL_APPEND (cs_links cs) (cs_entries cs) a = Some (L, hd_opt (ys @ [a]))"
    "dl_repr L (hd_opt (ys @ [a])) (ys @ [a])"
    using DL_APPEND_repr [OF cs_repD(1) [OF rep] fresh(1)] by blast
  let ?cs = "cs\<lparr>cs_links := L, cs_entries := hd_opt (ys @ [a]), cs_hash := cs_hash cs @ [a],
      cs_mem := (cs_mem cs)(a \<mapsto> new_entry key value)\<rparr>"
  have queue: "cs_queue ?cs (ys @ [a]) = cs_queue cs ys @ [new_entry key value]"
    using fresh(1) by (auto simp: cs_queue_def)
  have "distinct (map ce_key (cs_queue ?cs (ys @ [a])))"
    using cs_rep_distinct_keys [OF rep] key unfolding queue by simp
  then have "distinct (cs_keys ?cs (ys @ [a]))" by (simp add: cs_keys_def cs_queue_def comp_def)
  then have "cs_rep ?cs (ys @ [a])"
    using L(2) cs_repD(2-5) [OF rep] fresh by (auto simp: cs_rep_def)
  with L(1) queue show ?thesis by blast
qed

lemma kvcacheset_put_miss:
  assumes rep: "cs_rep cs xs" and "\<And>n. mok n" and "cs_map cs key = None"
  shows "\<exists>cs' xs'. kvcacheset_put mok cs key value = Some (0, cs') \<and> cs_rep cs' xs'
    \<and> elem_per_set cs' = elem_per_set cs \<and> num_entries cs' = room_count cs
    \<and> cs_queue cs' xs' = room_queue cs (cs_queue cs xs)
        @ [new_entry key value]"
proof -
  let ?a = "cs_brk cs"
  let ?cs1 = "cs\<lparr>cs_brk := Suc ?a\<rparr>"
  note miss = cs_map_NoneD [OF rep assms(3)]
  have "cs_rep ?cs1 xs" using rep by (auto simp: cs_rep_def cs_keys_def less_Suc_eq)
  from make_room_spec [OF this] obtain cs2 ys where cs2: "make_room ?cs1 = Some cs2"
    and rep2: "cs_rep cs2 ys" and sub: "set ys \<subseteq> set xs" "cs_brk cs2 = Suc ?a"
    and conf: "elem_per_set cs2 = elem_per_set cs" "num_entries cs2 = room_count ?cs1"
    and "cs_queue cs2 ys = room_queue ?cs1 (cs_queue ?cs1 xs)" by auto
  then have q2: "cs_queue cs2 ys = room_queue cs (cs_queue cs xs)" "room_count ?cs1 = room_count cs"
    by (simp_all add: cs_queue_def room_queue_def room_count_def)
  have "?a \<notin> set ys" using sub(1) cs_repD(4) [OF rep] by auto
  moreover have "key \<notin> set (map ce_key (cs_queue cs2 ys))"
    using miss(2) sc_evict_keys [of "cs_queue cs xs"]
    by (auto simp: q2 room_queue_def set_cs_keys)
  ultimately obtain L hd where L: "DL_APPEND (cs_links cs2) (cs_entries cs2) ?a = Some (L, hd)"
    "cs_rep (cs2\<lparr>cs_links := L, cs_entries := hd, cs_hash := cs_hash cs2 @ [?a], cs_mem := (cs_mem cs2)
       (?a \<mapsto> new_entry key value)\<rparr>) (ys @ [?a])"
    "cs_queue (cs2\<lparr>cs_links := L, cs_entries := hd, cs_hash := cs_hash cs2 @ [?a], cs_mem := (cs_mem cs2)
       (?a \<mapsto> new_entry key value)\<rparr>) (ys @ [?a])
     = cs_queue cs2 ys @ [new_entry key value]"
    using cs_rep_append [OF rep2, of ?a key "value"] sub(2) by auto
  have "kvcacheset_put mok cs key value = Some (0, cs2\<lparr>cs_links := L, cs_entries := hd,
      cs_hash := cs_hash cs2 @ [?a], cs_mem := (cs_mem cs2)
       (?a \<mapsto> new_entry key value)\<rparr>)"
    using miss(1) assms(2) cs2 L(1)
    by (simp add: kvcacheset_put_def Let_def)
  then show ?thesis using L(2,3) conf q2 by (auto intro!: exI [of _ "ys @ [?a]"])
qed

lemma queue_remove1:
  assumes "cs_rep cs xs" and "a \<in> set xs" and "cs_mem cs a = Some e"
  shows "cs_queue (cs\<lparr>cs_mem := (cs_mem cs)(a := None)\<rparr>) (remove1 a xs) = filter (\<lambda>e'. ce_key e' \<noteq> ce_key e) (cs_queue cs xs)"
proof -
  have inj: "inj_on (\<lambda>a. ce_key (the (cs_mem cs a))) (set xs)"
    using cs_repD(6) [OF assms(1)] by (simp add: cs_keys_def distinct_map)
  have "filter (\<lambda>b. ce_key (the (cs_mem cs b)) \<noteq> ce_key e) xs = filter (\<lambda>b. b \<noteq> a) xs"
    using inj_on_eq_iff [OF inj _ assms(2)] assms(3) by (intro filter_cong) auto
  moreover have "remove1 a xs = filter (\<lambda>b. b \<noteq> a) xs"
    using distinct_remove1_removeAll [OF cs_repD(7) [OF assms(1)]] by (simp add: removeAll_filter_not_eq eq_commute)
  ultimately show ?thesis by (auto simp: cs_queue_def filter_map comp_def)
qed

lemma kvcacheset_del_spec:
  assumes rep: "cs_rep cs xs"
  shows "\<exists>cs' xs'. kvcacheset_del cs key = Some (if cs_map cs key = None then ERRNOKEY else 0, cs')
    \<and> cs_rep cs' xs' \<and> same_config cs cs'
    \<and> cs_queue cs' xs' = filter (\<lambda>e. ce_key e \<noteq> key) (cs_queue cs xs)"
  using rep
proof (cases rule: HASH_FIND_STR_cases [of _ _ key])
  case (found a e v)
  obtain L hd where L: "DL_DELETE (cs_links cs) (cs_entries cs) a = Some (L, hd)"
    "cs_rep (cs\<lparr>cs_links := L, cs_entries := hd, cs_hash := remove1 a (cs_hash cs),
       cs_mem := (cs_mem cs)(a := None)\<rparr>) (remove1 a xs)"
    using cs_rep_unlink [OF rep found(2)] by blast
  let ?cs = "cs\<lparr>cs_links := L, cs_entries := hd, cs_hash := remove1 a (cs_hash cs), cs_mem := (cs_mem cs)(a := None)\<rparr>"
  have "kvcacheset_del cs key = Some (0, ?cs)" using found L(1) by (simp add: kvcacheset_del_def)
  moreover note L(2)
  moreover have "cs_queue ?cs (remove1 a xs) = filter (\<lambda>e. ce_key e \<noteq> key) (cs_queue cs xs)"
    using queue_remove1 [OF rep found(2,3)] found(4) by (simp add: cs_queue_def)
  moreover have "cs_map cs key \<noteq> None" using found by (simp add: cs_map_def)
  ultimately show ?thesis by (auto simp: same_config_def)
next
  case missing
  then have "filter (\<lambda>e. ce_key e \<noteq> key) (cs_queue cs xs) = cs_queue cs xs"
    by (auto simp: set_cs_keys intro!: filter_True)
  then show ?thesis
    using missing rep by (auto simp: kvcacheset_del_def cs_map_def same_config_def)
qed

lemma clear_loop_spec:
  "cs_rep cs xs \<Longrightarrow> cs_hash cs = hs \<Longrightarrow> \<exists>cs'. clear_loop cs hs = Some cs' \<and> cs_rep cs' [] \<and> same_config cs cs'"
proof (induction hs arbitrary: cs xs)
  case Nil
  then have "xs = []" using cs_repD(3) [OF Nil.prems(1)] by simp
  with Nil show ?case by (auto simp: same_config_def)
next
  case (Cons a hs)
  then have "a \<in> set xs" using cs_repD(3) [OF Cons.prems(1)] by auto
  from cs_rep_unlink [OF Cons.prems(1) this] obtain L hd where
    L: "DL_DELETE (cs_links cs) (cs_entries cs) a = Some (L, hd)"
    "cs_rep (cs\<lparr>cs_links := L, cs_entries := hd, cs_hash := remove1 a (cs_hash cs),
       cs_mem := (cs_mem cs)(a := None)\<rparr>) (remove1 a xs)" by blast
  let ?cs = "cs\<lparr>cs_links := L, cs_entries := hd, cs_hash := remove1 a (cs_hash cs), cs_mem := (cs_mem cs)(a := None)\<rparr>"
  have "\<exists>cs'. clear_loop ?cs hs = Some cs' \<and> cs_rep cs' [] \<and> same_config ?cs cs'"
    using Cons.prems(2) L(2) by (intro Cons.IH [of _ "remove1 a xs"]) auto
  then show ?case using L(1) by (auto simp: same_config_def)
qed

lemma queue_map_upd:
  "\<forall>e \<in> set q. ce_key e = k \<longrightarrow> ce_key (f e) = k \<and> ce_value (f e) = ce_value e \<Longrightarrow> queue_map (queue_upd k f q) = queue_map q"
  by (induction q) (auto simp: queue_upd_def)

lemma queue_map_put:
  "k \<in> ce_key ` set q \<Longrightarrow> \<forall>e. ce_key e = k \<longrightarrow> ce_key (f e) = k \<and> ce_value (f e) = Some v \<Longrightarrow>
    queue_map (queue_upd k f q) = (queue_map q)(k \<mapsto> v)"
proof (induction q)
  case (Cons e q)
  show ?case
  proof (cases "k \<in> ce_key ` set q")
    case True
    with Cons show ?thesis by (auto simp: queue_upd_def fun_eq_iff)
  next
    case False
    then have "queue_upd k f q = q" by (auto simp: queue_upd_def image_iff intro!: map_idI)
    moreover have "ce_key e = k" using Cons.prems(1) False by auto
    ultimately show ?thesis using Cons.prems(2) by (simp add: queue_upd_def fun_eq_iff)
  qed
qed simp

lemma queue_map_filter: "queue_map (filter (\<lambda>e. ce_key e \<noteq> k) q) = (queue_map q)(k := None)"
  by (induction q) (auto simp: fun_eq_iff)

lemma queue_map_snoc:
  "ce_key e \<notin> ce_key ` set q \<Longrightarrow> queue_map (q @ [e]) = (queue_map q)(ce_key e \<mapsto> the (ce_value e))"
  by (induction q) (auto simp: fun_eq_iff)

subsection \<open>The set as a bounded, forgetful map\<close>

lemma cs_inv_get:
  assumes "cs_inv cs" and mok: "\<And>n. mok n"
  shows "\<exists>cs'. kvcacheset_get mok cs key =
      Some (case cs_map cs key of None \<Rightarrow> (ERRNOKEY, None, cs') | Some v \<Rightarrow> (0, Some v, cs'))
    \<and> cs_inv cs' \<and> cs_map cs' = cs_map cs \<and> elem_per_set cs' = elem_per_set cs"
proof -
  from assms(1) obtain xs where rep: "cs_rep cs xs" and bnd: "cs_bounds cs xs" by (auto simp: cs_inv_def)
  show ?thesis
  proof (cases "cs_map cs key")
    case None
    then show ?thesis
      using kvcacheset_get_spec [where mok = mok, OF rep mok, of key] assms(1) by auto
  next
    case (Some v)
    then obtain cs' where cs': "kvcacheset_get mok cs key = Some (0, Some v, cs')" "cs_rep cs' xs"
      "same_config cs cs'" "cs_queue cs' xs = queue_upd key (ce_refbit_update (\<lambda>_. True)) (cs_queue cs xs)"
      using kvcacheset_get_spec [where mok = mok, OF rep mok, of key] by auto
    have "cs_map cs' = cs_map cs"
      using cs_map_queue [OF rep] cs_map_queue [OF cs'(2)] cs'(4) by (simp add: queue_map_upd)
    moreover have "cs_inv cs'" "elem_per_set cs' = elem_per_set cs"
      using bnd cs'(2,3) by (auto simp: cs_inv_def cs_bounds_def same_config_def)
    ultimately show ?thesis using cs'(1) Some by auto
  qed
qed

lemma unat_Suc_less: "(a :: u32) < b \<Longrightarrow> unat (a + 1) = Suc (unat a)"
  by (metis Suc_eq_plus1 less_le_not_le max_word_max unatSuc add.commute max_word_wrap)

lemma cs_bounds_room:
  assumes "cs_bounds cs xs" and "length ys = Suc (length (room_queue cs (cs_queue cs xs)))"
    and "num_entries cs' = room_count cs" and "elem_per_set cs' = elem_per_set cs"
  shows "cs_bounds cs' ys"
proof (cases "num_entries cs < elem_per_set cs")
  case True
  then have "unat (num_entries cs + 1) = Suc (unat (num_entries cs))" "num_entries cs + 1 \<le> elem_per_set cs"
    by (auto simp: inc_le unat_Suc_less)
  with True show ?thesis
    using assms by (simp add: cs_bounds_def room_count_def room_queue_def cs_queue_def)
next
  case False
  then have eq: "num_entries cs = elem_per_set cs" using assms(1) by (simp add: cs_bounds_def)
  have "2 \<le> unat (elem_per_set cs)" using assms(1) by (simp add: cs_bounds_def word_le_nat_alt)
  moreover have "length (sc_evict (cs_queue cs xs)) \<le> (if length xs \<le> 1 then 1 else length xs - 1)"
    by (simp add: length_sc_evict cs_queue_def)
  ultimately show ?thesis
    using assms False eq by (auto simp: cs_bounds_def room_count_def room_queue_def split: if_splits)
qed

lemma cs_inv_put:
  assumes "cs_inv cs" and mok: "\<And>n. mok n"
  shows "\<exists>cs'. kvcacheset_put mok cs key value = Some (0, cs') \<and> cs_inv cs'
    \<and> cs_map cs' key = Some value \<and> cs_map cs' \<subseteq>\<^sub>m (cs_map cs)(key \<mapsto> value)
    \<and> elem_per_set cs' = elem_per_set cs"
proof -
  from assms(1) obtain xs where rep: "cs_rep cs xs" and bnd: "cs_bounds cs xs" by (auto simp: cs_inv_def)
  note m = cs_map_queue [OF rep]
  show ?thesis
  proof (cases "cs_map cs key")
    case None
    from kvcacheset_put_miss [where mok = mok, OF rep mok None, of "value"] obtain cs' xs' where cs':
      "kvcacheset_put mok cs key value = Some (0, cs')" "cs_rep cs' xs'"
      "elem_per_set cs' = elem_per_set cs" "num_entries cs' = room_count cs"
      "cs_queue cs' xs' = room_queue cs (cs_queue cs xs) @ [new_entry key value]" by blast
    have "key \<notin> ce_key ` set (cs_queue cs xs)" using cs_map_NoneD(2) [OF rep None] by (simp add: set_cs_keys)
    then have "key \<notin> ce_key ` set (room_queue cs (cs_queue cs xs))"
      using sc_evict_keys [of "cs_queue cs xs"] by (auto simp: room_queue_def)
    then have m': "cs_map cs' = (queue_map (room_queue cs (cs_queue cs xs)))(key \<mapsto> value)"
      using cs_map_queue [OF cs'(2)] cs'(5) by (simp add: queue_map_snoc)
    have "queue_map (room_queue cs (cs_queue cs xs)) \<subseteq>\<^sub>m cs_map cs"
      using queue_map_sc_evict [OF cs_rep_distinct_keys [OF rep]] m by (simp add: room_queue_def)
    then have "cs_map cs' \<subseteq>\<^sub>m (cs_map cs)(key \<mapsto> value)" unfolding m' by (rule map_le_upd)
    moreover have "length xs' = Suc (length (room_queue cs (cs_queue cs xs)))"
      using arg_cong [OF cs'(5), of length] by (simp add: cs_queue_def)
    then have "cs_inv cs'" using cs_bounds_room [OF bnd _ cs'(4,3)] cs'(2) by (auto simp: cs_inv_def)
    ultimately show ?thesis using cs'(1,3) m' by auto
  next
    case (Some v)
    then have "cs_map cs key \<noteq> None" by simp
    from kvcacheset_put_hit [where mok = mok, OF rep mok this, of "value"] obtain cs' where cs':
      "kvcacheset_put mok cs key value = Some (0, cs')" "cs_rep cs' xs" "same_config cs cs'"
      "cs_queue cs' xs = queue_upd key (\<lambda>e. e\<lparr>ce_value := Some value, ce_refbit := True\<rparr>) (cs_queue cs xs)" by blast
    have "key \<in> ce_key ` set (cs_queue cs xs)"
      using Some m queue_map_Some [OF cs_rep_distinct_keys [OF rep]] by auto
    then have "cs_map cs' = (cs_map cs)(key \<mapsto> value)"
      using cs_map_queue [OF cs'(2)] cs'(4) m by (simp add: queue_map_put)
    then show ?thesis
      using cs'(1-3) bnd by (auto simp: cs_inv_def cs_bounds_def same_config_def)
  qed
qed

lemma cs_inv_del:
  assumes "cs_inv cs"
  shows "\<exists>cs'. kvcacheset_del cs key = Some (if cs_map cs key = None then ERRNOKEY else 0, cs')
    \<and> cs_inv cs' \<and> cs_map cs' = (cs_map cs)(key := None) \<and> elem_per_set cs' = elem_per_set cs"
proof -
  from assms obtain xs where rep: "cs_rep cs xs" and bnd: "cs_bounds cs xs" by (auto simp: cs_inv_def)
  from kvcacheset_del_spec [OF rep, of key] obtain cs' xs' where cs':
    "kvcacheset_del cs key = Some (if cs_map cs key = None then ERRNOKEY else 0, cs')"
    "cs_rep cs' xs'" "same_config cs cs'"
    "cs_queue cs' xs' = filter (\<lambda>e. ce_key e \<noteq> key) (cs_queue cs xs)" by blast
  have "length xs' \<le> length xs"
    using arg_cong [OF cs'(4), of length] length_filter_le [of "\<lambda>e. ce_key e \<noteq> key" "cs_queue cs xs"]
    by (simp add: cs_queue_def)
  then have "cs_inv cs'" using bnd cs'(2,3) by (auto simp: cs_inv_def cs_bounds_def same_config_def)
  moreover have "cs_map cs' = (cs_map cs)(key := None)"
    using cs_map_queue [OF rep] cs_map_queue [OF cs'(2)] cs'(4) by (simp add: queue_map_filter)
  ultimately show ?thesis using cs'(1,3) by (auto simp: same_config_def)
qed

lemma cs_inv_init:
  assumes "2 \<le> eps" and "0 \<le> lockret"
  shows "\<exists>cs'. kvcacheset_init lockret cs eps = (0, cs') \<and> cs_inv cs' \<and> cs_map cs' = Map.empty \<and> elem_per_set cs' = eps"
proof -
  let ?cs = "cs\<lparr>elem_per_set := eps, num_entries := 0, cs_entries := None, cs_hash := []\<rparr>"
  have "cs_rep ?cs []" by (simp add: cs_rep_def cs_keys_def)
  then have "cs_inv ?cs" "cs_map ?cs = Map.empty"
    using assms(1) cs_map_queue [of ?cs "[]"] by (auto simp: cs_inv_def cs_bounds_def cs_queue_def)
  then show ?thesis
    using assms by (auto simp: kvcacheset_init_def not_less Let_def)
qed

lemma cs_inv_clear:
  assumes "cs_inv cs"
  shows "\<exists>cs'. kvcacheset_clear cs = Some cs' \<and> cs_inv cs' \<and> cs_map cs' = Map.empty
    \<and> num_entries cs' = num_entries cs \<and> elem_per_set cs' = elem_per_set cs"
proof -
  from assms obtain xs where rep: "cs_rep cs xs" and bnd: "cs_bounds cs xs" by (auto simp: cs_inv_def)
  from clear_loop_spec [OF rep refl] obtain cs' where "clear_loop cs (cs_hash cs) = Some cs'"
    "cs_rep cs' []" "same_config cs cs'" by blast
  then show ?thesis
    using bnd cs_map_queue [of cs' "[]"]
    by (auto simp: kvcacheset_clear_def cs_inv_def cs_bounds_def same_config_def cs_queue_def)
qed

lemma cs_map_card:
  assumes "cs_inv cs"
  shows "finite (dom (cs_map cs)) \<and> card (dom (cs_map cs)) \<le> unat (elem_per_set cs)"
proof -
  from assms obtain xs where rep: "cs_rep cs xs" and bnd: "cs_bounds cs xs" by (auto simp: cs_inv_def)
  have "dom (cs_map cs) = ce_key ` set (cs_queue cs xs)"
    by (simp add: cs_map_queue [OF rep] queue_map_def dom_map_of_conv_image_fst image_image)
  moreover have "card (ce_key ` set (cs_queue cs xs)) \<le> length xs"
    by (metis card_image_le card_length cs_queue_def le_trans length_map List.finite_set)
  moreover have "length xs \<le> unat (elem_per_set cs)"
    using bnd by (auto simp: cs_bounds_def word_le_nat_alt)
  ultimately show ?thesis by simp
qed

subsection \<open>Properties\<close>

text \<open>C11. Eviction is second-chance: inserting a new key into a full set leaves the queue that the
  reference algorithm \<open>sc_evict\<close> gives, with the new entry at the back and unreferenced;
  the pointer manipulation of \<open>DL_FOREACH_SAFE\<close>, \<open>DL_DELETE\<close> and \<open>DL_APPEND\<close> never
  touches a freed or null node.\<close>

theorem kvcacheset_second_chance:
  assumes "cs_rep cs xs" and "cs_map cs key = None" and "num_entries cs = elem_per_set cs"
  shows "\<exists>cs' xs'. kvcacheset_put (\<lambda>_. True) cs key value = Some (0, cs') \<and> cs_rep cs' xs'
    \<and> num_entries cs' = num_entries cs
    \<and> cs_queue cs' xs' = sc_evict (cs_queue cs xs) @ [new_entry key value]"
  using kvcacheset_put_miss [OF assms(1) _ assms(2), of "\<lambda>_. True" "value"] assms(3)
  by (auto simp: room_count_def room_queue_def)

text \<open>A full set of two entries, the older one referenced.\<close>

definition set_ab :: kvcacheset_t where
  "set_ab = \<lparr>elem_per_set = 2, num_entries = 2, cs_entries = Some 0, cs_hash = [0, 1],
     cs_links = \<lparr>dl_next = [0 \<mapsto> 1], dl_prev = [0 \<mapsto> 1, 1 \<mapsto> 0]\<rparr>,
     cs_mem = [0 \<mapsto> \<lparr>ce_key = ''a'', ce_value = Some ''1'', ce_refbit = True\<rparr>, 1 \<mapsto> new_entry ''b'' ''2''],
     cs_brk = 2\<rparr>"

theorem kvcacheset_second_chance_witness:
  "\<exists>cs' xs'. kvcacheset_put (\<lambda>_. True) set_ab ''c'' ''3'' = Some (0, cs') \<and> cs_rep cs' xs'
    \<and> cs_queue cs' xs' = [new_entry ''a'' ''1'', new_entry ''c'' ''3'']"
proof -
  have "cs_rep set_ab [0, 1]" by (auto simp: cs_rep_def set_ab_def dl_repr_def hd_opt_def cs_keys_def)
  moreover have "cs_map set_ab ''c'' = None" by (simp add: cs_map_def set_ab_def HASH_FIND_STR_def)
  moreover have "num_entries set_ab = elem_per_set set_ab" by (simp add: set_ab_def)
  moreover have "sc_evict (cs_queue set_ab [0, 1]) = [new_entry ''a'' ''1'']"
    by (simp add: sc_evict_def cs_queue_def set_ab_def sc_clear_def new_entry_def)
  ultimately show ?thesis using kvcacheset_second_chance [of set_ab "[0, 1]" "''c''" "''3''"] by auto
qed


end
