(* ===== verification/Posix.thy ===== *)
theory Posix
  imports KvConstants
begin

text \<open>
  The part of the C library and of the file system that the key-value store uses: paths
  name files (byte sequences) and directories; \<open>stat\<close>, \<open>fopen\<close>, \<open>remove\<close>, \<open>rename\<close>
  and \<open>mkdir\<close> act on them. Which calls the operating system refuses is left open: the
  fields \<open>malloc_ok\<close>, \<open>open_ok\<close>, \<open>mkdir_errno\<close>, \<open>remove_errno\<close>, \<open>rename_errno\<close>,
  \<open>write_ret\<close> (the result of a \<open>write\<close> that is not complete: a smaller count, or
  \<open>-1\<close>) and \<open>read_fail\<close> (a \<open>read\<close> that returns \<open>-1\<close>) say which requests fail, so
  that every error return of the sources is a branch of the model. \<open>os_ok\<close> is the state in which none is refused.
\<close>

record posix =
  p_files :: "(string \<times> char list) list"
  p_dirs :: "string list"
  malloc_ok :: "nat \<Rightarrow> bool"
  open_ok :: "string \<Rightarrow> bool"
  mkdir_errno :: "string \<Rightarrow> int option"
  remove_errno :: "string \<Rightarrow> int option"
  rename_errno :: "string \<Rightarrow> int option"
  write_ret :: "string \<Rightarrow> int option"
  read_fail :: "string \<Rightarrow> bool"

definition os_ok :: "posix \<Rightarrow> bool" where
  "os_ok w \<longleftrightarrow> (\<forall>n. malloc_ok w n) \<and> (\<forall>p. open_ok w p) \<and> (\<forall>p. mkdir_errno w p = None)
     \<and> (\<forall>p. remove_errno w p = None) \<and> (\<forall>p. rename_errno w p = None)
     \<and> (\<forall>p. write_ret w p = None) \<and> (\<forall>p. \<not> read_fail w p)"

text \<open>A file system whose calls never fail, used for concrete instances.\<close>

definition healthy_os :: "(string \<times> char list) list \<Rightarrow> string list \<Rightarrow> posix" where
  "healthy_os fs ds = \<lparr>p_files = fs, p_dirs = ds, malloc_ok = (\<lambda>_. True), open_ok = (\<lambda>_. True),
     mkdir_errno = (\<lambda>_. None), remove_errno = (\<lambda>_. None), rename_errno = (\<lambda>_. None),
     write_ret = (\<lambda>_. None), read_fail = (\<lambda>_. False)\<rparr>"

abbreviation fcontent :: "posix \<Rightarrow> string \<Rightarrow> char list option" where
  "fcontent w \<equiv> map_of (p_files w)"

definition stat_ok :: "posix \<Rightarrow> string \<Rightarrow> bool" where
  "stat_ok w p = (fcontent w p \<noteq> None \<or> p \<in> set (p_dirs w))"

definition write_file :: "posix \<Rightarrow> string \<Rightarrow> char list \<Rightarrow> posix" where
  "write_file w p bs = w\<lparr>p_files := AList.update p bs (p_files w)\<rparr>"

definition remove_file :: "posix \<Rightarrow> string \<Rightarrow> posix" where
  "remove_file w p = w\<lparr>p_files := AList.delete p (p_files w)\<rparr>"

text \<open>\<open>rename (from, to)\<close>: the content moves, an existing target is replaced.\<close>

definition rename_file :: "posix \<Rightarrow> string \<Rightarrow> string \<Rightarrow> posix" where
  "rename_file w p q = (case fcontent w p of None \<Rightarrow> w
     | Some bs \<Rightarrow> w\<lparr>p_files := AList.update q bs (AList.delete p (p_files w))\<rparr>)"

definition make_dir :: "posix \<Rightarrow> string \<Rightarrow> posix" where
  "make_dir w p = w\<lparr>p_dirs := p # p_dirs w\<rparr>"

text \<open>The names \<open>readdir\<close> reports for a directory, and \<open>remove\<close> and \<open>rename\<close> with their
  error numbers: \<open>ENOENT\<close> for a missing path, \<open>ENOTEMPTY\<close> for a directory in use.\<close>

definition below :: "string \<Rightarrow> string \<Rightarrow> bool" where
  "below d p = (take (Suc (length d)) p = d @ ''/'')"

definition dir_entries :: "posix \<Rightarrow> string \<Rightarrow> string list" where
  "dir_entries w d = filter (\<lambda>n. CHR ''/'' \<notin> set n)
     (map (drop (Suc (length d))) (filter (below d) (map fst (p_files w) @ p_dirs w)))"

definition posix_remove :: "posix \<Rightarrow> string \<Rightarrow> int + posix" where
  "posix_remove w p = (case remove_errno w p of
       Some e \<Rightarrow> Inl e
     | None \<Rightarrow> if fcontent w p \<noteq> None then Inr (remove_file w p)
         else if p \<notin> set (p_dirs w) then Inl ENOENT
         else if filter (below p) (map fst (p_files w) @ p_dirs w) \<noteq> [] then Inl ENOTEMPTY
         else Inr (w\<lparr>p_dirs := removeAll p (p_dirs w)\<rparr>))"

definition posix_rename :: "posix \<Rightarrow> string \<Rightarrow> string \<Rightarrow> int + posix" where
  "posix_rename w p q = (case rename_errno w p of
       Some e \<Rightarrow> Inl e
     | None \<Rightarrow> if fcontent w p \<noteq> None then Inr (rename_file w p q) else Inl ENOENT)"

lemma file_write [simp]: "fcontent (write_file w p bs) = (fcontent w)(p \<mapsto> bs)"
  by (simp add: write_file_def AList.update_conv')

lemma file_remove [simp]: "fcontent (remove_file w p) = (fcontent w)(p := None)"
  by (simp add: remove_file_def AList.delete_conv')

lemma file_rename [simp]:
  "fcontent w p = Some bs \<Longrightarrow> fcontent (rename_file w p q) = (fcontent w)(p := None, q \<mapsto> bs)"
  by (simp add: rename_file_def AList.update_conv' AList.delete_conv')

lemma file_make_dir [simp]: "fcontent (make_dir w p) = fcontent w"
  by (simp add: make_dir_def)

lemma p_dirs_ops [simp]:
  "p_dirs (write_file w p bs) = p_dirs w"
  "p_dirs (remove_file w p) = p_dirs w"
  "p_dirs (rename_file w p q) = p_dirs w"
  "p_dirs (make_dir w p) = p # p_dirs w"
  by (simp_all add: write_file_def remove_file_def rename_file_def make_dir_def split: option.split)

text \<open>No operation changes which calls the operating system refuses.\<close>

definition same_env :: "posix \<Rightarrow> posix \<Rightarrow> bool" where
  "same_env w w' \<longleftrightarrow> malloc_ok w' = malloc_ok w \<and> open_ok w' = open_ok w
     \<and> mkdir_errno w' = mkdir_errno w \<and> remove_errno w' = remove_errno w
     \<and> rename_errno w' = rename_errno w \<and> write_ret w' = write_ret w \<and> read_fail w' = read_fail w"

lemma same_env_ops [simp]:
  "same_env w w"
  "same_env w (write_file w p bs)"
  "same_env w (remove_file w p)"
  "same_env w (rename_file w p q)"
  "same_env w (make_dir w p)"
  by (simp_all add: same_env_def write_file_def remove_file_def rename_file_def make_dir_def
      split: option.split)

lemma os_ok_same_env: "same_env w w' \<Longrightarrow> os_ok w' = os_ok w"
  by (simp add: same_env_def os_ok_def)

lemma os_ok_ops [simp]:
  "os_ok (write_file w p bs) = os_ok w"
  "os_ok (remove_file w p) = os_ok w"
  "os_ok (rename_file w p q) = os_ok w"
  "os_ok (make_dir w p) = os_ok w"
  by (rule os_ok_same_env, simp)+

lemma os_ok_healthy [simp]: "os_ok (healthy_os fs ds)"
  by (simp add: os_ok_def healthy_os_def)

end
