(* ===== verification/KvService.thy ===== *)
theory KvService
  imports KvConstants
begin

text \<open>
  The abstract specification of a key-value service: a finite map from keys to values
  driven by a sequence of requests, and the contract \<open>kv_service\<close> under which an
  implementation answers every sequence of requests as the map does. The store
  (\<open>KvStore\<close>) and the server with its cache (\<open>KvServer\<close>) are both instances.
\<close>

definition valid_key :: "string \<Rightarrow> bool" where
  "valid_key k \<longleftrightarrow> is_cstr k \<and> length k \<le> MAX_KEYLEN"

definition valid_val :: "string \<Rightarrow> bool" where
  "valid_val v \<longleftrightarrow> is_cstr v \<and> length v \<le> MAX_VALLEN"

datatype kv_op = Get string | Put string string | Del string

fun op_valid :: "kv_op \<Rightarrow> bool" where
  "op_valid (Get k) = valid_key k"
| "op_valid (Put k v) = (valid_key k \<and> valid_val v)"
| "op_valid (Del k) = valid_key k"

text \<open>The answers a map gives: a return code, and the value for a \<open>Get\<close> that finds one.\<close>

fun map_op :: "(string \<Rightarrow> string option) \<Rightarrow> kv_op \<Rightarrow> (int \<times> string option) \<times> (string \<Rightarrow> string option)" where
  "map_op m (Get k) = (case m k of None \<Rightarrow> (ERRNOKEY, None) | Some v \<Rightarrow> (0, Some v), m)"
| "map_op m (Put k v) = ((0, None), m(k \<mapsto> v))"
| "map_op m (Del k) = ((if m k = None then ERRNOKEY else 0, None), m(k := None))"

fun map_ops :: "(string \<Rightarrow> string option) \<Rightarrow> kv_op list \<Rightarrow> (int \<times> string option) list \<times> (string \<Rightarrow> string option)" where
  "map_ops m [] = ([], m)"
| "map_ops m (x # xs) = (let (r, m') = map_op m x; (rs, m'') = map_ops m' xs in (r # rs, m''))"

text \<open>The same requests on an implementation.\<close>

fun run_op :: "('s \<Rightarrow> string \<Rightarrow> (int \<times> string option \<times> 's) c_res) \<Rightarrow>
    ('s \<Rightarrow> string \<Rightarrow> string \<Rightarrow> (int \<times> 's) c_res) \<Rightarrow> ('s \<Rightarrow> string \<Rightarrow> (int \<times> 's) c_res) \<Rightarrow>
    's \<Rightarrow> kv_op \<Rightarrow> ((int \<times> string option) \<times> 's) c_res" where
  "run_op g p d s (Get k) = do { (r, v, s') \<leftarrow> g s k; Some ((r, v), s') }"
| "run_op g p d s (Put k v) = do { (r, s') \<leftarrow> p s k v; Some ((r, None), s') }"
| "run_op g p d s (Del k) = do { (r, s') \<leftarrow> d s k; Some ((r, None), s') }"

fun run_ops :: "('s \<Rightarrow> string \<Rightarrow> (int \<times> string option \<times> 's) c_res) \<Rightarrow>
    ('s \<Rightarrow> string \<Rightarrow> string \<Rightarrow> (int \<times> 's) c_res) \<Rightarrow> ('s \<Rightarrow> string \<Rightarrow> (int \<times> 's) c_res) \<Rightarrow>
    's \<Rightarrow> kv_op list \<Rightarrow> ((int \<times> string option) list \<times> 's) c_res" where
  "run_ops g p d s [] = Some ([], s)"
| "run_ops g p d s (x # xs) = do {
     (r, s') \<leftarrow> run_op g p d s x;
     (rs, s'') \<leftarrow> run_ops g p d s' xs;
     Some (r # rs, s'')
   }"

fun puts :: "kv_op list \<Rightarrow> nat" where
  "puts [] = 0"
| "puts (Put k v # xs) = Suc (puts xs)"
| "puts (_ # xs) = puts xs"

text \<open>\<open>s_ok n s\<close> is the invariant of the implementation, with a bound \<open>n\<close> on what it holds
  that an insertion may raise by one, up to \<open>s_limit\<close>.\<close>

locale kv_service =
  fixes s_ok :: "nat \<Rightarrow> 's \<Rightarrow> bool"
    and s_map :: "'s \<Rightarrow> string \<Rightarrow> string option"
    and s_limit :: nat
    and s_get :: "'s \<Rightarrow> string \<Rightarrow> (int \<times> string option \<times> 's) c_res"
    and s_put :: "'s \<Rightarrow> string \<Rightarrow> string \<Rightarrow> (int \<times> 's) c_res"
    and s_del :: "'s \<Rightarrow> string \<Rightarrow> (int \<times> 's) c_res"
  assumes s_get_law: "s_ok n s \<Longrightarrow> valid_key k \<Longrightarrow>
      \<exists>s'. s_get s k = Some (case s_map s k of None \<Rightarrow> (ERRNOKEY, None, s') | Some v \<Rightarrow> (0, Some v, s'))
        \<and> s_ok n s' \<and> s_map s' = s_map s"
    and s_put_law: "s_ok n s \<Longrightarrow> valid_key k \<Longrightarrow> valid_val v \<Longrightarrow> n < s_limit \<Longrightarrow>
      \<exists>s'. s_put s k v = Some (0, s') \<and> s_ok (Suc n) s' \<and> s_map s' = (s_map s)(k \<mapsto> v)"
    and s_del_law: "s_ok n s \<Longrightarrow> valid_key k \<Longrightarrow>
      \<exists>s'. s_del s k = Some (if s_map s k = None then ERRNOKEY else 0, s') \<and> s_ok n s'
        \<and> s_map s' = (s_map s)(k := None)"
begin

lemma run_op_refines:
  assumes "s_ok n s" and "op_valid x" and "n + puts [x] \<le> s_limit"
  shows "\<exists>s'. run_op s_get s_put s_del s x = Some (fst (map_op (s_map s) x), s')
    \<and> s_ok (n + puts [x]) s' \<and> s_map s' = snd (map_op (s_map s) x)"
proof (cases x)
  case (Get k)
  obtain s' where "s_get s k = Some (case s_map s k of None \<Rightarrow> (ERRNOKEY, None, s') | Some v \<Rightarrow> (0, Some v, s'))"
    "s_ok n s'" "s_map s' = s_map s"
    using s_get_law assms Get by fastforce
  then show ?thesis using Get by (cases "s_map s k") auto
next
  case (Put k v)
  then show ?thesis using s_put_law [of n s k v] assms by auto
next
  case (Del k)
  then show ?thesis using s_del_law [of n s k] assms by auto
qed

theorem run_ops_refine:
  assumes "s_ok n s" and "list_all op_valid xs" and "n + puts xs \<le> s_limit"
  shows "\<exists>s'. run_ops s_get s_put s_del s xs = Some (fst (map_ops (s_map s) xs), s')
    \<and> s_ok (n + puts xs) s' \<and> s_map s' = snd (map_ops (s_map s) xs)"
  using assms
proof (induction xs arbitrary: n s)
  case (Cons x xs)
  have p: "puts (x # xs) = puts [x] + puts xs" by (cases x) simp_all
  obtain s' where s': "run_op s_get s_put s_del s x = Some (fst (map_op (s_map s) x), s')"
    "s_ok (n + puts [x]) s'" "s_map s' = snd (map_op (s_map s) x)"
    using run_op_refines [of n s x] Cons.prems p by auto
  with Cons.IH [OF s'(2)] Cons.prems p show ?case
    by (auto simp: split_beta add.assoc)
qed simp

end

end
