(* ===== verification/KvStore.thy ===== *)
theory KvStore
  imports Posix KvService
begin

text \<open>
  The persistent store, \<^verbatim>\<open>kvstore.c\<close>. Every entry is a file
  \<open>dirname/hash-chainpos.entry\<close> whose content is the memory image of a
  \<open>kventry_t\<close>: a 32-bit length and the key and the value, each with its terminator.
  Keys with equal hashes form a chain, numbered from 0 without gaps; deletion moves the
  last entry of the chain into the hole. The theory models every function of the file over
  the file system of \<open>Posix\<close>, gives the store's representation invariant
  (\<open>store_repr\<close>) and proves that the operations implement a finite map from keys to
  values. The read-write lock of the store is not part of the sequential model.

  Chain positions are \<open>int\<close> and \<open>unsigned\<close> in the code; the loops stop with
  \<open>None\<close> at position \<open>2^31\<close>, where the \<open>int\<close> overflows.
\<close>

unbundle bit_operations_syntax

subsection \<open>The djb2 hash\<close>

fun hash_loop :: "u64 \<Rightarrow> string \<Rightarrow> u64" where
  "hash_loop h [] = h"
| "hash_loop h (c # str) = hash_loop ((push_bit 5 h + h) + word_of_int (schar c)) str"

definition hash :: "string \<Rightarrow> u64" where
  "hash str = hash_loop 5381 str"

subsection \<open>Entries and their files\<close>

record kvstore_t =
  store_dirname :: string

record kventry_t =
  en_length :: int
  en_data :: "char list"

definition KVSTORE_FILETYPE :: string where "KVSTORE_FILETYPE = ''.entry''"

definition sizeof_kventry_t :: nat where [c_const]: "sizeof_kventry_t = 4"

definition make_entry :: "string \<Rightarrow> string \<Rightarrow> kventry_t" where
  "make_entry key value = \<lparr>en_length = int (length key + length value + 2),
     en_data = key @ [NUL] @ value @ [NUL]\<rparr>"

definition entry_dump :: "kventry_t \<Rightarrow> char list" where
  "entry_dump e = int_bytes (nat (en_length e)) @ en_data e"

text \<open>The second \<open>fread\<close>: the whole entry; a file shorter than its header says leaves
  part of the object uninitialised.\<close>

definition entry_body :: "char list \<Rightarrow> int \<Rightarrow> kventry_t c_res" where
  "entry_body bs len = (if 0 \<le> len \<and> sizeof_kventry_t + nat len \<le> length bs
     then Some \<lparr>en_length = len, en_data = take (nat len) (drop sizeof_kventry_t bs)\<rparr>
     else None)"

definition entry_name :: "string \<Rightarrow> u64 \<Rightarrow> nat \<Rightarrow> string" where
  "entry_name d h c = d @ ''/'' @ dec (unat h) @ ''-'' @ dec c @ KVSTORE_FILETYPE"

text \<open>\<open>sprintf\<close> into a buffer of \<open>MAX_FILENAME\<close> bytes.\<close>

definition entry_path :: "kvstore_t \<Rightarrow> u64 \<Rightarrow> nat \<Rightarrow> string c_res" where
  "entry_path store h c = (let p = entry_name (store_dirname store) h c
     in if length p < MAX_FILENAME then Some p else None)"

subsection \<open>Operations\<close>

definition kvstore_init :: "posix \<Rightarrow> kvstore_t \<Rightarrow> string \<Rightarrow> (int \<times> posix \<times> kvstore_t) c_res" where
  "kvstore_init w store dirname =
     (case (if stat_ok w dirname then Inr w
            else case mkdir_errno w dirname of Some e \<Rightarrow> Inl e | None \<Rightarrow> Inr (make_dir w dirname)) of
        Inl e \<Rightarrow> Some (e, w, store)
      | Inr w' \<Rightarrow> if length dirname < MAX_FILENAME
          then Some (0, w', store\<lparr>store_dirname := dirname\<rparr>) else None)"

text \<open>The loop of \<open>find_entry\<close>; \<open>want\<close> says that \<open>VALUE\<close> is not null. The result is
  the return value and the string stored through \<open>VALUE\<close>, if any.\<close>

function find_entry_loop ::
    "posix \<Rightarrow> kvstore_t \<Rightarrow> u64 \<Rightarrow> string \<Rightarrow> bool \<Rightarrow> nat \<Rightarrow> (int \<times> string option) c_res" where
  "find_entry_loop w store h key want counter =
     (if 2147483648 \<le> counter then None else do {
        currfile \<leftarrow> entry_path store h counter;
        if \<not> stat_ok w currfile then Some (ERRNOKEY, None)
        else if \<not> open_ok w currfile then Some (ERRFILACCESS, None)
        else do {
          bs \<leftarrow> fcontent w currfile;
          len \<leftarrow> bytes_int bs;
          if \<not> malloc_ok w (nat ((int sizeof_kventry_t + len) mod 18446744073709551616))
          then Some (ENOMEM, None)
          else do {
            entry \<leftarrow> entry_body bs len;
            k \<leftarrow> read_cstr (en_data entry);
            if key = k then
              if want then
                if \<not> malloc_ok w (nat (en_length entry) - length k - 1) then Some (ENOMEM, None)
                else do {
                  v \<leftarrow> read_cstr (drop (length k + 1) (en_data entry));
                  Some (int counter, Some v)
                }
              else Some (int counter, None)
            else find_entry_loop w store h key want (Suc counter)
          }
        }
      })"
  by pat_completeness auto
termination
  by (relation "measure (\<lambda>(w, store, h, key, want, counter). 2147483648 - counter)") auto

declare find_entry_loop.simps [simp del]

definition find_entry ::
    "posix \<Rightarrow> kvstore_t \<Rightarrow> string \<Rightarrow> bool \<Rightarrow> (int \<times> string option) c_res" where
  "find_entry w store key want =
     (if length key > MAX_KEYLEN then Some (ERRKEYLEN, None)
      else if \<not> stat_ok w (store_dirname store) then Some (ERRFILACCESS, None)
      else find_entry_loop w store (hash key) key want 0)"

definition kvstore_haskey :: "posix \<Rightarrow> kvstore_t \<Rightarrow> string \<Rightarrow> bool c_res" where
  "kvstore_haskey w store key = do { (r, _) \<leftarrow> find_entry w store key False; Some (r \<ge> 0) }"

definition kvstore_get :: "posix \<Rightarrow> kvstore_t \<Rightarrow> string \<Rightarrow> (int \<times> string option) c_res" where
  "kvstore_get w store key = do {
     (ret, v) \<leftarrow> find_entry w store key True;
     Some (if ret < 0 then ret else 0, v)
   }"

definition kvstore_put_check :: "posix \<Rightarrow> kvstore_t \<Rightarrow> string \<Rightarrow> string \<Rightarrow> int" where
  "kvstore_put_check w store key value =
     (if length key > MAX_KEYLEN then ERRKEYLEN
      else if length value > MAX_VALLEN then ERRVALLEN
      else if \<not> stat_ok w (store_dirname store) then ERRFILACCESS
      else 0)"

text \<open>The search for the first unused position of a chain, from position \<open>counter\<close> on.\<close>

function chain_end :: "posix \<Rightarrow> kvstore_t \<Rightarrow> u64 \<Rightarrow> nat \<Rightarrow> nat c_res" where
  "chain_end w store h counter =
     (if 2147483648 \<le> counter then None else do {
        filename \<leftarrow> entry_path store h counter;
        if stat_ok w filename then chain_end w store h (Suc counter) else Some counter
      })"
  by pat_completeness auto
termination
  by (relation "measure (\<lambda>(w, store, h, counter). 2147483648 - counter)") auto

declare chain_end.simps [simp del]

definition kvstore_put :: "posix \<Rightarrow> kvstore_t \<Rightarrow> string \<Rightarrow> string \<Rightarrow> (int \<times> posix) c_res" where
  "kvstore_put w store key value =
     (let check = kvstore_put_check w store key value in
      if check < 0 then Some (check, w)
      else do {
        (found, _) \<leftarrow> find_entry w store key False;
        counter \<leftarrow> (if found \<ge> 0 then Some (nat found) else chain_end w store (hash key) 0);
        filename \<leftarrow> entry_path store (hash key) counter;
        if \<not> open_ok w filename then Some (ERRFILACCESS, w)
        else if \<not> malloc_ok w (sizeof_kventry_t + length key + length value + 2) then None
        else Some (0, write_file w filename (entry_dump (make_entry key value)))
      })"

definition kvstore_del_check :: "posix \<Rightarrow> kvstore_t \<Rightarrow> string \<Rightarrow> int c_res" where
  "kvstore_del_check w store key =
     (if length key > MAX_KEYLEN then Some ERRKEYLEN
      else if \<not> stat_ok w (store_dirname store) then Some ERRFILACCESS
      else do {
        present \<leftarrow> kvstore_haskey w store key;
        Some (if \<not> present then ERRNOKEY else 0)
      })"

definition kvstore_del :: "posix \<Rightarrow> kvstore_t \<Rightarrow> string \<Rightarrow> (int \<times> posix) c_res" where
  "kvstore_del w store key = do {
     (chainpos, _) \<leftarrow> find_entry w store key False;
     if chainpos < 0 then Some (chainpos, w)
     else do {
       delfile \<leftarrow> entry_path store (hash key) (nat chainpos);
       counter \<leftarrow> chain_end w store (hash key) (Suc (nat chainpos));
       if counter = Suc (nat chainpos) then
         Some (case posix_remove w delfile of Inl e \<Rightarrow> (e, w) | Inr w' \<Rightarrow> (0, w'))
       else do {
         currfile \<leftarrow> entry_path store (hash key) (counter - 1);
         Some (case posix_rename w currfile delfile of Inl e \<Rightarrow> (e, w) | Inr w' \<Rightarrow> (0, w'))
       }
     }
   }"

text \<open>\<open>kvstore_clean\<close>: the loop over \<open>readdir\<close> removes what it can and ignores failures.\<close>

fun remove_dents :: "posix \<Rightarrow> string \<Rightarrow> string list \<Rightarrow> posix c_res" where
  "remove_dents w d [] = Some w"
| "remove_dents w d (n # ns) =
     (let filename = d @ ''/'' @ n in
      if length filename < MAX_FILENAME
      then remove_dents (case posix_remove w filename of Inl _ \<Rightarrow> w | Inr w' \<Rightarrow> w') d ns
      else None)"

definition kvstore_clean :: "posix \<Rightarrow> kvstore_t \<Rightarrow> (int \<times> posix) c_res" where
  "kvstore_clean w store =
     (if store_dirname store \<notin> set (p_dirs w) then Some (0, w)
      else do {
        w' \<leftarrow> remove_dents w (store_dirname store) (dir_entries w (store_dirname store));
        Some (0, case posix_remove w' (store_dirname store) of Inl _ \<Rightarrow> w' | Inr w'' \<Rightarrow> w'')
      })"

subsection \<open>The hash over the integers\<close>

text \<open>The loop computes \<open>h * 33 + c\<close> modulo \<open>2^64\<close> with signed characters; the equation is
  also the one used for evaluation.\<close>

lemma hash_loop_int:
  "hash_loop (word_of_int h) str = word_of_int (foldl (\<lambda>h c. (33 * h + schar c) mod 18446744073709551616) h str)"
proof (induction str arbitrary: h)
  case (Cons c str)
  have "push_bit 5 (word_of_int h :: u64) + word_of_int h + word_of_int (schar c) = word_of_int (33 * h + schar c)"
    by (simp add: push_bit_eq_mult algebra_simps)
  also have "\<dots> = word_of_int ((33 * h + schar c) mod 18446744073709551616)"
    by (simp only: word_of_int_eq_iff) (simp add: take_bit_eq_mod)
  finally show ?case using Cons by simp
qed simp

lemma hash_code [code]:
  "hash str = word_of_int (foldl (\<lambda>h c. (33 * h + schar c) mod 18446744073709551616) 5381 str)"
  using hash_loop_int [of 5381 str] by (simp add: hash_def)

subsection \<open>Entry files: encoding and names\<close>

definition entry_file :: "string \<times> string \<Rightarrow> char list" where
  "entry_file kv = entry_dump (make_entry (fst kv) (snd kv))"

text \<open>Reading back what \<open>kvstore_put\<close> wrote.\<close>

definition entry_len :: "string \<Rightarrow> string \<Rightarrow> int" where
  "entry_len k v = int (length k + length v + 2)"

lemma entry_file_roundtrip:
  assumes "valid_key k" and "valid_val v"
  shows "bytes_int (entry_file (k, v)) = Some (entry_len k v)"
    and "entry_body (entry_file (k, v)) (entry_len k v) = Some (make_entry k v)"
proof -
  have "length k + length v + 2 < 2147483648"
    using assms by (simp add: valid_key_def valid_val_def c_const)
  from bytes_int_int_bytes [OF this] show "bytes_int (entry_file (k, v)) = Some (entry_len k v)"
    by (simp add: entry_file_def entry_dump_def make_entry_def entry_len_def nat_add_distrib)
  show "entry_body (entry_file (k, v)) (entry_len k v) = Some (make_entry k v)"
    by (simp add: entry_file_def entry_dump_def make_entry_def entry_len_def entry_body_def
        sizeof_kventry_t_def nat_add_distrib)
qed

lemma read_entry_strings:
  assumes "is_cstr k" and "is_cstr v"
  shows "read_cstr (en_data (make_entry k v)) = Some k"
    and "read_cstr (drop (length k + 1) (en_data (make_entry k v))) = Some v"
  using assms read_cstr_append [of v "[]"] by (simp_all add: make_entry_def)

lemma entry_name_inj [simp, fname_inj]:
  "entry_name d h c = entry_name d h' c' \<longleftrightarrow> h = h' \<and> c = c'"
  by (auto simp: entry_name_def append_sep_eq dec_notin KVSTORE_FILETYPE_def word_unat_eq_iff)

lemma dec_u64_length: "length (dec (unat (h :: u64))) \<le> 20"
proof -
  have "unat h < 2 ^ 64" using unsigned_less [of h] by simp
  then have "unat h < 10 ^ 20" by simp
  then show ?thesis by (rule dec_length_bound) simp
qed

definition dirname_fits :: "string \<Rightarrow> bool" where
  "dirname_fits d \<longleftrightarrow> length d + 38 < MAX_FILENAME"

lemma entry_path_fits:
  assumes "dirname_fits (store_dirname store)" and "c \<le> 2147483648"
  shows "entry_path store h c = Some (entry_name (store_dirname store) h c)"
proof -
  have "length (dec c) \<le> 10" using assms(2) by (intro dec_length_bound) auto
  then show ?thesis
    using assms(1) dec_u64_length [of h]
    by (simp add: entry_path_def entry_name_def dirname_fits_def KVSTORE_FILETYPE_def Let_def)
qed

subsection \<open>The representation of a map by chains of files\<close>

text \<open>\<open>ch h\<close> is the chain of hash \<open>h\<close>: its files are exactly the positions below its
  length (chains are complete), each holds the image of its entry, keys are distinct and
  sit in the chain of their hash.\<close>

definition chain_repr :: "posix \<Rightarrow> string \<Rightarrow> u64 \<Rightarrow> (string \<times> string) list \<Rightarrow> bool" where
  "chain_repr w d h es \<longleftrightarrow> length es < 2147483648
     \<and> (\<forall>c. fcontent w (entry_name d h c) = (if c < length es then Some (entry_file (es ! c)) else None))
     \<and> distinct (map fst es)
     \<and> (\<forall>(k, v) \<in> set es. hash k = h \<and> valid_key k \<and> valid_val v)"

definition store_repr :: "posix \<Rightarrow> kvstore_t \<Rightarrow> (u64 \<Rightarrow> (string \<times> string) list) \<Rightarrow> bool" where
  "store_repr w store ch \<longleftrightarrow> dirname_fits (store_dirname store)
     \<and> store_dirname store \<in> set (p_dirs w)
     \<and> (\<forall>h c. entry_name (store_dirname store) h c \<notin> set (p_dirs w))
     \<and> (\<forall>h. chain_repr w (store_dirname store) h (ch h))"

definition store_inv :: "posix \<Rightarrow> kvstore_t \<Rightarrow> bool" where
  "store_inv w store \<longleftrightarrow> (\<exists>ch. store_repr w store ch)"

text \<open>The map a store represents: what \<open>kvstore_get\<close> finds.\<close>

definition store_map :: "posix \<Rightarrow> kvstore_t \<Rightarrow> string \<Rightarrow> string option" where
  "store_map w store key = (case kvstore_get w store key of Some (_, v) \<Rightarrow> v | None \<Rightarrow> None)"

lemma chain_reprD:
  assumes "chain_repr w d h es"
  shows "length es < 2147483648"
    and "c < length es \<Longrightarrow> fcontent w (entry_name d h c) = Some (entry_file (es ! c))"
    and "c \<ge> length es \<Longrightarrow> fcontent w (entry_name d h c) = None"
    and "distinct (map fst es)"
    and "c < length es \<Longrightarrow> hash (fst (es ! c)) = h \<and> valid_key (fst (es ! c)) \<and> valid_val (snd (es ! c))"
  using assms unfolding chain_repr_def by (auto simp: case_prod_beta)

lemma store_reprD:
  assumes "store_repr w store ch"
  shows "dirname_fits (store_dirname store)"
    and "store_dirname store \<in> set (p_dirs w)"
    and "stat_ok w (store_dirname store)"
    and "entry_name (store_dirname store) h c \<notin> set (p_dirs w)"
    and "chain_repr w (store_dirname store) h (ch h)"
  using assms by (auto simp: store_repr_def stat_ok_def)

text \<open>One iteration of the search: past a mismatch, at a match, at the end of the chain.\<close>

lemma find_entry_loop_step:
  assumes "os_ok w" and repr: "store_repr w store ch" and c: "c < length (ch h)"
  shows "find_entry_loop w store h key want c =
    (if key = fst (ch h ! c) then Some (int c, if want then Some (snd (ch h ! c)) else None)
     else find_entry_loop w store h key want (Suc c))"
proof -
  obtain k v where kv: "ch h ! c = (k, v)" by fastforce
  note cr = store_reprD(5) [OF repr, of h]
  have path: "entry_path store h c = Some (entry_name (store_dirname store) h c)"
    using chain_reprD(1) [OF cr] c store_reprD(1) [OF repr] by (simp add: entry_path_fits)
  have "fcontent w (entry_name (store_dirname store) h c) = Some (entry_file (k, v))"
    using chain_reprD(2) [OF cr c] kv by simp
  moreover have "valid_key k" "valid_val v" using chain_reprD(5) [OF cr c] kv by auto
  moreover have "is_cstr k" "is_cstr v"
    using \<open>valid_key k\<close> \<open>valid_val v\<close> by (auto simp: valid_key_def valid_val_def)
  ultimately show ?thesis
    using assms(1) chain_reprD(1) [OF cr] c kv path
    by (subst find_entry_loop.simps)
      (simp add: stat_ok_def os_ok_def entry_file_roundtrip read_entry_strings [simplified])
qed

lemma find_entry_loop_end:
  assumes repr: "store_repr w store ch"
  shows "find_entry_loop w store h key want (length (ch h)) = Some (ERRNOKEY, None)"
proof -
  note cr = store_reprD(5) [OF repr, of h]
  show ?thesis
    using chain_reprD(1) [OF cr] chain_reprD(3) [OF cr, of "length (ch h)"] store_reprD(1,4) [OF repr]
    by (subst find_entry_loop.simps) (simp add: entry_path_fits stat_ok_def)
qed

lemma find_entry_loop_found:
  assumes "os_ok w" and "store_repr w store ch" and "i < length (ch h)" and "fst (ch h ! i) = key"
    and "c \<le> i" and "\<forall>j<i. fst (ch h ! j) \<noteq> key"
  shows "find_entry_loop w store h key want c =
    Some (int i, if want then Some (snd (ch h ! i)) else None)"
  using assms(5)
proof (induction rule: inc_induct)
  case base
  then show ?case using assms by (simp add: find_entry_loop_step)
next
  case (step n)
  then show ?case
    using assms find_entry_loop_step [of w store ch n h key want] by auto
qed

lemma find_entry_loop_missing:
  assumes "os_ok w" and "store_repr w store ch" and "key \<notin> fst ` set (ch h)" and "c \<le> length (ch h)"
  shows "find_entry_loop w store h key want c = Some (ERRNOKEY, None)"
  using assms(4)
proof (induction rule: inc_induct)
  case base
  then show ?case using assms(2) by (rule find_entry_loop_end)
next
  case (step n)
  then have "key \<noteq> fst (ch h ! n)" using assms(3) by force
  with step show ?case
    using assms find_entry_loop_step [of w store ch n h key want] by simp
qed

lemma find_entry_cases:
  assumes ok: "os_ok w" and repr: "store_repr w store ch" and len: "length key \<le> MAX_KEYLEN"
  obtains (found) i where "i < length (ch (hash key))" "fst (ch (hash key) ! i) = key"
      "map_of (ch (hash key)) key = Some (snd (ch (hash key) ! i))"
      "\<And>want. find_entry w store key want =
         Some (int i, if want then Some (snd (ch (hash key) ! i)) else None)"
  | (missing) "key \<notin> fst ` set (ch (hash key))" "map_of (ch (hash key)) key = None"
      "\<And>want. find_entry w store key want = Some (ERRNOKEY, None)"
proof -
  let ?es = "ch (hash key)"
  have loop: "find_entry w store key want = find_entry_loop w store (hash key) key want 0" for want
    using len store_reprD(3) [OF repr] by (simp add: find_entry_def)
  have dist: "distinct (map fst ?es)" by (rule chain_reprD(4) [OF store_reprD(5) [OF repr]])
  show thesis
  proof (cases "key \<in> fst ` set ?es")
    case True
    then obtain i where i: "i < length ?es" "fst (?es ! i) = key"
      by (auto simp: in_set_conv_nth)
    have "fst (?es ! j) \<noteq> key" if "j < i" for j
      using that i dist nth_eq_iff_index_eq [OF dist, of j i] by auto
    then have "find_entry w store key want = Some (int i, if want then Some (snd (?es ! i)) else None)" for want
      using find_entry_loop_found [OF ok repr i, of 0] loop by simp
    moreover have "map_of ?es key = Some (snd (?es ! i))"
      using dist i by (metis map_of_eq_Some_iff nth_mem prod.collapse)
    ultimately show thesis using i found by blast
  next
    case False
    then show thesis
      using missing find_entry_loop_missing [OF ok repr False, of 0] loop
      by (simp add: map_of_eq_None_iff)
  qed
qed

lemma store_map_eq:
  assumes "os_ok w" and "store_repr w store ch"
  shows "store_map w store key = map_of (ch (hash key)) key"
proof (cases "length key \<le> MAX_KEYLEN")
  case True
  from assms True show ?thesis
    by (cases rule: find_entry_cases) (auto simp: store_map_def kvstore_get_def)
next
  case False
  then have "key \<notin> fst ` set (ch (hash key))"
    using chain_reprD(5) [OF store_reprD(5) [OF assms(2)], of _ "hash key"]
    by (force simp: in_set_conv_nth valid_key_def)
  with False show ?thesis
    by (auto simp: store_map_def kvstore_get_def find_entry_def map_of_eq_None_iff [THEN iffD2])
qed

lemma chain_end_spec:
  assumes repr: "store_repr w store ch" and "c \<le> length (ch h)"
  shows "chain_end w store h c = Some (length (ch h))"
proof -
  note cr = store_reprD(5) [OF repr, of h]
  note facts = chain_reprD(1-3) [OF cr] store_reprD(1,4) [OF repr]
  show ?thesis
    using assms(2)
  proof (induction rule: inc_induct)
    case base
    show ?case using facts by (subst chain_end.simps) (simp add: entry_path_fits stat_ok_def)
  next
    case (step n)
    then show ?case using facts by (subst chain_end.simps) (simp add: entry_path_fits stat_ok_def)
  qed
qed

text \<open>A change of the files of one chain only.\<close>

lemma store_repr_chain:
  assumes "store_repr w store ch" and "p_dirs w' = p_dirs w"
    and "\<And>h' c. h' \<noteq> h \<Longrightarrow>
      fcontent w' (entry_name (store_dirname store) h' c) = fcontent w (entry_name (store_dirname store) h' c)"
    and "chain_repr w' (store_dirname store) h es"
  shows "store_repr w' store (ch(h := es))"
  using assms by (auto simp: store_repr_def chain_repr_def)

lemma chain_repr_update:
  assumes "chain_repr w d (hash k) es" and "i < length es" and "fst (es ! i) = k"
    and "valid_key k" and "valid_val v"
  shows "chain_repr (write_file w (entry_name d (hash k) i) (entry_file (k, v))) d (hash k) (es[i := (k, v)])"
proof -
  have "map fst (es[i := (k, v)]) = map fst es"
    using assms(2,3) by (simp add: map_update list_update_same_conv)
  moreover have "set (es[i := (k, v)]) \<subseteq> insert (k, v) (set es)" by (rule set_update_subset_insert)
  ultimately show ?thesis
    using assms by (auto simp: chain_repr_def nth_list_update)
qed

text \<open>\<open>chain_bound n\<close>: no chain has more than \<open>n\<close> entries.\<close>

definition chain_bound :: "nat \<Rightarrow> posix \<Rightarrow> kvstore_t \<Rightarrow> bool" where
  "chain_bound n w store \<longleftrightarrow> (\<forall>h. fcontent w (entry_name (store_dirname store) h n) = None)"

lemma chain_bound_repr:
  assumes "store_repr w store ch"
  shows "chain_bound n w store \<longleftrightarrow> (\<forall>h. length (ch h) \<le> n)"
proof -
  have "fcontent w (entry_name (store_dirname store) h n) = None \<longleftrightarrow> length (ch h) \<le> n" for h
    using chain_reprD(2,3) [OF store_reprD(5) [OF assms, of h], of n] by (cases "length (ch h) \<le> n") auto
  then show ?thesis by (simp add: chain_bound_def)
qed

lemma chain_repr_append:
  assumes "chain_repr w d (hash k) es" and "Suc (length es) < 2147483648" and "k \<notin> fst ` set es"
    and "valid_key k" and "valid_val v"
  shows "chain_repr (write_file w (entry_name d (hash k) (length es)) (entry_file (k, v))) d (hash k) (es @ [(k, v)])"
  using assms by (auto simp: chain_repr_def nth_append)

lemma chain_repr_remove_last:
  assumes "chain_repr w d h es" and "es \<noteq> []"
  shows "chain_repr (remove_file w (entry_name d h (length es - 1))) d h (butlast es)"
  using assms
  by (auto simp: chain_repr_def nth_butlast map_butlast distinct_butlast dest: in_set_butlastD)

lemma chain_repr_move_last:
  assumes "chain_repr w d h es" and i: "i < length es - 1"
  shows "chain_repr (rename_file w (entry_name d h (length es - 1)) (entry_name d h i)) d h
    ((butlast es)[i := last es])"
proof -
  from i have ne: "es \<noteq> []" by auto
  then have es: "es = butlast es @ [last es]" by simp
  have last: "fcontent w (entry_name d h (length es - 1)) = Some (entry_file (last es))"
    using chain_reprD(2) [OF assms(1), of "length es - 1"] ne by (simp add: last_conv_nth)
  have sub: "set ((butlast es)[i := last es]) \<subseteq> set es"
    using set_update_subset_insert [of "butlast es" i "last es"] ne
    by (auto dest: in_set_butlastD)
  have "distinct (map fst (butlast es @ [last es]))"
    using chain_reprD(4) [OF assms(1)] es by metis
  then have "distinct (map fst ((butlast es)[i := last es]))"
    by (auto simp: map_update intro!: distinct_list_update)
  with sub last show ?thesis
    using assms by (auto simp: chain_repr_def nth_list_update nth_butlast)
qed

subsection \<open>The store implements a map\<close>

lemma kvstore_get_spec:
  assumes "os_ok w" and "store_inv w store" and "length key \<le> MAX_KEYLEN"
  shows "kvstore_get w store key = Some (case store_map w store key of
      None \<Rightarrow> (ERRNOKEY, None) | Some v \<Rightarrow> (0, Some v))"
proof -
  from assms(2) obtain ch where repr: "store_repr w store ch" by (auto simp: store_inv_def)
  from assms(1) repr assms(3) show ?thesis
    by (cases rule: find_entry_cases)
      (simp_all add: kvstore_get_def store_map_eq [OF assms(1) repr] ERRNOKEY_def)
qed

lemma store_map_upd:
  assumes "os_ok w" and "store_repr w store ch" and "os_ok w'" and "store_repr w' store (ch(hash k := es))"
    and "\<And>k'. k' \<noteq> k \<Longrightarrow> map_of es k' = map_of (ch (hash k)) k'"
  shows "store_map w' store = (store_map w store)(k := map_of es k)"
proof
  fix k'
  show "store_map w' store k' = ((store_map w store)(k := map_of es k)) k'"
    using assms(5) [of k'] by (simp add: store_map_eq [OF assms(1,2)] store_map_eq [OF assms(3,4)])
qed

text \<open>The effect of an insertion on the chains: the entry of the key is overwritten in
  place, or appended to its chain.\<close>

lemma kvstore_put_repr:
  assumes ok: "os_ok w" and repr: "store_repr w store ch" and key: "valid_key k" and val: "valid_val v"
    and room: "Suc (length (ch (hash k))) < 2147483648"
  obtains w' es where "kvstore_put w store k v = Some (0, w')" "os_ok w'" "store_repr w' store (ch(hash k := es))"
    "map_of es = (map_of (ch (hash k)))(k \<mapsto> v)" "length es \<le> Suc (length (ch (hash k)))"
proof -
  let ?d = "store_dirname store" and ?h = "hash k"
  let ?w = "\<lambda>c. write_file w (entry_name ?d ?h c) (entry_file (k, v))"
  note cr = store_reprD(5) [OF repr, of ?h]
  note paths = entry_path_fits [OF store_reprD(1) [OF repr]]
  have check: "kvstore_put_check w store k v = 0"
    using key val store_reprD(3) [OF repr] by (simp add: kvstore_put_check_def valid_key_def valid_val_def)
  have r: "store_repr (?w c) store (ch(?h := es))" if "chain_repr (?w c) ?d ?h es" for c es
    using that by (intro store_repr_chain [OF repr]) auto
  have "length k \<le> MAX_KEYLEN" using key by (simp add: valid_key_def)
  with ok repr show thesis
  proof (cases rule: find_entry_cases)
    case (found i)
    have "kvstore_put w store k v = Some (0, ?w i)"
      using found(1) chain_reprD(1) [OF cr] ok
      by (simp add: kvstore_put_def check found(4) paths os_ok_def entry_file_def)
    moreover have "map_of ((ch ?h)[i := (k, v)]) = (map_of (ch ?h))(k \<mapsto> v)"
      using found(1,2) chain_reprD(4) [OF cr] by (rule map_of_list_update)
    ultimately show thesis
      using that [OF _ _ r [OF chain_repr_update [OF cr found(1,2) key val]]] ok by simp
  next
    case missing
    have "kvstore_put w store k v = Some (0, ?w (length (ch ?h)))"
      using chain_reprD(1) [OF cr] ok chain_end_spec [OF repr, of 0]
      by (simp add: kvstore_put_def check missing(3) paths os_ok_def entry_file_def ERRNOKEY_def)
    moreover have "map_of (ch ?h @ [(k, v)]) = (map_of (ch ?h))(k \<mapsto> v)"
      using missing(2) by (rule map_of_append_new)
    ultimately show thesis
      using that [OF _ _ r [OF chain_repr_append [OF cr room missing(1) key val]]] ok by simp
  qed
qed

text \<open>The effect of a deletion: the last entry of the chain is removed, or moved into the
  hole.\<close>

lemma kvstore_del_found:
  assumes ok: "os_ok w" and repr: "store_repr w store ch" and i: "i < length (ch (hash k))"
    and k: "fst (ch (hash k) ! i) = k" and found: "find_entry w store k False = Some (int i, None)"
  obtains w' es where "kvstore_del w store k = Some (0, w')" "os_ok w'" "p_dirs w' = p_dirs w"
    "chain_repr w' (store_dirname store) (hash k) es" "map_of es = (map_of (ch (hash k)))(k := None)"
    "length es \<le> length (ch (hash k))"
    "\<forall>h c. h \<noteq> hash k \<longrightarrow> fcontent w' (entry_name (store_dirname store) h c) = fcontent w (entry_name (store_dirname store) h c)"
proof -
  let ?d = "store_dirname store" and ?h = "hash k"
  let ?es = "ch ?h"
  let ?n = "length ?es - 1"
  note cr = store_reprD(5) [OF repr, of ?h]
  note paths = entry_path_fits [OF store_reprD(1) [OF repr]]
  have ne: "?es \<noteq> []" using i by auto
  have ce: "chain_end w store ?h (Suc i) = Some (length ?es)"
    using i by (intro chain_end_spec [OF repr]) simp
  have last: "fcontent w (entry_name ?d ?h ?n) = Some (entry_file (?es ! ?n))"
    using chain_reprD(2) [OF cr] ne by simp
  show thesis
  proof (cases "length ?es = Suc i")
    case True
    have "kvstore_del w store k = Some (0, remove_file w (entry_name ?d ?h ?n))"
      using True ok chain_reprD(1,2) [OF cr]
      by (simp add: kvstore_del_def found paths ce posix_remove_def os_ok_def)
    moreover have "map_of (butlast ?es) = (map_of ?es)(k := None)"
      using map_of_butlast [OF ne chain_reprD(4) [OF cr]] k True by (simp add: last_conv_nth ne)
    ultimately show thesis
      using that [OF _ _ _ chain_repr_remove_last [OF cr ne]] ok by simp
  next
    case False
    then have lt: "i < ?n" using i by simp
    have "kvstore_del w store k = Some (0, rename_file w (entry_name ?d ?h ?n) (entry_name ?d ?h i))"
      using False ok chain_reprD(1) [OF cr] last i
      by (simp add: kvstore_del_def found paths ce posix_rename_def os_ok_def)
    moreover have "map_of ((butlast ?es)[i := last ?es]) = (map_of ?es)(k := None)"
      using map_of_move_last [OF lt chain_reprD(4) [OF cr]] k by simp
    ultimately show thesis
      using that [OF _ _ _ chain_repr_move_last [OF cr lt]] ok last by simp
  qed
qed

lemma kvstore_del_repr:
  assumes ok: "os_ok w" and repr: "store_repr w store ch" and key: "length k \<le> MAX_KEYLEN"
  obtains w' es where "kvstore_del w store k = Some (if store_map w store k = None then ERRNOKEY else 0, w')"
    "os_ok w'" "store_repr w' store (ch(hash k := es))" "map_of es = (map_of (ch (hash k)))(k := None)"
    "length es \<le> length (ch (hash k))"
  using assms
proof (cases rule: find_entry_cases)
  case (found i)
  from ok repr found(1,2) found(4) [of False, simplified] obtain w' es where *: "kvstore_del w store k = Some (0, w')" "os_ok w'" "p_dirs w' = p_dirs w"
    "chain_repr w' (store_dirname store) (hash k) es" "map_of es = (map_of (ch (hash k)))(k := None)"
    "length es \<le> length (ch (hash k))"
    "\<forall>h c. h \<noteq> hash k \<longrightarrow> fcontent w' (entry_name (store_dirname store) h c) = fcontent w (entry_name (store_dirname store) h c)"
    by (rule kvstore_del_found)
  moreover have "store_map w store k \<noteq> None" using found(3) by (simp add: store_map_eq [OF ok repr])
  moreover have "store_repr w' store (ch(hash k := es))"
    using *(3,4,7) by (intro store_repr_chain [OF repr]) simp_all
  ultimately show thesis using that [of w' es] by auto
next
  case missing
  then have "kvstore_del w store k = Some (ERRNOKEY, w)" by (simp add: kvstore_del_def ERRNOKEY_def)
  then show thesis
    using that [of w "ch (hash k)"] missing(2) ok repr by (simp add: store_map_eq [OF ok repr] fun_upd_idem)
qed

text \<open>The two updates on the map the store represents, for a store whose chains have at most
  \<open>n\<close> entries.\<close>

definition store_ok :: "nat \<Rightarrow> posix \<times> kvstore_t \<Rightarrow> bool" where
  "store_ok n s \<longleftrightarrow> os_ok (fst s) \<and> store_inv (fst s) (snd s) \<and> chain_bound n (fst s) (snd s)"

lemma kvstore_put_spec:
  assumes "store_ok n (w, store)" and "valid_key k" and "valid_val v" and "n < 2147483647"
  shows "\<exists>w'. kvstore_put w store k v = Some (0, w') \<and> store_ok (Suc n) (w', store)
    \<and> store_map w' store = (store_map w store)(k \<mapsto> v)"
proof -
  from assms(1) obtain ch where ok: "os_ok w" and repr: "store_repr w store ch" and len: "\<forall>h. length (ch h) \<le> n"
    by (auto simp: store_ok_def store_inv_def chain_bound_repr)
  have "Suc (length (ch (hash k))) < 2147483648" using spec [OF len, of "hash k"] assms(4) by simp
  with ok repr assms(2,3) obtain w' es where *: "kvstore_put w store k v = Some (0, w')" "os_ok w'"
    "store_repr w' store (ch(hash k := es))" "map_of es = (map_of (ch (hash k)))(k \<mapsto> v)"
    "length es \<le> Suc (length (ch (hash k)))"
    by (rule kvstore_put_repr)
  have "\<forall>h. length ((ch(hash k := es)) h) \<le> Suc n"
    using *(5) len by (auto intro: le_SucI order_trans [OF _ Suc_le_mono [THEN iffD2]])
  then have "store_ok (Suc n) (w', store)"
    using *(2,3) by (auto simp: store_ok_def store_inv_def chain_bound_repr [OF *(3)])
  moreover have "store_map w' store = (store_map w store)(k \<mapsto> v)"
    using store_map_upd [OF ok repr *(2,3)] *(4) by simp
  ultimately show ?thesis using *(1) by blast
qed

lemma kvstore_del_spec:
  assumes "store_ok n (w, store)" and "length k \<le> MAX_KEYLEN"
  shows "\<exists>w'. kvstore_del w store k = Some (if store_map w store k = None then ERRNOKEY else 0, w')
    \<and> store_ok n (w', store) \<and> store_map w' store = (store_map w store)(k := None)"
proof -
  from assms(1) obtain ch where ok: "os_ok w" and repr: "store_repr w store ch" and len: "\<forall>h. length (ch h) \<le> n"
    by (auto simp: store_ok_def store_inv_def chain_bound_repr)
  from ok repr assms(2) obtain w' es where *: "kvstore_del w store k = Some (if store_map w store k = None then ERRNOKEY else 0, w')"
    "os_ok w'" "store_repr w' store (ch(hash k := es))" "map_of es = (map_of (ch (hash k)))(k := None)"
    "length es \<le> length (ch (hash k))"
    by (rule kvstore_del_repr)
  have "\<forall>h. length ((ch(hash k := es)) h) \<le> n" using *(5) len by (auto intro: order_trans)
  then have "store_ok n (w', store)"
    using *(2,3) by (auto simp: store_ok_def store_inv_def chain_bound_repr [OF *(3)])
  moreover have "store_map w' store = (store_map w store)(k := None)"
    using store_map_upd [OF ok repr *(2,3)] *(4) by simp
  ultimately show ?thesis using *(1) by blast
qed

subsection \<open>The store as a key-value service\<close>

definition store_get :: "posix \<times> kvstore_t \<Rightarrow> string \<Rightarrow> (int \<times> string option \<times> posix \<times> kvstore_t) c_res" where
  "store_get s k = do { (r, v) \<leftarrow> kvstore_get (fst s) (snd s) k; Some (r, v, s) }"

definition store_put :: "posix \<times> kvstore_t \<Rightarrow> string \<Rightarrow> string \<Rightarrow> (int \<times> posix \<times> kvstore_t) c_res" where
  "store_put s k v = do { (r, w') \<leftarrow> kvstore_put (fst s) (snd s) k v; Some (r, w', snd s) }"

definition store_del :: "posix \<times> kvstore_t \<Rightarrow> string \<Rightarrow> (int \<times> posix \<times> kvstore_t) c_res" where
  "store_del s k = do { (r, w') \<leftarrow> kvstore_del (fst s) (snd s) k; Some (r, w', snd s) }"

definition store_abs :: "posix \<times> kvstore_t \<Rightarrow> string \<Rightarrow> string option" where
  "store_abs s = store_map (fst s) (snd s)"

interpretation kvs: kv_service store_ok store_abs 2147483647 store_get store_put store_del
proof unfold_locales
  fix n s k v
  assume ok: "store_ok n s" and k: "valid_key k"
  obtain w store where s: "s = (w, store)" by force
  have len: "length k \<le> MAX_KEYLEN" using k by (simp add: valid_key_def)
  show "\<exists>s'. store_get s k = Some (case store_abs s k of None \<Rightarrow> (ERRNOKEY, None, s') | Some v \<Rightarrow> (0, Some v, s'))
      \<and> store_ok n s' \<and> store_abs s' = store_abs s"
    using kvstore_get_spec [of w store k] ok len
    by (auto simp: s store_get_def store_abs_def store_ok_def split: option.split)
  show "\<exists>s'. store_del s k = Some (if store_abs s k = None then ERRNOKEY else 0, s') \<and> store_ok n s'
      \<and> store_abs s' = (store_abs s)(k := None)"
    using kvstore_del_spec [of n w store k] ok len by (auto simp: s store_del_def store_abs_def)
  assume "valid_val v" and "n < 2147483647"
  then show "\<exists>s'. store_put s k v = Some (0, s') \<and> store_ok (Suc n) s' \<and> store_abs s' = (store_abs s)(k \<mapsto> v)"
    using kvstore_put_spec [of n w store k v] ok k by (auto simp: s store_put_def store_abs_def)
qed

subsection \<open>Start-up, errors and clean-up\<close>

lemma store_ok_fresh:
  assumes "os_ok w" and "dirname_fits (store_dirname store)" and "store_dirname store \<in> set (p_dirs w)"
    and "\<forall>h c. \<not> stat_ok w (entry_name (store_dirname store) h c)"
  shows "store_ok 0 (w, store)" and "store_map w store = Map.empty"
proof -
  have repr: "store_repr w store (\<lambda>_. [])"
    using assms by (auto simp: store_repr_def chain_repr_def stat_ok_def)
  show "store_ok 0 (w, store)"
    using assms(1) repr by (auto simp: store_ok_def store_inv_def chain_bound_repr [OF repr])
  show "store_map w store = Map.empty" by (simp add: store_map_eq [OF assms(1) repr] fun_eq_iff)
qed

lemma entry_name_not_dir [simp]: "entry_name d h c \<noteq> d"
  by (simp add: entry_name_def)

lemma stat_ok_make_dir [simp]: "stat_ok (make_dir w d) p \<longleftrightarrow> p = d \<or> stat_ok w p"
  by (auto simp: stat_ok_def)

lemma dirname_fits_less: "dirname_fits d \<Longrightarrow> length d < MAX_FILENAME"
  by (simp add: dirname_fits_def)

lemma kvstore_init_fresh:
  assumes "os_ok w" and "dirname_fits d" and "\<not> stat_ok w d" and "\<forall>h c. \<not> stat_ok w (entry_name d h c)"
  shows "\<exists>w' store'. kvstore_init w store d = Some (0, w', store') \<and> store_ok 0 (w', store')
    \<and> store_map w' store' = Map.empty \<and> store_dirname store' = d"
  using assms store_ok_fresh [of "make_dir w d" "store\<lparr>store_dirname := d\<rparr>"] dirname_fits_less
  by (simp add: kvstore_init_def os_ok_def [of w])

text \<open>A store object only holds the name of its directory.\<close>

lemma store_map_cong:
  assumes "store_dirname s1 = store_dirname s2"
  shows "store_map w s1 = store_map w s2" and "store_ok n (w, s1) \<longleftrightarrow> store_ok n (w, s2)"
proof -
  obtain d where "s1 = \<lparr>store_dirname = d\<rparr>" "s2 = \<lparr>store_dirname = d\<rparr>"
    using assms by (cases s1; cases s2) auto
  then show "store_map w s1 = store_map w s2" "store_ok n (w, s1) \<longleftrightarrow> store_ok n (w, s2)" by simp_all
qed

lemma kvstore_init_existing:
  assumes "store_ok n (w, store)"
  shows "\<exists>store'. kvstore_init w raw (store_dirname store) = Some (0, w, store') \<and> store_ok n (w, store')
    \<and> store_map w store' = store_map w store"
proof -
  have "stat_ok w (store_dirname store)" "dirname_fits (store_dirname store)"
    using assms store_reprD(1,3) by (auto simp: store_ok_def store_inv_def)
  then have "kvstore_init w raw (store_dirname store) = Some (0, w, raw\<lparr>store_dirname := store_dirname store\<rparr>)"
    using dirname_fits_less by (simp add: kvstore_init_def)
  then show ?thesis
    using assms store_map_cong [of "raw\<lparr>store_dirname := store_dirname store\<rparr>" store] by simp
qed

lemma below_iff: "below d p \<longleftrightarrow> (\<exists>n. p = d @ ''/'' @ n)"
  by (auto simp: below_def) (metis append_take_drop_id append.assoc append_Cons append_Nil)

lemma dir_entries_iff:
  "n \<in> set (dir_entries w d) \<longleftrightarrow>
     CHR ''/'' \<notin> set n \<and> (fcontent w (d @ ''/'' @ n) \<noteq> None \<or> d @ ''/'' @ n \<in> set (p_dirs w))"
proof -
  have "n \<in> drop (Suc (length d)) ` {p \<in> P. below d p} \<longleftrightarrow> d @ ''/'' @ n \<in> P" for P
    by (auto simp: below_iff intro: rev_image_eqI)
  from this [of "set (map fst (p_files w) @ p_dirs w)"] show ?thesis
    by (auto simp: dir_entries_def map_of_eq_None_iff)
qed

text \<open>A directory with files only, whose names fit the buffers of \<open>kvstore_clean\<close>.\<close>

definition flat_dir :: "posix \<Rightarrow> string \<Rightarrow> bool" where
  "flat_dir w d \<longleftrightarrow> fcontent w d = None \<and> (\<forall>p \<in> set (p_dirs w). \<not> below d p)
     \<and> (\<forall>n. fcontent w (d @ ''/'' @ n) \<noteq> None \<longrightarrow> CHR ''/'' \<notin> set n \<and> length d + 1 + length n < MAX_FILENAME)"

lemma remove_dents_spec:
  assumes "os_ok w" and "\<forall>n \<in> set ns. length d + 1 + length n < MAX_FILENAME \<and> d @ ''/'' @ n \<notin> set (p_dirs w)"
  shows "\<exists>w'. remove_dents w d ns = Some w' \<and> os_ok w' \<and> p_dirs w' = p_dirs w
    \<and> (\<forall>p. fcontent w' p = (if \<exists>n \<in> set ns. p = d @ ''/'' @ n then None else fcontent w p))"
  using assms
proof (induction ns arbitrary: w)
  case (Cons n ns)
  let ?p = "d @ ''/'' @ n"
  define w1 where "w1 = (case posix_remove w ?p of Inl _ \<Rightarrow> w | Inr w' \<Rightarrow> w')"
  have "remove_errno w ?p = None" using Cons.prems(1) by (simp add: os_ok_def)
  then have w1: "os_ok w1" "p_dirs w1 = p_dirs w" "fcontent w1 = (fcontent w)(?p := None)"
    using Cons.prems by (auto simp: w1_def posix_remove_def fun_upd_idem)
  have "remove_dents w d (n # ns) = remove_dents w1 d ns"
    using Cons.prems(2) by (simp add: w1_def Let_def)
  with Cons.IH [OF w1(1)] Cons.prems(2) w1(2,3) show ?case by auto
qed simp

lemma kvstore_clean_spec:
  assumes ok: "os_ok w" and dir: "store_dirname store \<in> set (p_dirs w)" and flat: "flat_dir w (store_dirname store)"
  shows "\<exists>w'. kvstore_clean w store = Some (0, w') \<and> set (p_dirs w') = set (p_dirs w) - {store_dirname store}
    \<and> (\<forall>p. fcontent w' p = (if below (store_dirname store) p then None else fcontent w p))"
proof -
  let ?d = "store_dirname store" and ?ns = "dir_entries w (store_dirname store)"
  have files: "fcontent w (?d @ ''/'' @ n) \<noteq> None \<longleftrightarrow> n \<in> set ?ns" for n
    using flat by (auto simp: dir_entries_iff flat_dir_def below_iff)
  then have "\<forall>n \<in> set ?ns. length ?d + 1 + length n < MAX_FILENAME \<and> ?d @ ''/'' @ n \<notin> set (p_dirs w)"
    using flat by (metis below_iff flat_dir_def)
  from remove_dents_spec [OF ok this] obtain w1 where w1: "remove_dents w ?d ?ns = Some w1" "os_ok w1"
    "p_dirs w1 = p_dirs w" "\<forall>p. fcontent w1 p = (if \<exists>n \<in> set ?ns. p = ?d @ ''/'' @ n then None else fcontent w p)"
    by blast
  have f1: "fcontent w1 p = (if below ?d p then None else fcontent w p)" for p
  proof (cases "below ?d p")
    case True
    then obtain n where "p = ?d @ ''/'' @ n" by (auto simp: below_iff)
    with True show ?thesis using w1(4) files [of n] by (cases "n \<in> set ?ns") auto
  next
    case False
    then show ?thesis using w1(4) by (auto simp: below_iff)
  qed
  then have "\<forall>p \<in> fst ` set (p_files w1). \<not> below ?d p" by (metis map_of_eq_None_iff)
  then have "filter (below ?d) (map fst (p_files w1) @ p_dirs w1) = []"
    using flat w1(3) by (auto simp: filter_empty_conv flat_dir_def)
  moreover have "fcontent w1 ?d = None" using f1 [of ?d] flat by (simp add: flat_dir_def)
  ultimately have "posix_remove w1 ?d = Inr (w1\<lparr>p_dirs := removeAll ?d (p_dirs w1)\<rparr>)"
    using w1(2,3) dir by (simp add: posix_remove_def os_ok_def)
  then show ?thesis using dir w1(1,3) f1 by (auto simp: kvstore_clean_def)
qed

lemma kvstore_put_error:
  "kvstore_put w store k v = Some (r, w') \<Longrightarrow> r \<noteq> 0 \<Longrightarrow> w' = w"
  by (auto simp: kvstore_put_def Let_def bind_eq_Some_conv split: if_split_asm)

lemma kvstore_del_error:
  "kvstore_del w store k = Some (r, w') \<Longrightarrow> r \<noteq> 0 \<Longrightarrow> w' = w"
  by (auto simp: kvstore_del_def split: Option.bind_split_asm if_split_asm sum.split_asm)

subsection \<open>Properties\<close>

lemma run_op_dirname:
  "run_op store_get store_put store_del s x = Some (r, s') \<Longrightarrow> snd s' = snd s"
  by (cases x) (auto simp: store_get_def store_put_def store_del_def bind_eq_Some_conv)

lemma run_ops_dirname:
  "run_ops store_get store_put store_del s xs = Some (rs, s') \<Longrightarrow> snd s' = snd s"
  by (induction xs arbitrary: s rs s') (fastforce simp: bind_eq_Some_conv dest: run_op_dirname)+

lemma store_ok_gapless:
  assumes "store_ok n (w, store)" and "c' < c" and "stat_ok w (entry_name (store_dirname store) h c)"
  shows "stat_ok w (entry_name (store_dirname store) h c')"
proof -
  from assms(1) obtain ch where repr: "store_repr w store ch" by (auto simp: store_ok_def store_inv_def)
  note cr = store_reprD(5) [OF repr, of h]
  have "c < length (ch h)"
    using assms(3) chain_reprD(3) [OF cr, of c] store_reprD(4) [OF repr]
    by (cases "c < length (ch h)") (auto simp: stat_ok_def)
  then show ?thesis using chain_reprD(2) [OF cr, of c'] assms(2) by (simp add: stat_ok_def)
qed

text \<open>Two stores used by the witnesses: an empty one, and one that holds one entry.\<close>

definition store_d :: kvstore_t where "store_d = \<lparr>store_dirname = ''d''\<rparr>"

definition world_0 :: posix where "world_0 = healthy_os [] [''d'']"

definition world_1 :: posix where
  "world_1 = healthy_os [(entry_name ''d'' (hash ''a'') 0, entry_file (''a'', ''1''))] [''d'']"

lemma store_ok_world_0: "store_ok 0 (world_0, store_d)" "store_map world_0 store_d = Map.empty"
  using store_ok_fresh [of world_0 store_d]
  by (auto simp: world_0_def store_d_def healthy_os_def os_ok_def stat_ok_def dirname_fits_def c_const entry_name_def)

text \<open>C3. Every sequence of valid get, put and del requests on the store is answered exactly as
  by a map, and the files then represent the map's final state; the store never runs into
  undefined behaviour. The bound says that no chain can reach the largest \<open>int\<close>.\<close>

theorem kvstore_ops_refine_map:
  assumes "store_ok n (w, store)" and "list_all op_valid ops" and "n + puts ops \<le> 2147483647"
  shows "\<exists>s'. run_ops store_get store_put store_del (w, store) ops = Some (fst (map_ops (store_map w store) ops), s')
    \<and> store_ok (n + puts ops) s' \<and> store_abs s' = snd (map_ops (store_map w store) ops)"
  using kvs.run_ops_refine [OF assms] by (simp add: store_abs_def)

theorem kvstore_ops_refine_map_witness:
  "\<exists>s'. run_ops store_get store_put store_del (world_0, store_d)
      [Put ''a'' ''1'', Put ''b'' ''2'', Get ''a'', Del ''a'', Get ''a'', Del ''c''] =
      Some ([(0, None), (0, None), (0, Some ''1''), (0, None), (ERRNOKEY, None), (ERRNOKEY, None)], s')
    \<and> store_ok 2 s' \<and> store_abs s' = [''b'' \<mapsto> ''2'']"
  using kvstore_ops_refine_map [OF store_ok_world_0(1), of "[Put ''a'' ''1'', Put ''b'' ''2'', Get ''a'', Del ''a'', Get ''a'', Del ''c'']"]
  by (simp add: store_ok_world_0 valid_key_def valid_val_def is_cstr_def c_const numeral_2_eq_2 fun_upd_twist)

text \<open>C10. Durability: start on a directory that does not exist yet, answer any sequence of valid
  requests, and initialise a new store object on the directory that is left (as after a
  restart): the new object represents the map the requests had built.\<close>

theorem kvstore_durable:
  assumes "os_ok w" and "dirname_fits d" and "\<not> stat_ok w d" and "\<forall>h c. \<not> stat_ok w (entry_name d h c)"
    and "list_all op_valid ops" and "puts ops \<le> 2147483647"
  shows "\<exists>w1 s1 rs w2 s2 s3. kvstore_init w raw d = Some (0, w1, s1)
    \<and> run_ops store_get store_put store_del (w1, s1) ops = Some (rs, w2, s2)
    \<and> kvstore_init w2 raw' d = Some (0, w2, s3) \<and> store_map w2 s3 = snd (map_ops Map.empty ops)"
proof -
  from kvstore_init_fresh [OF assms(1-4)] obtain w1 s1 where init: "kvstore_init w raw d = Some (0, w1, s1)"
    "store_ok 0 (w1, s1)" "store_map w1 s1 = Map.empty" "store_dirname s1 = d" by blast
  from kvs.run_ops_refine [OF init(2) assms(5)] assms(6) init(3) obtain rs w2 s2 where
    run: "run_ops store_get store_put store_del (w1, s1) ops = Some (rs, w2, s2)"
      "store_ok (puts ops) (w2, s2)" "store_map w2 s2 = snd (map_ops Map.empty ops)"
    by (auto simp: store_abs_def)
  have "store_dirname s2 = d" using run_ops_dirname [OF run(1)] init(4) by simp
  with kvstore_init_existing [OF run(2), of raw'] init(1) run show ?thesis by auto
qed

theorem kvstore_durable_witness:
  "\<exists>w1 s1 rs w2 s2 s3. kvstore_init (healthy_os [] []) store_d ''d'' = Some (0, w1, s1)
    \<and> run_ops store_get store_put store_del (w1, s1) [Put ''a'' ''1'', Put ''a'' ''2''] = Some (rs, w2, s2)
    \<and> kvstore_init w2 store_d ''d'' = Some (0, w2, s3) \<and> store_map w2 s3 = [''a'' \<mapsto> ''2'']"
  using kvstore_durable [of "healthy_os [] []" "''d''" "[Put ''a'' ''1'', Put ''a'' ''2'']" store_d store_d]
  by (simp add: healthy_os_def os_ok_def stat_ok_def dirname_fits_def valid_key_def valid_val_def is_cstr_def c_const)

text \<open>C21. Chains stay gap-free: after any sequence of valid requests, an entry file at position
  \<open>c\<close> of a chain exists only if all smaller positions exist. A deletion in the middle
  moves the last entry of the chain into the hole.\<close>

theorem kvstore_chains_gapless:
  assumes "store_ok n (w, store)" and "list_all op_valid ops" and "n + puts ops \<le> 2147483647"
    and "run_ops store_get store_put store_del (w, store) ops = Some (rs, w', store')"
    and "stat_ok w' (entry_name (store_dirname store') h c)" and "c' < c"
  shows "stat_ok w' (entry_name (store_dirname store') h c')"
proof -
  have "store_ok (n + puts ops) (w', store')"
    using kvs.run_ops_refine [OF assms(1-3)] assms(4) by auto
  then show ?thesis using assms(5,6) by (blast intro: store_ok_gapless)
qed

text \<open>The keys of the instance collide: \<open>ab\<close> and \<open>bA\<close> have the same hash.\<close>

theorem kvstore_chains_gapless_witness:
  "\<exists>rs w' store'. run_ops store_get store_put store_del (world_0, store_d)
      [Put ''ab'' ''1'', Put ''bA'' ''2''] = Some (rs, w', store')
    \<and> stat_ok w' (entry_name (store_dirname store') (hash ''ab'') 1)
    \<and> stat_ok w' (entry_name (store_dirname store') (hash ''ab'') 0)"
proof -
  let ?ops = "[Put ''ab'' ''1'', Put ''bA'' ''2'']"
  let ?r = "run_ops store_get store_put store_del (world_0, store_d) ?ops"
  have "case ?r of None \<Rightarrow> False | Some (rs, w', store') \<Rightarrow> stat_ok w' (entry_name (store_dirname store') (hash ''ab'') 1)"
    by code_simp
  then obtain rs w' store' where r: "?r = Some (rs, w', store')" "stat_ok w' (entry_name (store_dirname store') (hash ''ab'') 1)"
    by (auto split: option.splits)
  moreover have "list_all op_valid ?ops" by (simp add: valid_key_def valid_val_def is_cstr_def c_const)
  ultimately show ?thesis
    using kvstore_chains_gapless [OF store_ok_world_0(1) _ _ r, of 0] by simp
qed

text \<open>Whatever the operating system refuses, a request that returns an error code leaves
  every file and directory as it was.\<close>

lemma kvstore_error_unchanged:
  "(kvstore_put w store k v = Some (r, w') \<longrightarrow> r \<noteq> 0 \<longrightarrow> w' = w)
   \<and> (kvstore_del w store k = Some (r, w') \<longrightarrow> r \<noteq> 0 \<longrightarrow> w' = w)"
  using kvstore_put_error kvstore_del_error by blast

text \<open>\<open>kvstore_clean\<close> removes every file of the store directory and the directory itself,
  and nothing else.\<close>

lemma kvstore_clean_removes:
  assumes "os_ok w" and "store_dirname store \<in> set (p_dirs w)" and "flat_dir w (store_dirname store)"
  shows "\<exists>w'. kvstore_clean w store = Some (0, w') \<and> set (p_dirs w') = set (p_dirs w) - {store_dirname store}
    \<and> (\<forall>p. fcontent w' p = (if below (store_dirname store) p then None else fcontent w p))"
  using assms by (rule kvstore_clean_spec)


end
