(* ===== verification/KvCache.thy ===== *)
theory KvCache
  imports KvCacheSet KvStore
begin

text \<open>
  The set-associative cache, \<^verbatim>\<open>kvcache.c\<close>: an array of cache sets, a key belongs to the
  set given by the low 32 bits of its hash modulo the number of sets. An index outside the
  array and a division by zero are \<open>None\<close>. The lemmas lift the laws of one set to the
  cache and establish the contract \<open>kv_cache\<close> that the server relies on.
\<close>

subsection \<open>The contract of a cache\<close>

text \<open>The answer of a cache is the answer of the map it caches, or a miss.\<close>

definition hit_or_miss :: "int \<times> string option \<Rightarrow> int \<times> string option \<Rightarrow> bool" where
  "hit_or_miss r m \<longleftrightarrow> r = m \<or> r = (ERRNOKEY, None)"

text \<open>A cache may forget an entry at any time, never invents one, and returns what was put
  last.\<close>

locale kv_cache =
  fixes c_inv :: "'c \<Rightarrow> bool"
    and c_map :: "'c \<Rightarrow> string \<Rightarrow> string option"
    and c_get :: "'c \<Rightarrow> string \<Rightarrow> (int \<times> string option \<times> 'c) c_res"
    and c_put :: "'c \<Rightarrow> string \<Rightarrow> string \<Rightarrow> (int \<times> 'c) c_res"
    and c_del :: "'c \<Rightarrow> string \<Rightarrow> (int \<times> 'c) c_res"
  assumes c_get_law: "c_inv c \<Longrightarrow> length k \<le> MAX_KEYLEN \<Longrightarrow>
      \<exists>c'. c_get c k = Some (case c_map c k of None \<Rightarrow> (ERRNOKEY, None, c') | Some v \<Rightarrow> (0, Some v, c'))
        \<and> c_inv c' \<and> c_map c' = c_map c"
    and c_put_law: "c_inv c \<Longrightarrow> length k \<le> MAX_KEYLEN \<Longrightarrow> length v \<le> MAX_VALLEN \<Longrightarrow>
      \<exists>c'. c_put c k v = Some (0, c') \<and> c_inv c' \<and> c_map c' k = Some v \<and> c_map c' \<subseteq>\<^sub>m (c_map c)(k \<mapsto> v)"
    and c_del_law: "c_inv c \<Longrightarrow> length k \<le> MAX_KEYLEN \<Longrightarrow>
      \<exists>c'. c_del c k = Some (if c_map c k = None then ERRNOKEY else 0, c') \<and> c_inv c'
        \<and> c_map c' = (c_map c)(k := None)"
begin

text \<open>\<open>coherent c m\<close>: what the cache holds agrees with the map \<open>m\<close> it caches.\<close>

definition coherent :: "'c \<Rightarrow> (string \<Rightarrow> string option) \<Rightarrow> bool" where
  "coherent c m \<longleftrightarrow> c_inv c \<and> c_map c \<subseteq>\<^sub>m m"

lemma coherent_get:
  assumes "coherent c m" and "length k \<le> MAX_KEYLEN"
  obtains (hit) v c' where "c_get c k = Some (0, Some v, c')" "m k = Some v" "coherent c' m"
  | (miss) c' where "c_get c k = Some (ERRNOKEY, None, c')" "coherent c' m"
proof -
  from assms obtain c' where c': "c_get c k = Some (case c_map c k of None \<Rightarrow> (ERRNOKEY, None, c') | Some v \<Rightarrow> (0, Some v, c'))"
    "c_inv c'" "c_map c' = c_map c"
    using c_get_law unfolding coherent_def by blast
  then have "coherent c' m" using assms(1) by (simp add: coherent_def)
  moreover have "m k = Some v" if "c_map c k = Some v" for v
    using assms(1) that by (metis coherent_def domI map_le_def)
  ultimately show thesis using c'(1) hit miss by (cases "c_map c k") auto
qed

lemma coherent_put:
  assumes "coherent c m" and "length k \<le> MAX_KEYLEN" and "length v \<le> MAX_VALLEN"
  shows "\<exists>c'. c_put c k v = Some (0, c') \<and> coherent c' (m(k \<mapsto> v))"
proof -
  obtain c' where "c_put c k v = Some (0, c')" "c_inv c'" "c_map c' \<subseteq>\<^sub>m (c_map c)(k \<mapsto> v)"
    using assms c_put_law unfolding coherent_def by blast
  moreover have "(c_map c)(k \<mapsto> v) \<subseteq>\<^sub>m m(k \<mapsto> v)" using assms(1) by (simp add: coherent_def map_le_upd)
  ultimately show ?thesis unfolding coherent_def by (meson map_le_trans)
qed

text \<open>Filling the cache with what the store holds.\<close>

lemma coherent_fill:
  assumes "coherent c m" and "length k \<le> MAX_KEYLEN" and "length v \<le> MAX_VALLEN" and "m k = Some v"
  shows "\<exists>c'. c_put c k v = Some (0, c') \<and> coherent c' m"
  using coherent_put [OF assms(1-3)] assms(4) by (simp add: map_upd_triv)

lemma coherent_del:
  assumes "coherent c m" and "length k \<le> MAX_KEYLEN"
  shows "\<exists>c' r. c_del c k = Some (r, c') \<and> coherent c' (m(k := None))"
proof -
  obtain c' r where "c_del c k = Some (r, c')" "c_inv c'" "c_map c' = (c_map c)(k := None)"
    using assms c_del_law unfolding coherent_def by blast
  moreover have "(c_map c)(k := None) \<subseteq>\<^sub>m m(k := None)"
    using assms(1) by (auto simp: coherent_def map_le_def)
  ultimately show ?thesis unfolding coherent_def by auto
qed

lemma run_op_coherent:
  assumes "coherent c m" and "op_valid x"
  shows "\<exists>r c'. run_op c_get c_put c_del c x = Some (r, c') \<and> coherent c' (snd (map_op m x))
    \<and> hit_or_miss r (fst (map_op m x))"
proof (cases x)
  case (Get k)
  then have "length k \<le> MAX_KEYLEN" using assms(2) by (simp add: valid_key_def)
  with assms(1) show ?thesis
    by (cases rule: coherent_get [of c m k]) (use Get in \<open>auto simp: hit_or_miss_def\<close>)
next
  case (Put k v)
  then show ?thesis
    using coherent_put [OF assms(1), of k v] assms(2) by (auto simp: valid_key_def valid_val_def hit_or_miss_def)
next
  case (Del k)
  then have len: "length k \<le> MAX_KEYLEN" using assms(2) by (simp add: valid_key_def)
  from coherent_del [OF assms(1) len] obtain c' r where c': "c_del c k = Some (r, c')" "coherent c' (m(k := None))"
    by blast
  moreover have "r = (if c_map c k = None then ERRNOKEY else 0)"
    using c_del_law [of c k] len assms(1) c'(1) by (auto simp: coherent_def)
  moreover have "m k \<noteq> None" if "c_map c k \<noteq> None"
    using assms(1) that by (metis coherent_def domIff map_le_def)
  ultimately show ?thesis using Del by (auto simp: hit_or_miss_def)
qed

theorem run_ops_coherent:
  assumes "coherent c m" and "list_all op_valid xs"
  shows "\<exists>rs c'. run_ops c_get c_put c_del c xs = Some (rs, c') \<and> coherent c' (snd (map_ops m xs))
    \<and> list_all2 hit_or_miss rs (fst (map_ops m xs))"
  using assms
proof (induction xs arbitrary: c m)
  case (Cons x xs)
  from run_op_coherent [OF Cons.prems(1), of x] Cons.prems(2) obtain r c' where
    "run_op c_get c_put c_del c x = Some (r, c')" "coherent c' (snd (map_op m x))" "hit_or_miss r (fst (map_op m x))"
    by auto
  with Cons.IH [of c' "snd (map_op m x)"] Cons.prems(2) show ?case by (auto simp: split_beta)
qed simp

end

subsection \<open>Model\<close>

record kvcache_t =
  num_sets :: u32
  cache_elem_per_set :: u32
  sets :: "kvcacheset_t list"

text \<open>\<open>sizeof (kvcacheset_t)\<close> on the target.\<close>

definition sizeof_kvcacheset_t :: nat where [c_const]: "sizeof_kvcacheset_t = 88"

fun init_sets :: "int \<Rightarrow> u32 \<Rightarrow> kvcacheset_t list \<Rightarrow> int \<times> kvcacheset_t list" where
  "init_sets lockret eps [] = (0, [])"
| "init_sets lockret eps (s # ss) =
     (let (r, s') = kvcacheset_init lockret s eps in
      if r \<noteq> 0 then (-1, s' # ss)
      else let (ret, ss') = init_sets lockret eps ss in (ret, s' # ss'))"

definition kvcache_init :: "(nat \<Rightarrow> bool) \<Rightarrow> int \<Rightarrow> kvcache_t \<Rightarrow> u32 \<Rightarrow> u32 \<Rightarrow> int \<times> kvcache_t" where
  "kvcache_init mok lockret cache nsets eps =
     (if nsets = 0 \<or> eps = 0 then (-1, cache)
      else if \<not> mok (unat nsets * sizeof_kvcacheset_t) then (ENOMEM, cache\<lparr>sets := []\<rparr>)
      else let (ret, ss) = init_sets lockret eps (replicate (unat nsets) raw_cacheset)
        in (ret, cache\<lparr>num_sets := nsets, cache_elem_per_set := eps, sets := ss\<rparr>))"

definition get_cache_set :: "kvcache_t \<Rightarrow> string \<Rightarrow> nat c_res" where
  "get_cache_set cache key =
     (if num_sets cache = 0 then None
      else let i = unat ((ucast (hash key) :: u32) mod num_sets cache)
        in if i < length (sets cache) then Some i else None)"

definition kvcache_get ::
    "(nat \<Rightarrow> bool) \<Rightarrow> kvcache_t \<Rightarrow> string \<Rightarrow> (int \<times> string option \<times> kvcache_t) c_res" where
  "kvcache_get mok cache key =
     (if length key > MAX_KEYLEN then Some (ERRKEYLEN, None, cache)
      else do {
        i \<leftarrow> get_cache_set cache key;
        (r, v, s) \<leftarrow> kvcacheset_get mok (sets cache ! i) key;
        Some (r, v, cache\<lparr>sets := (sets cache)[i := s]\<rparr>)
      })"

definition kvcache_put ::
    "(nat \<Rightarrow> bool) \<Rightarrow> kvcache_t \<Rightarrow> string \<Rightarrow> string \<Rightarrow> (int \<times> kvcache_t) c_res" where
  "kvcache_put mok cache key value =
     (if length key > MAX_KEYLEN then Some (ERRKEYLEN, cache)
      else if length value > MAX_VALLEN then Some (ERRVALLEN, cache)
      else do {
        i \<leftarrow> get_cache_set cache key;
        (r, s) \<leftarrow> kvcacheset_put mok (sets cache ! i) key value;
        Some (r, cache\<lparr>sets := (sets cache)[i := s]\<rparr>)
      })"

definition kvcache_del :: "kvcache_t \<Rightarrow> string \<Rightarrow> (int \<times> kvcache_t) c_res" where
  "kvcache_del cache key =
     (if length key > MAX_KEYLEN then Some (ERRKEYLEN, cache)
      else do {
        i \<leftarrow> get_cache_set cache key;
        (r, s) \<leftarrow> kvcacheset_del (sets cache ! i) key;
        Some (r, cache\<lparr>sets := (sets cache)[i := s]\<rparr>)
      })"

text \<open>The lock of a key is the lock of its set; \<open>Some None\<close> is the null pointer.\<close>

definition kvcache_getlock :: "kvcache_t \<Rightarrow> string \<Rightarrow> nat option c_res" where
  "kvcache_getlock cache key =
     (if length key > MAX_KEYLEN then Some None
      else do { i \<leftarrow> get_cache_set cache key; Some (Some i) })"

fun clear_sets :: "kvcacheset_t list \<Rightarrow> kvcacheset_t list c_res" where
  "clear_sets [] = Some []"
| "clear_sets (s # ss) = do {
     s' \<leftarrow> kvcacheset_clear s;
     ss' \<leftarrow> clear_sets ss;
     Some (s' # ss')
   }"

definition kvcache_clear :: "kvcache_t \<Rightarrow> kvcache_t c_res" where
  "kvcache_clear cache = do { ss \<leftarrow> clear_sets (sets cache); Some (cache\<lparr>sets := ss\<rparr>) }"

subsection \<open>Invariant and laws\<close>

definition cache_inv :: "kvcache_t \<Rightarrow> bool" where
  "cache_inv c \<longleftrightarrow> num_sets c \<noteq> 0 \<and> length (sets c) = unat (num_sets c)
     \<and> (\<forall>s \<in> set (sets c). cs_inv s \<and> elem_per_set s = cache_elem_per_set c)"

definition cache_map :: "kvcache_t \<Rightarrow> string \<Rightarrow> string option" where
  "cache_map c key = (if length key > MAX_KEYLEN then None
     else case get_cache_set c key of None \<Rightarrow> None | Some i \<Rightarrow> cs_map (sets c ! i) key)"

lemma get_cache_set_inv:
  assumes "cache_inv c"
  obtains i where "get_cache_set c key = Some i" "i < length (sets c)" "cs_inv (sets c ! i)"
    "elem_per_set (sets c ! i) = cache_elem_per_set c"
proof -
  let ?i = "unat ((ucast (hash key) :: u32) mod num_sets c)"
  have "?i < unat (num_sets c)"
    using assms by (simp add: cache_inv_def unat_mod unat_gt_0)
  then have "get_cache_set c key = Some ?i" "?i < length (sets c)"
    using assms by (auto simp: get_cache_set_def cache_inv_def Let_def)
  then show thesis using that assms by (auto simp: cache_inv_def)
qed

lemma get_cache_set_upd [simp]:
  "get_cache_set (c\<lparr>sets := (sets c)[i := s]\<rparr>) = get_cache_set c"
  by (simp add: get_cache_set_def fun_eq_iff)

lemma cache_inv_upd:
  assumes "cache_inv c" and "cs_inv s" and "elem_per_set s = cache_elem_per_set c"
  shows "cache_inv (c\<lparr>sets := (sets c)[i := s]\<rparr>)"
  using assms set_update_subset_insert [of "sets c" i s] by (auto simp: cache_inv_def)

lemma cache_map_upd:
  assumes "get_cache_set c key = Some i" and "i < length (sets c)"
  shows "cache_map (c\<lparr>sets := (sets c)[i := s]\<rparr>) k =
    (if length k \<le> MAX_KEYLEN \<and> get_cache_set c k = Some i then cs_map s k else cache_map c k)"
  using assms by (auto simp: cache_map_def nth_list_update split: option.split)

lemma cache_map_at:
  "get_cache_set c k = Some i \<Longrightarrow> length k \<le> MAX_KEYLEN \<Longrightarrow> cache_map c k = cs_map (sets c ! i) k"
  by (simp add: cache_map_def)

lemma kvcache_get_spec:
  assumes inv: "cache_inv c" and mok: "\<And>n. mok n" and len: "length k \<le> MAX_KEYLEN"
  shows "\<exists>c'. kvcache_get mok c k =
      Some (case cache_map c k of None \<Rightarrow> (ERRNOKEY, None, c') | Some v \<Rightarrow> (0, Some v, c'))
    \<and> cache_inv c' \<and> cache_map c' = cache_map c"
proof -
  obtain i where i: "get_cache_set c k = Some i" "i < length (sets c)" "cs_inv (sets c ! i)"
    "elem_per_set (sets c ! i) = cache_elem_per_set c"
    using get_cache_set_inv [OF inv] .
  obtain s where s: "kvcacheset_get mok (sets c ! i) k =
      Some (case cs_map (sets c ! i) k of None \<Rightarrow> (ERRNOKEY, None, s) | Some v \<Rightarrow> (0, Some v, s))"
    "cs_inv s" "cs_map s = cs_map (sets c ! i)" "elem_per_set s = elem_per_set (sets c ! i)"
    using cs_inv_get [where mok = mok, OF i(3) mok] by blast
  let ?c = "c\<lparr>sets := (sets c)[i := s]\<rparr>"
  have "cache_map ?c = cache_map c"
    using cache_map_upd [OF i(1,2), of s] s(3) by (auto simp: fun_eq_iff cache_map_at)
  moreover have "kvcache_get mok c k =
      Some (case cache_map c k of None \<Rightarrow> (ERRNOKEY, None, ?c) | Some v \<Rightarrow> (0, Some v, ?c))"
    using len i(1) s(1) by (auto simp: kvcache_get_def cache_map_at split: option.splits)
  ultimately show ?thesis using cache_inv_upd [OF inv s(2)] s(4) i(4) by auto
qed

lemma kvcache_put_spec:
  assumes inv: "cache_inv c" and mok: "\<And>n. mok n" and len: "length k \<le> MAX_KEYLEN" "length v \<le> MAX_VALLEN"
  shows "\<exists>c'. kvcache_put mok c k v = Some (0, c') \<and> cache_inv c' \<and> cache_map c' k = Some v
    \<and> cache_map c' \<subseteq>\<^sub>m (cache_map c)(k \<mapsto> v)"
proof -
  obtain i where i: "get_cache_set c k = Some i" "i < length (sets c)" "cs_inv (sets c ! i)"
    "elem_per_set (sets c ! i) = cache_elem_per_set c"
    using get_cache_set_inv [OF inv] .
  obtain s where s: "kvcacheset_put mok (sets c ! i) k v = Some (0, s)" "cs_inv s" "cs_map s k = Some v"
    "cs_map s \<subseteq>\<^sub>m (cs_map (sets c ! i))(k \<mapsto> v)" "elem_per_set s = elem_per_set (sets c ! i)"
    using cs_inv_put [where mok = mok, OF i(3) mok] by blast
  let ?c = "c\<lparr>sets := (sets c)[i := s]\<rparr>"
  note upd = cache_map_upd [OF i(1,2), of s]
  have "cache_map ?c k' = ((cache_map c)(k \<mapsto> v)) k'" if "k' \<in> dom (cache_map ?c)" for k'
    using that s(4) len i(1) unfolding map_le_def by (auto simp: upd cache_map_at split: if_splits)
  then have "cache_map ?c \<subseteq>\<^sub>m (cache_map c)(k \<mapsto> v)" by (simp add: map_le_def)
  moreover have "kvcache_put mok c k v = Some (0, ?c)" using len i(1) s(1) by (simp add: kvcache_put_def)
  moreover have "cache_map ?c k = Some v" using upd len i(1) s(3) by simp
  ultimately show ?thesis using cache_inv_upd [OF inv s(2)] s(5) i(4) by auto
qed

lemma kvcache_del_spec:
  assumes inv: "cache_inv c" and len: "length k \<le> MAX_KEYLEN"
  shows "\<exists>c'. kvcache_del c k = Some (if cache_map c k = None then ERRNOKEY else 0, c') \<and> cache_inv c'
    \<and> cache_map c' = (cache_map c)(k := None)"
proof -
  obtain i where i: "get_cache_set c k = Some i" "i < length (sets c)" "cs_inv (sets c ! i)"
    "elem_per_set (sets c ! i) = cache_elem_per_set c"
    using get_cache_set_inv [OF inv] .
  obtain s where s: "kvcacheset_del (sets c ! i) k = Some (if cs_map (sets c ! i) k = None then ERRNOKEY else 0, s)"
    "cs_inv s" "cs_map s = (cs_map (sets c ! i))(k := None)" "elem_per_set s = elem_per_set (sets c ! i)"
    using cs_inv_del [OF i(3)] by blast
  let ?c = "c\<lparr>sets := (sets c)[i := s]\<rparr>"
  have "cache_map ?c = (cache_map c)(k := None)"
    using cache_map_upd [OF i(1,2), of s] s(3) len i(1) by (auto simp: fun_eq_iff cache_map_at)
  moreover have "kvcache_del c k = Some (if cache_map c k = None then ERRNOKEY else 0, ?c)"
    using len i(1) s(1) by (simp add: kvcache_del_def cache_map_at)
  ultimately show ?thesis using cache_inv_upd [OF inv s(2)] s(4) i(4) by auto
qed

interpretation kvc: kv_cache cache_inv cache_map "kvcache_get (\<lambda>_. True)" "kvcache_put (\<lambda>_. True)" kvcache_del
proof unfold_locales
  show "cache_inv c \<Longrightarrow> length k \<le> MAX_KEYLEN \<Longrightarrow>
      \<exists>c'. kvcache_get (\<lambda>_. True) c k = Some (case cache_map c k of None \<Rightarrow> (ERRNOKEY, None, c') | Some v \<Rightarrow> (0, Some v, c'))
        \<and> cache_inv c' \<and> cache_map c' = cache_map c" for c k
    by (rule kvcache_get_spec) simp_all
  show "cache_inv c \<Longrightarrow> length k \<le> MAX_KEYLEN \<Longrightarrow> length v \<le> MAX_VALLEN \<Longrightarrow>
      \<exists>c'. kvcache_put (\<lambda>_. True) c k v = Some (0, c') \<and> cache_inv c' \<and> cache_map c' k = Some v
        \<and> cache_map c' \<subseteq>\<^sub>m (cache_map c)(k \<mapsto> v)" for c k v
    by (rule kvcache_put_spec) simp_all
  show "cache_inv c \<Longrightarrow> length k \<le> MAX_KEYLEN \<Longrightarrow>
      \<exists>c'. kvcache_del c k = Some (if cache_map c k = None then ERRNOKEY else 0, c') \<and> cache_inv c'
        \<and> cache_map c' = (cache_map c)(k := None)" for c k
    by (rule kvcache_del_spec)
qed

lemma init_sets_spec:
  assumes "2 \<le> eps" and "0 \<le> lockret"
  shows "\<exists>ss'. init_sets lockret eps ss = (0, ss') \<and> length ss' = length ss
    \<and> (\<forall>s \<in> set ss'. cs_inv s \<and> elem_per_set s = eps \<and> cs_map s = Map.empty)"
proof (induction ss)
  case (Cons s ss)
  obtain s' where "kvcacheset_init lockret s eps = (0, s')" "cs_inv s'" "cs_map s' = Map.empty" "elem_per_set s' = eps"
    using cs_inv_init [OF assms] by blast
  with Cons show ?case by auto
qed simp

lemma kvcache_init_spec:
  assumes "nsets \<noteq> 0" and "2 \<le> eps" and "0 \<le> lockret" and "\<And>n. mok n"
  shows "\<exists>c'. kvcache_init mok lockret c nsets eps = (0, c') \<and> cache_inv c' \<and> cache_map c' = Map.empty
    \<and> num_sets c' = nsets \<and> cache_elem_per_set c' = eps"
proof -
  obtain ss where ss: "init_sets lockret eps (replicate (unat nsets) raw_cacheset) = (0, ss)"
    "length ss = unat nsets" "\<forall>s \<in> set ss. cs_inv s \<and> elem_per_set s = eps \<and> cs_map s = Map.empty"
    using init_sets_spec [OF assms(2,3), of "replicate (unat nsets) raw_cacheset"] by auto
  let ?c = "c\<lparr>num_sets := nsets, cache_elem_per_set := eps, sets := ss\<rparr>"
  have "eps \<noteq> 0" using assms(2) by auto
  then have "kvcache_init mok lockret c nsets eps = (0, ?c)"
    using assms ss(1) by (simp add: kvcache_init_def)
  moreover have inv: "cache_inv ?c" using assms(1) ss by (simp add: cache_inv_def)
  moreover have "cache_map ?c k = None" for k
    by (rule get_cache_set_inv [OF inv, of k]) (use ss(3) in \<open>simp add: cache_map_def\<close>)
  ultimately show ?thesis by (auto simp: fun_eq_iff)
qed

text \<open>\<open>kvcache_init\<close> accepts one entry per set in its own check; the sets then refuse it.\<close>

lemma kvcache_init_one:
  assumes "nsets \<noteq> 0" and "\<And>n. mok n"
  shows "fst (kvcache_init mok lockret c nsets 1) = -1"
proof -
  obtain n where "unat nsets = Suc n" using assms(1) by (metis unat_eq_zero not0_implies_Suc)
  then show ?thesis using assms by (simp add: kvcache_init_def kvcacheset_init_def)
qed

lemma clear_sets_spec:
  assumes "\<forall>s \<in> set ss. cs_inv s"
  shows "\<exists>ss'. clear_sets ss = Some ss' \<and> length ss' = length ss
    \<and> (\<forall>i < length ss. cs_inv (ss' ! i) \<and> cs_map (ss' ! i) = Map.empty \<and> elem_per_set (ss' ! i) = elem_per_set (ss ! i))"
  using assms
proof (induction ss)
  case (Cons s ss)
  obtain s' where s': "kvcacheset_clear s = Some s'" "cs_inv s'" "cs_map s' = Map.empty" "elem_per_set s' = elem_per_set s"
    using cs_inv_clear [of s] Cons.prems by auto
  obtain ss' where ss': "clear_sets ss = Some ss'" "length ss' = length ss"
    "\<forall>i < length ss. cs_inv (ss' ! i) \<and> cs_map (ss' ! i) = Map.empty \<and> elem_per_set (ss' ! i) = elem_per_set (ss ! i)"
    using Cons by auto
  have "cs_inv ((s' # ss') ! i) \<and> cs_map ((s' # ss') ! i) = Map.empty
      \<and> elem_per_set ((s' # ss') ! i) = elem_per_set ((s # ss) ! i)" if "i < length (s # ss)" for i
    using that s' ss'(3) by (cases i) auto
  then show ?case using s'(1) ss'(1,2) by auto
qed simp

lemma kvcache_clear_spec:
  assumes "cache_inv c"
  shows "\<exists>c'. kvcache_clear c = Some c' \<and> cache_inv c' \<and> cache_map c' = Map.empty"
proof -
  have "\<forall>s \<in> set (sets c). cs_inv s" using assms by (simp add: cache_inv_def)
  from clear_sets_spec [OF this] obtain ss where ss: "clear_sets (sets c) = Some ss" "length ss = length (sets c)"
    "\<forall>i < length (sets c). cs_inv (ss ! i) \<and> cs_map (ss ! i) = Map.empty \<and> elem_per_set (ss ! i) = elem_per_set (sets c ! i)"
    by blast
  let ?c = "c\<lparr>sets := ss\<rparr>"
  have "\<forall>i < length (sets c). elem_per_set (sets c ! i) = cache_elem_per_set c"
    using assms by (simp add: cache_inv_def)
  then have inv: "cache_inv ?c"
    using assms ss(2,3) by (simp add: cache_inv_def all_set_conv_all_nth)
  moreover have "cache_map ?c k = None" for k
    by (rule get_cache_set_inv [OF inv, of k]) (use ss(2,3) in \<open>simp add: cache_map_def\<close>)
  ultimately show ?thesis using ss(1) by (auto simp: kvcache_clear_def fun_eq_iff)
qed

subsection \<open>Properties\<close>

lemma run_op_config:
  "run_op (kvcache_get mok) (kvcache_put mok') kvcache_del c x = Some (r, c') \<Longrightarrow>
    num_sets c' = num_sets c \<and> cache_elem_per_set c' = cache_elem_per_set c"
  by (cases x) (auto simp: kvcache_get_def kvcache_put_def kvcache_del_def bind_eq_Some_conv split: if_split_asm)

lemma run_ops_config:
  "run_ops (kvcache_get mok) (kvcache_put mok') kvcache_del c xs = Some (rs, c') \<Longrightarrow>
    num_sets c' = num_sets c \<and> cache_elem_per_set c' = cache_elem_per_set c"
  by (induction xs arbitrary: c rs) (fastforce simp: bind_eq_Some_conv dest: run_op_config)+

lemma cache_inv_card:
  assumes "cache_inv c" and "s \<in> set (sets c)"
  shows "finite (dom (cs_map s)) \<and> card (dom (cs_map s)) \<le> unat (cache_elem_per_set c)"
  using assms cs_map_card [of s] by (auto simp: cache_inv_def)

text \<open>C12. The cache never returns a stale or invented value: from an initialised cache, every
  sequence of valid requests runs to its end, and each answer is the answer of the map built
  by the puts and dels so far, or a miss.\<close>

theorem kvcache_never_stale:
  assumes "nsets \<noteq> 0" and "2 \<le> eps" and "0 \<le> lockret" and "list_all op_valid ops"
  shows "\<exists>c rs c'. kvcache_init (\<lambda>_. True) lockret raw nsets eps = (0, c)
    \<and> run_ops (kvcache_get (\<lambda>_. True)) (kvcache_put (\<lambda>_. True)) kvcache_del c ops = Some (rs, c')
    \<and> list_all2 hit_or_miss rs (fst (map_ops Map.empty ops)) \<and> cache_map c' \<subseteq>\<^sub>m snd (map_ops Map.empty ops)"
proof -
  from kvcache_init_spec [OF assms(1-3), of "\<lambda>_. True" raw] obtain c where
    c: "kvcache_init (\<lambda>_. True) lockret raw nsets eps = (0, c)" "cache_inv c" "cache_map c = Map.empty" by auto
  then have "kvc.coherent c Map.empty" by (simp add: kvc.coherent_def)
  from kvc.run_ops_coherent [OF this assms(4)] c(1) show ?thesis by (auto simp: kvc.coherent_def)
qed

theorem kvcache_never_stale_witness:
  "\<exists>c rs c'. kvcache_init (\<lambda>_. True) 0 \<lparr>num_sets = 0, cache_elem_per_set = 0, sets = []\<rparr> 4 4 = (0, c)
    \<and> run_ops (kvcache_get (\<lambda>_. True)) (kvcache_put (\<lambda>_. True)) kvcache_del c
        [Put ''a'' ''1'', Put ''a'' ''2'', Get ''a'', Del ''a'', Get ''a''] = Some (rs, c')
    \<and> list_all2 hit_or_miss rs [(0, None), (0, None), (0, Some ''2''), (0, None), (ERRNOKEY, None)]
    \<and> cache_map c' \<subseteq>\<^sub>m Map.empty"
  using kvcache_never_stale [of 4 4 0 "[Put ''a'' ''1'', Put ''a'' ''2'', Get ''a'', Del ''a'', Get ''a'']"
      "\<lparr>num_sets = 0, cache_elem_per_set = 0, sets = []\<rparr>"]
  by (simp add: valid_key_def valid_val_def is_cstr_def c_const)

text \<open>C20. The cache is bounded: after any sequence of valid requests on an initialised cache,
  every set holds at most \<open>elem_per_set\<close> keys and the number of sets is unchanged.\<close>

theorem kvcache_bounded:
  assumes "nsets \<noteq> 0" and "2 \<le> eps" and "list_all op_valid ops"
    and "kvcache_init (\<lambda>_. True) 0 raw nsets eps = (0, c)"
    and "run_ops (kvcache_get (\<lambda>_. True)) (kvcache_put (\<lambda>_. True)) kvcache_del c ops = Some (rs, c')"
  shows "length (sets c') = unat nsets
    \<and> (\<forall>s \<in> set (sets c'). finite (dom (cs_map s)) \<and> card (dom (cs_map s)) \<le> unat eps)"
proof -
  have c: "cache_inv c" "cache_map c = Map.empty" "num_sets c = nsets" "cache_elem_per_set c = eps"
    using kvcache_init_spec [OF assms(1,2), of 0 "\<lambda>_. True" raw] assms(4) by auto
  then have "kvc.coherent c Map.empty" by (simp add: kvc.coherent_def)
  from kvc.run_ops_coherent [OF this assms(3)] assms(5) have inv: "cache_inv c'" by (simp add: kvc.coherent_def)
  have "num_sets c' = nsets" "cache_elem_per_set c' = eps"
    using run_ops_config [OF assms(5)] c(3,4) by simp_all
  with inv cache_inv_card [OF inv] show ?thesis by (simp add: cache_inv_def)
qed

theorem kvcache_bounded_witness:
  "\<exists>c rs c'. kvcache_init (\<lambda>_. True) 0 \<lparr>num_sets = 0, cache_elem_per_set = 0, sets = []\<rparr> 1 2 = (0, c)
    \<and> run_ops (kvcache_get (\<lambda>_. True)) (kvcache_put (\<lambda>_. True)) kvcache_del c
        [Put ''a'' ''1'', Put ''b'' ''2'', Put ''c'' ''3''] = Some (rs, c')
    \<and> (\<forall>s \<in> set (sets c'). finite (dom (cs_map s)) \<and> card (dom (cs_map s)) \<le> 2)"
proof -
  let ?raw = "\<lparr>num_sets = 0, cache_elem_per_set = 0, sets = []\<rparr>" and ?ops = "[Put ''a'' ''1'', Put ''b'' ''2'', Put ''c'' ''3'']"
  from kvcache_init_spec [of 1 2 0 "\<lambda>_. True" ?raw] obtain c where
    c: "kvcache_init (\<lambda>_. True) 0 ?raw 1 2 = (0, c)" "cache_inv c" by auto
  then have "kvc.coherent c (cache_map c)" by (simp add: kvc.coherent_def)
  moreover have ops: "list_all op_valid ?ops" by (simp add: valid_key_def valid_val_def is_cstr_def c_const)
  ultimately obtain rs c' where
    r: "run_ops (kvcache_get (\<lambda>_. True)) (kvcache_put (\<lambda>_. True)) kvcache_del c ?ops = Some (rs, c')"
    using kvc.run_ops_coherent by blast
  show ?thesis using kvcache_bounded [OF _ _ ops c(1) r] c(1) r by auto
qed

end
