(* ===== verification/TpcLog.thy ===== *)
theory TpcLog
  imports KvStore
begin

text \<open>
  The log of two-phase-commit actions, \<^verbatim>\<open>tpclog.c\<close>: entry \<open>n\<close> is the file
  \<open>dirname/n.log\<close> with the memory image of a \<open>logentry_t\<close>. The theory models every
  function of the file and proves that the log is an append-only sequence: logging appends,
  initialising on an existing directory finds the end, iterating returns the entries in
  order, clearing empties it. The server keeps its log and its store in one directory; the
  last part shows that neither disturbs the other.

  The result of \<open>write\<close> and \<open>read\<close> is compared with an unsigned size in the code, so that
  \<open>-1\<close> counts as a very large number; the model does the same. A scan that would wrap the
  64-bit counter, and so never end, is \<open>None\<close>.
\<close>

subsection \<open>Model\<close>

definition TPCLOG_FILETYPE :: string where "TPCLOG_FILETYPE = ''.log''"

record tpclog_t =
  log_dirname :: string
  nextid :: u64
  iterpos :: u64

record logentry_t =
  le_type :: int
  le_length :: int
  le_data :: "char list"

definition sizeof_logentry_t :: nat where [c_const]: "sizeof_logentry_t = 8"

definition log_name :: "string \<Rightarrow> nat \<Rightarrow> string" where
  "log_name d n = d @ ''/'' @ dec n @ TPCLOG_FILETYPE"

definition log_path :: "string \<Rightarrow> nat \<Rightarrow> string c_res" where
  "log_path d n = (let p = log_name d n in if length p < MAX_FILENAME then Some p else None)"

text \<open>The search for the first unused id.\<close>

function log_scan :: "posix \<Rightarrow> string \<Rightarrow> nat \<Rightarrow> nat c_res" where
  "log_scan w d n =
     (if 18446744073709551616 \<le> n then None else do {
        filename \<leftarrow> log_path d n;
        if stat_ok w filename then log_scan w d (Suc n) else Some n
      })"
  by pat_completeness auto
termination
  by (relation "measure (\<lambda>(w, d, n). 18446744073709551616 - n)") auto

declare log_scan.simps [simp del]

definition tpclog_init :: "posix \<Rightarrow> tpclog_t \<Rightarrow> string \<Rightarrow> (int \<times> posix \<times> tpclog_t) c_res" where
  "tpclog_init w log dirname =
     (case (if stat_ok w dirname then Inr w
            else case mkdir_errno w dirname of Some e \<Rightarrow> Inl e | None \<Rightarrow> Inr (make_dir w dirname)) of
        Inl e \<Rightarrow> Some (e, w, log)
      | Inr w' \<Rightarrow> if \<not> malloc_ok w' (length dirname + 1) then Some (ENOMEM, w', log)
          else do {
            n \<leftarrow> log_scan w' dirname 0;
            Some (0, w', log\<lparr>log_dirname := dirname, nextid := of_nat n\<rparr>)
          })"

definition log_entry :: "msgtype_t \<Rightarrow> char list \<Rightarrow> logentry_t" where
  "log_entry t data = \<lparr>le_type = msgtype_int t, le_length = int (length data), le_data = data\<rparr>"

definition log_dump :: "logentry_t \<Rightarrow> char list" where
  "log_dump e = int_bytes (nat (le_type e)) @ int_bytes (nat (le_length e)) @ le_data e"

text \<open>The data of an entry: the key of a \<open>PUTREQ\<close> or \<open>DELREQ\<close>, then the value of a
  \<open>PUTREQ\<close>; \<open>strlen\<close> of a null pointer is undefined.\<close>

definition log_data :: "msgtype_t \<Rightarrow> string option \<Rightarrow> string option \<Rightarrow> char list c_res" where
  "log_data type key value = do {
     kpart \<leftarrow> (if type = PUTREQ \<or> type = DELREQ then do { k \<leftarrow> key; Some (k @ [NUL]) } else Some []);
     vpart \<leftarrow> (if type = PUTREQ then do { v \<leftarrow> value; Some (v @ [NUL]) } else Some []);
     Some (kpart @ vpart)
   }"

text \<open>\<open>write\<close> on a file opened without truncation replaces a prefix of its content.\<close>

definition overwrite :: "char list \<Rightarrow> char list \<Rightarrow> char list" where
  "overwrite bs old = bs @ drop (length bs) old"

definition tpclog_log ::
    "posix \<Rightarrow> tpclog_t \<Rightarrow> msgtype_t \<Rightarrow> string option \<Rightarrow> string option \<Rightarrow> (int \<times> posix \<times> tpclog_t) c_res" where
  "tpclog_log w log type key value =
     (if type \<noteq> PUTREQ \<and> type \<noteq> DELREQ \<and> type \<noteq> ABORT \<and> type \<noteq> COMMIT then Some (ERRINVLDMSG, w, log)
      else do {
        filename \<leftarrow> log_path (log_dirname log) (unat (nextid log));
        if \<not> open_ok w filename then Some (ERRFILACCESS, w, log)
        else do {
          let old = (case fcontent w filename of None \<Rightarrow> [] | Some bs \<Rightarrow> bs);
          let log' = log\<lparr>nextid := nextid log + 1\<rparr>;
          data \<leftarrow> log_data type key value;
          if \<not> malloc_ok w (sizeof_logentry_t + length data) then Some (ENOMEM, write_file w filename old, log')
          else do {
            let bs = log_dump (log_entry type data);
            case write_ret w filename of
              None \<Rightarrow> Some (0, write_file w filename (overwrite bs old), log')
            | Some r \<Rightarrow>
                Some (if nat (r mod 18446744073709551616) < length bs then ERRFILACCESS else 0,
                  write_file w filename (overwrite (take (nat r) bs) old), log')
          }
        }
      })"

definition tpclog_load_entry :: "posix \<Rightarrow> string \<Rightarrow> (int \<times> logentry_t option) c_res" where
  "tpclog_load_entry w filename =
     (case fcontent w filename of
        None \<Rightarrow> Some (ERRFILACCESS, None)
      | Some bs \<Rightarrow>
          if \<not> open_ok w filename then Some (ERRFILACCESS, None)
          else if read_fail w filename then None
          else if length bs < sizeof_logentry_t then Some (ERRFILACCESS, None)
          else do {
            t \<leftarrow> bytes_int bs;
            len \<leftarrow> bytes_int (drop 4 bs);
            let size = nat ((len + int sizeof_logentry_t) mod 18446744073709551616);
            if \<not> malloc_ok w size then Some (ENOMEM, None)
            else if length bs < size then Some (ERRFILACCESS, None)
            else if len < 0 then None
            else Some (0, Some \<lparr>le_type = t, le_length = len, le_data = take (nat len) (drop sizeof_logentry_t bs)\<rparr>)
          })"

definition tpclog_iterate_begin :: "tpclog_t \<Rightarrow> tpclog_t" where
  "tpclog_iterate_begin log = log\<lparr>iterpos := 0\<rparr>"

definition tpclog_iterate_has_next :: "posix \<Rightarrow> tpclog_t \<Rightarrow> bool c_res" where
  "tpclog_iterate_has_next w log = do {
     filename \<leftarrow> log_path (log_dirname log) (unat (iterpos log));
     Some (stat_ok w filename)
   }"

definition tpclog_iterate_next :: "posix \<Rightarrow> tpclog_t \<Rightarrow> (logentry_t option \<times> tpclog_t) c_res" where
  "tpclog_iterate_next w log = do {
     more \<leftarrow> tpclog_iterate_has_next w log;
     if \<not> more then Some (None, log)
     else do {
       filename \<leftarrow> log_path (log_dirname log) (unat (iterpos log));
       let log' = log\<lparr>iterpos := iterpos log + 1\<rparr>;
       (ret, entry) \<leftarrow> tpclog_load_entry w filename;
       Some (if ret < 0 then None else entry, log')
     }
   }"

text \<open>The removal loop of \<open>tpclog_clear_log\<close>.\<close>

function clear_files :: "posix \<Rightarrow> string \<Rightarrow> nat \<Rightarrow> (int \<times> posix) c_res" where
  "clear_files w d n =
     (if 18446744073709551616 \<le> n then None else do {
        filename \<leftarrow> log_path d n;
        if stat_ok w filename then
          (case posix_remove w filename of
             Inl e \<Rightarrow> Some (e, w)
           | Inr w' \<Rightarrow> clear_files w' d (Suc n))
        else Some (0, w)
      })"
  by pat_completeness auto
termination
  by (relation "measure (\<lambda>(w, d, n). 18446744073709551616 - n)") auto

declare clear_files.simps [simp del]

definition tpclog_clear_log :: "posix \<Rightarrow> tpclog_t \<Rightarrow> (int \<times> posix \<times> tpclog_t) c_res" where
  "tpclog_clear_log w log = do {
     (r, w') \<leftarrow> clear_files w (log_dirname log) 0;
     Some (r, w', if r = 0 then log\<lparr>nextid := 0\<rparr> else log)
   }"

subsection \<open>Entry files\<close>

lemma log_name_inj [simp, fname_inj]: "log_name d m = log_name d n \<longleftrightarrow> m = n"
  by (simp add: log_name_def)

lemma log_name_not_dir [simp]: "log_name d n \<noteq> d"
  by (simp add: log_name_def)

definition log_dir_fits :: "string \<Rightarrow> bool" where
  "log_dir_fits d \<longleftrightarrow> length d + 25 < MAX_FILENAME"

lemma log_path_fits:
  assumes "log_dir_fits d" and "n \<le> 18446744073709551616"
  shows "log_path d n = Some (log_name d n)"
proof -
  have "length (dec n) \<le> 20" using assms(2) by (intro dec_length_bound) auto
  then show ?thesis
    using assms(1) by (simp add: log_path_def log_name_def log_dir_fits_def TPCLOG_FILETYPE_def Let_def)
qed

definition log_wf :: "logentry_t \<Rightarrow> bool" where
  "log_wf e \<longleftrightarrow> 0 \<le> le_type e \<and> le_type e \<le> 11 \<and> le_length e = int (length (le_data e))
     \<and> length (le_data e) < 2147483648"

lemma log_wf_entry: "length data < 2147483648 \<Longrightarrow> log_wf (log_entry t data)"
  by (simp add: log_wf_def log_entry_def msgtype_int_bounds)

lemma length_log_dump: "log_wf e \<Longrightarrow> length (log_dump e) = sizeof_logentry_t + length (le_data e)"
  by (simp add: log_dump_def c_const)

lemma load_log_dump:
  assumes "os_ok w" and "fcontent w p = Some (log_dump e)" and "log_wf e"
  shows "tpclog_load_entry w p = Some (0, Some e)"
proof -
  let ?n = "length (le_data e)"
  have e: "0 \<le> le_type e" "le_type e \<le> 11" "le_length e = int ?n" "?n < 2147483648"
    using assms(3) by (simp_all add: log_wf_def)
  have "bytes_int (log_dump e) = Some (le_type e)"
    using bytes_int_int_bytes [of "nat (le_type e)"] e by (simp add: log_dump_def)
  moreover have "bytes_int (drop 4 (log_dump e)) = Some (le_length e)"
    using bytes_int_int_bytes [of ?n] e by (simp add: log_dump_def)
  moreover have "take ?n (drop 8 (log_dump e)) = le_data e" by (simp add: log_dump_def)
  ultimately show ?thesis
    using assms e length_log_dump [OF assms(3)]
    by (simp add: tpclog_load_entry_def os_ok_def c_const Let_def zmod_trivial_iff nat_add_distrib)
qed

subsection \<open>The log as a sequence\<close>

definition log_repr :: "posix \<Rightarrow> string \<Rightarrow> logentry_t list \<Rightarrow> bool" where
  "log_repr w d es \<longleftrightarrow> log_dir_fits d \<and> d \<in> set (p_dirs w) \<and> (\<forall>n. log_name d n \<notin> set (p_dirs w))
     \<and> length es < 18446744073709551616
     \<and> (\<forall>n. fcontent w (log_name d n) = (if n < length es then Some (log_dump (es ! n)) else None))
     \<and> (\<forall>e \<in> set es. log_wf e)"

definition log_ok :: "posix \<Rightarrow> tpclog_t \<Rightarrow> logentry_t list \<Rightarrow> bool" where
  "log_ok w log es \<longleftrightarrow> os_ok w \<and> log_repr w (log_dirname log) es \<and> unat (nextid log) = length es"

lemma log_reprD:
  assumes "log_repr w d es"
  shows "log_dir_fits d" "stat_ok w d" "length es < 18446744073709551616"
    "n \<le> length es \<Longrightarrow> log_path d n = Some (log_name d n)"
    "stat_ok w (log_name d n) \<longleftrightarrow> n < length es"
    "n < length es \<Longrightarrow> fcontent w (log_name d n) = Some (log_dump (es ! n))"
    "n < length es \<Longrightarrow> log_wf (es ! n)"
  using assms by (auto simp: log_repr_def stat_ok_def log_path_fits)

lemma log_scan_spec:
  assumes "log_repr w d es" and "n \<le> length es"
  shows "log_scan w d n = Some (length es)"
  using assms(2)
proof (induction rule: inc_induct)
  case base
  show ?case
    using log_reprD(3,4,5) [OF assms(1)] by (subst log_scan.simps) simp
next
  case (step n)
  then show ?case
    using log_reprD(3,4,5) [OF assms(1)] by (subst log_scan.simps) simp
qed

lemma tpclog_init_spec:
  assumes "os_ok w" and "log_repr w d es"
  shows "\<exists>log'. tpclog_init w log d = Some (0, w, log') \<and> log_ok w log' es \<and> log_dirname log' = d"
  using assms log_scan_spec [OF assms(2), of 0] log_reprD(2,3) [OF assms(2)]
  by (simp add: tpclog_init_def log_ok_def os_ok_def unat_of_nat_u64)

lemma tpclog_init_fresh:
  assumes "os_ok w" and "log_dir_fits d" and "\<not> stat_ok w d" and "\<forall>n. \<not> stat_ok w (log_name d n)"
  shows "\<exists>w' log'. tpclog_init w log d = Some (0, w', log') \<and> log_ok w' log' [] \<and> log_dirname log' = d"
proof -
  let ?w = "make_dir w d"
  have "log_repr ?w d []" using assms(2,4) by (auto simp: log_repr_def stat_ok_def)
  moreover have "stat_ok ?w d" by simp
  ultimately have "tpclog_init ?w log d = tpclog_init w log d"
    using assms by (simp add: tpclog_init_def os_ok_def)
  then show ?thesis using tpclog_init_spec [of ?w d "[]" log] \<open>log_repr ?w d []\<close> assms(1) by auto
qed

text \<open>What may be logged, and the entry it becomes.\<close>

definition loggable :: "msgtype_t \<times> string option \<times> string option \<Rightarrow> bool" where
  "loggable r \<longleftrightarrow> (case r of (t, k, v) \<Rightarrow>
     (case k of None \<Rightarrow> t \<noteq> PUTREQ \<and> t \<noteq> DELREQ | Some k \<Rightarrow> valid_key k)
     \<and> (case v of None \<Rightarrow> t \<noteq> PUTREQ | Some v \<Rightarrow> valid_val v)
     \<and> (t = PUTREQ \<or> t = DELREQ \<or> t = ABORT \<or> t = COMMIT))"

definition request_entry :: "msgtype_t \<times> string option \<times> string option \<Rightarrow> logentry_t" where
  "request_entry r = (case r of (t, k, v) \<Rightarrow> log_entry t (the (log_data t k v)))"

lemma loggable_data:
  assumes "loggable (t, k, v)"
  shows "\<exists>data. log_data t k v = Some data \<and> length data < 2147483648"
  using assms
  by (auto simp: loggable_def log_data_def valid_key_def valid_val_def c_const split: option.splits)

lemma tpclog_log_spec:
  assumes ok: "log_ok w log es" and r: "loggable (t, k, v)" and room: "Suc (length es) < 18446744073709551616"
  shows "\<exists>w' log'. tpclog_log w log t k v = Some (0, w', log') \<and> log_ok w' log' (es @ [request_entry (t, k, v)])
    \<and> log_dirname log' = log_dirname log \<and> p_dirs w' = p_dirs w
    \<and> (\<forall>p. (\<forall>n. p \<noteq> log_name (log_dirname log) n) \<longrightarrow> fcontent w' p = fcontent w p)"
proof -
  let ?d = "log_dirname log" and ?n = "length es"
  have os: "os_ok w" and repr: "log_repr w ?d es" and id: "unat (nextid log) = ?n" using ok by (simp_all add: log_ok_def)
  obtain data where data: "log_data t k v = Some data" "length data < 2147483648" using loggable_data [OF r] by blast
  let ?e = "log_entry t data"
  let ?w = "write_file w (log_name ?d ?n) (log_dump ?e)" and ?log = "log\<lparr>nextid := nextid log + 1\<rparr>"
  have "fcontent w (log_name ?d ?n) = None" using repr by (simp add: log_repr_def)
  then have "tpclog_log w log t k v = Some (0, ?w, ?log)"
    using os r log_reprD(4) [OF repr, of ?n] id data(1)
    by (auto simp: tpclog_log_def loggable_def os_ok_def overwrite_def Let_def)
  moreover have "log_repr ?w ?d (es @ [?e])"
    using repr room log_wf_entry [OF data(2)] by (auto simp: log_repr_def nth_append less_Suc_eq)
  moreover have "unat (nextid log + 1) = Suc ?n"
    using id room by (simp add: unat_word_ariths)
  ultimately show ?thesis
    using os data(1) by (auto simp: log_ok_def request_entry_def)
qed

lemma tpclog_next_spec:
  assumes "os_ok w" and "log_repr w (log_dirname log) es" and "unat (iterpos log) = i" and "i < length es"
  shows "tpclog_iterate_next w log = Some (Some (es ! i), log\<lparr>iterpos := iterpos log + 1\<rparr>)"
    and "unat (iterpos log + 1) = Suc i"
proof -
  note D = log_reprD [OF assms(2)]
  show "tpclog_iterate_next w log = Some (Some (es ! i), log\<lparr>iterpos := iterpos log + 1\<rparr>)"
    using D(4,5) [of i] load_log_dump [OF assms(1) D(6,7) [of i]] assms(3,4)
    by (simp add: tpclog_iterate_next_def tpclog_iterate_has_next_def)
  show "unat (iterpos log + 1) = Suc i" using assms(3,4) D(3) by (simp add: unat_word_ariths)
qed

lemma tpclog_next_end:
  assumes "log_repr w (log_dirname log) es" and "unat (iterpos log) = length es"
  shows "tpclog_iterate_next w log = Some (None, log)"
  using log_reprD(4,5) [OF assms(1), of "length es"] assms(2)
  by (simp add: tpclog_iterate_next_def tpclog_iterate_has_next_def)

text \<open>Logging a list of requests, and calling \<open>tpclog_iterate_next\<close> a number of times.\<close>

fun log_all :: "posix \<Rightarrow> tpclog_t \<Rightarrow> (msgtype_t \<times> string option \<times> string option) list \<Rightarrow> (posix \<times> tpclog_t) c_res" where
  "log_all w log [] = Some (w, log)"
| "log_all w log ((t, k, v) # rs) = do {
     (r, w', log') \<leftarrow> tpclog_log w log t k v;
     if r \<noteq> 0 then None else log_all w' log' rs
   }"

fun iterate_n :: "nat \<Rightarrow> posix \<Rightarrow> tpclog_t \<Rightarrow> logentry_t option list c_res" where
  "iterate_n 0 w log = Some []"
| "iterate_n (Suc n) w log = do {
     (e, log') \<leftarrow> tpclog_iterate_next w log;
     es \<leftarrow> iterate_n n w log';
     Some (e # es)
   }"

lemma log_all_spec:
  assumes "log_ok w log es" and "list_all loggable rs" and "length es + length rs < 18446744073709551616"
  shows "\<exists>w' log'. log_all w log rs = Some (w', log') \<and> log_ok w' log' (es @ map request_entry rs)
    \<and> log_dirname log' = log_dirname log"
  using assms
proof (induction rs arbitrary: w log es)
  case (Cons r rs)
  obtain t k v where r: "r = (t, k, v)" by (cases r)
  obtain w' log' where step: "tpclog_log w log t k v = Some (0, w', log')"
    "log_ok w' log' (es @ [request_entry r])" "log_dirname log' = log_dirname log"
    using tpclog_log_spec [OF Cons.prems(1), of t k v] Cons.prems(2,3) r by auto
  from Cons.IH [OF step(2)] Cons.prems(2,3) step(1,3) r show ?case by auto
qed simp

lemma iterate_n_spec:
  assumes "os_ok w" and "log_repr w (log_dirname log) es" and "unat (iterpos log) = i" and "i + n = Suc (length es)"
  shows "iterate_n n w log = Some (map Some (drop i es) @ (if n = 0 then [] else [None]))"
  using assms
proof (induction n arbitrary: log i)
  case (Suc n)
  show ?case
  proof (cases "i < length es")
    case True
    note nxt = tpclog_next_spec [OF Suc.prems(1-3) True]
    have "n \<noteq> 0" using True Suc.prems(4) by simp
    with Suc.IH [of "log\<lparr>iterpos := iterpos log + 1\<rparr>" "Suc i"] Suc.prems nxt show ?thesis
      by (simp add: Cons_nth_drop_Suc [OF True, symmetric])
  next
    case False
    then have "n = 0" "i = length es" using Suc.prems(4) by auto
    then show ?thesis using tpclog_next_end [OF Suc.prems(2)] Suc.prems(3) by simp
  qed
qed simp

lemma clear_files_spec:
  assumes "os_ok w" and "log_dir_fits d" and "\<forall>n. log_name d n \<notin> set (p_dirs w)" and "m < 18446744073709551616"
    and "\<forall>n \<ge> i. fcontent w (log_name d n) \<noteq> None \<longleftrightarrow> n < m" and "i \<le> m"
  shows "\<exists>w'. clear_files w d i = Some (0, w') \<and> os_ok w' \<and> p_dirs w' = p_dirs w
    \<and> (\<forall>p. fcontent w' p = (if \<exists>n. i \<le> n \<and> n < m \<and> p = log_name d n then None else fcontent w p))"
  using assms
proof (induction "m - i" arbitrary: w i)
  case 0
  then have "i = m" by simp
  then have "clear_files w d i = Some (0, w)"
    using 0 by (subst clear_files.simps) (simp add: log_path_fits stat_ok_def)
  then show ?case using 0 \<open>i = m\<close> by auto
next
  case (Suc j)
  let ?p = "log_name d i" and ?w = "remove_file w (log_name d i)"
  have i: "i < m" using Suc.hyps(2) by simp
  have p: "fcontent w ?p \<noteq> None" using Suc.prems(5) i by blast
  then have "posix_remove w ?p = Inr ?w" using Suc.prems(1) by (simp add: posix_remove_def os_ok_def)
  then have "clear_files w d i = clear_files ?w d (Suc i)"
    using Suc.prems(2,4) i p by (subst clear_files.simps) (simp add: log_path_fits stat_ok_def)
  moreover have "\<exists>w'. clear_files ?w d (Suc i) = Some (0, w') \<and> os_ok w' \<and> p_dirs w' = p_dirs ?w
    \<and> (\<forall>p. fcontent w' p = (if \<exists>n. Suc i \<le> n \<and> n < m \<and> p = log_name d n then None else fcontent ?w p))"
    using Suc.prems Suc.hyps(2) i by (intro Suc.hyps(1)) auto
  moreover have "(\<exists>n. i \<le> n \<and> n < m \<and> p = log_name d n) \<longleftrightarrow>
      p = ?p \<or> (\<exists>n. Suc i \<le> n \<and> n < m \<and> p = log_name d n)" for p
    using i by (metis Suc_leD Suc_leI le_neq_implies_less order_refl)
  ultimately show ?case by auto
qed

subsection \<open>Log and store in one directory\<close>

lemma log_entry_names [simp]: "log_name d n \<noteq> entry_name d h c" "entry_name d h c \<noteq> log_name d n"
proof -
  have "last (log_name d n) \<noteq> last (entry_name d h c)"
    by (simp add: log_name_def entry_name_def TPCLOG_FILETYPE_def KVSTORE_FILETYPE_def)
  then show "log_name d n \<noteq> entry_name d h c" "entry_name d h c \<noteq> log_name d n" by metis+
qed

lemma store_ok_frame:
  assumes "store_ok n (w, store)" and "os_ok w'" and "p_dirs w' = p_dirs w"
    and "\<And>h c. fcontent w' (entry_name (store_dirname store) h c) = fcontent w (entry_name (store_dirname store) h c)"
  shows "store_ok n (w', store)" and "store_map w' store = store_map w store"
proof -
  from assms(1) obtain ch where ok: "os_ok w" and repr: "store_repr w store ch" and "chain_bound n w store"
    by (auto simp: store_ok_def store_inv_def)
  moreover have repr': "store_repr w' store ch"
    using repr assms(3,4) by (simp add: store_repr_def chain_repr_def)
  ultimately show "store_ok n (w', store)"
    using assms(2,4) by (auto simp: store_ok_def store_inv_def chain_bound_def)
  show "store_map w' store = store_map w store"
    using store_map_eq [OF ok repr] store_map_eq [OF assms(2) repr'] by (simp add: fun_eq_iff)
qed

lemma log_ok_frame:
  assumes "log_ok w log es" and "os_ok w'" and "p_dirs w' = p_dirs w"
    and "\<And>n. fcontent w' (log_name (log_dirname log) n) = fcontent w (log_name (log_dirname log) n)"
  shows "log_ok w' log es"
  using assms by (simp add: log_ok_def log_repr_def)

text \<open>Requests to the store touch entry files only.\<close>

lemma entry_path_Some: "entry_path store h c = Some p \<Longrightarrow> p = entry_name (store_dirname store) h c"
  by (simp add: entry_path_def Let_def split: if_split_asm)

lemma kvstore_put_frame:
  assumes "kvstore_put w store k v = Some (r, w')" and "\<And>h c. p \<noteq> entry_name (store_dirname store) h c"
  shows "fcontent w' p = fcontent w p" and "p_dirs w' = p_dirs w"
  using assms
  by (auto simp: kvstore_put_def Let_def bind_eq_Some_conv dest!: entry_path_Some split: if_split_asm)

lemma posix_remove_frame:
  assumes "posix_remove w q = Inr w'" and "q \<notin> set (p_dirs w)"
  shows "p \<noteq> q \<Longrightarrow> fcontent w' p = fcontent w p" and "p_dirs w' = p_dirs w"
  using assms by (auto simp: posix_remove_def split: option.split_asm if_split_asm)

lemma posix_rename_frame:
  assumes "posix_rename w q q' = Inr w'"
  shows "p \<noteq> q \<Longrightarrow> p \<noteq> q' \<Longrightarrow> fcontent w' p = fcontent w p" and "p_dirs w' = p_dirs w"
  using assms by (auto simp: posix_rename_def split: option.split_asm if_split_asm)

lemma kvstore_del_frame:
  assumes "kvstore_del w store k = Some (r, w')" and "\<And>h c. p \<noteq> entry_name (store_dirname store) h c"
    and "\<And>h c. entry_name (store_dirname store) h c \<notin> set (p_dirs w)"
  shows "fcontent w' p = fcontent w p" and "p_dirs w' = p_dirs w"
  using assms
  by (auto simp: kvstore_del_def posix_remove_frame posix_rename_frame dest!: entry_path_Some
      split: Option.bind_split_asm if_split_asm sum.split_asm)

lemma run_op_log:
  assumes "run_op store_get store_put store_del (w, store) x = Some (r, w', store')" and "store_ok n (w, store)"
    and "log_ok w log es" and "log_dirname log = store_dirname store" and "os_ok w'"
  shows "log_ok w' log es"
proof (rule log_ok_frame [OF assms(3,5)])
  have "entry_name (store_dirname store) h c \<notin> set (p_dirs w)" for h c
    using assms(2) by (auto simp: store_ok_def store_inv_def dest: store_reprD(4))
  then have "p_dirs w' = p_dirs w \<and> fcontent w' (log_name (log_dirname log) n) = fcontent w (log_name (log_dirname log) n)" for n
    using assms(1,4) kvstore_put_frame [of w store _ _ _ w' "log_name (log_dirname log) n"]
      kvstore_del_frame [of w store _ _ w' "log_name (log_dirname log) n"]
    by (cases x) (auto simp: store_get_def store_put_def store_del_def bind_eq_Some_conv)
  then show "p_dirs w' = p_dirs w" "fcontent w' (log_name (log_dirname log) n) = fcontent w (log_name (log_dirname log) n)" for n
    by blast+
qed

text \<open>Any interleaving of requests to the store and of log writes.\<close>

datatype action = KV kv_op | LOG "msgtype_t \<times> string option \<times> string option"

fun run_actions :: "posix \<times> kvstore_t \<Rightarrow> tpclog_t \<Rightarrow> action list \<Rightarrow>
    ((int \<times> string option) list \<times> (posix \<times> kvstore_t) \<times> tpclog_t) c_res" where
  "run_actions s log [] = Some ([], s, log)"
| "run_actions s log (KV x # as) = do {
     (r, s') \<leftarrow> run_op store_get store_put store_del s x;
     (rs, s'', log'') \<leftarrow> run_actions s' log as;
     Some (r # rs, s'', log'')
   }"
| "run_actions s log (LOG q # as) = do {
     (r, w', log') \<leftarrow> tpclog_log (fst s) log (fst q) (fst (snd q)) (snd (snd q));
     if r \<noteq> 0 then None else run_actions (w', snd s) log' as
   }"

fun kv_part :: "action list \<Rightarrow> kv_op list" where
  "kv_part [] = []" | "kv_part (KV x # as) = x # kv_part as" | "kv_part (LOG q # as) = kv_part as"

fun log_part :: "action list \<Rightarrow> (msgtype_t \<times> string option \<times> string option) list" where
  "log_part [] = []" | "log_part (KV x # as) = log_part as" | "log_part (LOG q # as) = q # log_part as"

lemma run_actions_spec:
  assumes "store_ok n (w, store)" and "log_ok w log es" and "log_dirname log = store_dirname store"
    and "list_all op_valid (kv_part as)" and "list_all loggable (log_part as)"
    and "n + puts (kv_part as) \<le> 2147483647" and "length es + length (log_part as) < 18446744073709551616"
  shows "\<exists>w' log'. run_actions (w, store) log as = Some (fst (map_ops (store_map w store) (kv_part as)), (w', store), log')
    \<and> store_map w' store = snd (map_ops (store_map w store) (kv_part as))
    \<and> log_ok w' log' (es @ map request_entry (log_part as))"
  using assms
proof (induction as arbitrary: n w log es)
  case (Cons a as)
  show ?case
  proof (cases a)
    case (KV x)
    have p: "puts (x # kv_part as) = puts [x] + puts (kv_part as)" by (cases x) simp_all
    from kvs.run_op_refines [OF Cons.prems(1), of x] obtain w' store' where step:
      "run_op store_get store_put store_del (w, store) x = Some (fst (map_op (store_map w store) x), w', store')"
      "store_ok (n + puts [x]) (w', store')" "store_map w' store' = snd (map_op (store_map w store) x)"
      using Cons.prems(4,6) KV p by (auto simp: store_abs_def)
    have st: "store' = store" using run_op_dirname [OF step(1)] by simp
    have "log_ok w' log es"
      using run_op_log [OF step(1) Cons.prems(1-3)] step(2) by (simp add: store_ok_def)
    with Cons.IH [of "n + puts [x]" w' log es] Cons.prems step st KV p show ?thesis
      by (auto simp: split_beta add.assoc)
  next
    case (LOG q)
    obtain t k v where q: "q = (t, k, v)" by (cases q)
    from tpclog_log_spec [OF Cons.prems(2), of t k v] obtain w' log' where step:
      "tpclog_log w log t k v = Some (0, w', log')" "log_ok w' log' (es @ [request_entry q])"
      "log_dirname log' = log_dirname log" "p_dirs w' = p_dirs w"
      "\<forall>p. (\<forall>n. p \<noteq> log_name (log_dirname log) n) \<longrightarrow> fcontent w' p = fcontent w p"
      using Cons.prems(5,7) LOG q by auto
    have "os_ok w'" using step(2) by (simp add: log_ok_def)
    note fr = store_ok_frame [OF Cons.prems(1) this step(4)]
    have "store_ok n (w', store)" "store_map w' store = store_map w store"
      using fr step(5) Cons.prems(3) by auto
    with Cons.IH [of n w' log' "es @ [request_entry q]"] Cons.prems step LOG q show ?thesis by auto
  qed
qed simp

subsection \<open>Properties\<close>

text \<open>A server directory with nothing in it, and the log and store objects on it.\<close>

definition log_d :: tpclog_t where "log_d = \<lparr>log_dirname = ''d'', nextid = 0, iterpos = 0\<rparr>"

lemma log_ok_world_0: "log_ok world_0 log_d []"
  by (simp add: log_ok_def log_repr_def world_0_def log_d_def healthy_os_def os_ok_def log_dir_fits_def
      log_name_def c_const)

text \<open>C13. Logging round trip: log any requests on a fresh directory, forget the log object,
  initialise a new one on the directory and iterate: it returns exactly the logged entries,
  oldest first, and then the null pointer; the next free id is their number.\<close>

theorem tpclog_replay:
  assumes "os_ok w" and "log_dir_fits d" and "\<not> stat_ok w d" and "\<forall>n. \<not> stat_ok w (log_name d n)"
    and "list_all loggable rs" and "length rs < 18446744073709551616"
  shows "\<exists>w1 log1 w2 log2 log3. tpclog_init w raw d = Some (0, w1, log1)
    \<and> log_all w1 log1 rs = Some (w2, log2) \<and> tpclog_init w2 raw' d = Some (0, w2, log3)
    \<and> unat (nextid log3) = length rs
    \<and> iterate_n (Suc (length rs)) w2 (tpclog_iterate_begin log3) = Some (map (Some \<circ> request_entry) rs @ [None])"
proof -
  from tpclog_init_fresh [OF assms(1-4)] obtain w1 log1 where
    init: "tpclog_init w raw d = Some (0, w1, log1)" "log_ok w1 log1 []" "log_dirname log1 = d" by blast
  from log_all_spec [OF init(2) assms(5)] assms(6) obtain w2 log2 where
    all: "log_all w1 log1 rs = Some (w2, log2)" "log_ok w2 log2 (map request_entry rs)" "log_dirname log2 = d"
    using init(3) by auto
  then have repr: "os_ok w2" "log_repr w2 d (map request_entry rs)" by (simp_all add: log_ok_def)
  from tpclog_init_spec [OF this] obtain log3 where
    re: "tpclog_init w2 raw' d = Some (0, w2, log3)" "log_ok w2 log3 (map request_entry rs)" "log_dirname log3 = d" by blast
  then have "iterate_n (Suc (length rs)) w2 (tpclog_iterate_begin log3) = Some (map (Some \<circ> request_entry) rs @ [None])"
    using iterate_n_spec [of w2 "tpclog_iterate_begin log3" "map request_entry rs" 0 "Suc (length rs)"] repr
    by (simp add: tpclog_iterate_begin_def)
  with init(1) all(1) re(1,2) show ?thesis by (auto simp: log_ok_def)
qed

theorem tpclog_replay_witness:
  "\<exists>w1 log1 w2 log2 log3. tpclog_init (healthy_os [] []) log_d ''d'' = Some (0, w1, log1)
    \<and> log_all w1 log1 [(PUTREQ, Some ''a'', Some ''1''), (COMMIT, None, None)] = Some (w2, log2)
    \<and> tpclog_init w2 log_d ''d'' = Some (0, w2, log3) \<and> unat (nextid log3) = 2
    \<and> iterate_n 3 w2 (tpclog_iterate_begin log3) =
        Some [Some (log_entry PUTREQ (''a'' @ [NUL] @ ''1'' @ [NUL])), Some (log_entry COMMIT []), None]"
  using tpclog_replay [of "healthy_os [] []" "''d''" "[(PUTREQ, Some ''a'', Some ''1''), (COMMIT, None, None)]" log_d log_d]
  by (simp add: log_dir_fits_def stat_ok_def healthy_os_def os_ok_def c_const loggable_def valid_key_def valid_val_def
      is_cstr_def request_entry_def log_data_def numeral_2_eq_2 numeral_3_eq_3 del: iterate_n.simps log_all.simps)

text \<open>C15. The store and the log of a server share a directory and do not disturb each other: in
  every interleaving of valid store requests and log writes, the answers and the final map
  are those of the store requests alone and the log holds the logged entries in order.\<close>

theorem store_log_independent:
  assumes "store_ok n (w, store)" and "log_ok w log es" and "log_dirname log = store_dirname store"
    and "list_all op_valid (kv_part as)" and "list_all loggable (log_part as)"
    and "n + puts (kv_part as) \<le> 2147483647" and "length es + length (log_part as) < 18446744073709551616"
  shows "\<exists>w' log'. run_actions (w, store) log as = Some (fst (map_ops (store_map w store) (kv_part as)), (w', store), log')
    \<and> store_map w' store = snd (map_ops (store_map w store) (kv_part as))
    \<and> log_ok w' log' (es @ map request_entry (log_part as))"
  using assms by (rule run_actions_spec)

theorem store_log_independent_witness:
  "\<exists>w' log'. run_actions (world_0, store_d) log_d [LOG (DELREQ, Some ''a'', None), KV (Put ''a'' ''1''), LOG (ABORT, None, None), KV (Get ''a'')]
      = Some ([(0, None), (0, Some ''1'')], (w', store_d), log')
    \<and> store_map w' store_d = [''a'' \<mapsto> ''1'']
    \<and> log_ok w' log' [log_entry DELREQ (''a'' @ [NUL]), log_entry ABORT []]"
proof -
  let ?as = "[LOG (DELREQ, Some ''a'', None), KV (Put ''a'' ''1''), LOG (ABORT, None, None), KV (Get ''a'')]"
  have "log_dirname log_d = store_dirname store_d" by (simp add: log_d_def store_d_def)
  moreover have "list_all op_valid (kv_part ?as)" "list_all loggable (log_part ?as)"
    by (simp_all add: loggable_def valid_key_def valid_val_def is_cstr_def c_const)
  ultimately show ?thesis
    using store_log_independent [OF store_ok_world_0(1) log_ok_world_0, of ?as]
    by (simp add: store_ok_world_0(2) request_entry_def log_data_def del: run_actions.simps)
qed

text \<open>\<open>tpclog_clear_log\<close> removes all log files, restarts the ids at 0, and changes no other
  file.\<close>

lemma tpclog_clear_log_empties:
  assumes "log_ok w log es"
  shows "\<exists>w' log'. tpclog_clear_log w log = Some (0, w', log') \<and> log_ok w' log' []
    \<and> (\<forall>p. (\<forall>n. p \<noteq> log_name (log_dirname log) n) \<longrightarrow> fcontent w' p = fcontent w p)"
proof -
  let ?d = "log_dirname log"
  have os: "os_ok w" and repr: "log_repr w ?d es" using assms by (simp_all add: log_ok_def)
  then have "\<forall>n \<ge> 0. fcontent w (log_name ?d n) \<noteq> None \<longleftrightarrow> n < length es" by (simp add: log_repr_def)
  from clear_files_spec [OF os _ _ _ this] repr obtain w' where w': "clear_files w ?d 0 = Some (0, w')" "os_ok w'"
    "p_dirs w' = p_dirs w"
    "\<forall>p. fcontent w' p = (if \<exists>n. 0 \<le> n \<and> n < length es \<and> p = log_name ?d n then None else fcontent w p)"
    by (auto simp: log_repr_def)
  then have "log_repr w' ?d []" using repr by (auto simp: log_repr_def)
  with w' show ?thesis by (auto simp: tpclog_clear_log_def log_ok_def)
qed

text \<open>A failing \<open>write\<close> is not noticed: it returns \<open>-1\<close>, which compares as the largest
  unsigned number, so \<open>tpclog_log\<close> reports success although nothing was written; reading
  the entry back fails.\<close>

lemma tpclog_write_error_lost:
  "\<exists>w' log'. tpclog_log (world_0\<lparr>write_ret := (\<lambda>_. Some (-1))\<rparr>) log_d COMMIT None None = Some (0, w', log')
    \<and> fcontent w' (log_name ''d'' 0) = Some []
    \<and> tpclog_iterate_next w' (tpclog_iterate_begin log') = Some (None, log'\<lparr>iterpos := 1\<rparr>)"
proof -
  have "case tpclog_log (world_0\<lparr>write_ret := (\<lambda>_. Some (-1))\<rparr>) log_d COMMIT None None of None \<Rightarrow> False
     | Some (r, w', log') \<Rightarrow> r = 0 \<and> fcontent w' (log_name ''d'' 0) = Some []
        \<and> tpclog_iterate_next w' (tpclog_iterate_begin log') = Some (None, log'\<lparr>iterpos := 1\<rparr>)"
    by code_simp
  then show ?thesis by (auto split: option.splits)
qed

end
