(* ===== verification/KvMessage.thy ===== *)
theory KvMessage
  imports KvConstants
begin

text \<open>
  Messages on sockets, \<^verbatim>\<open>kvmessage.c\<close>. The JSON library is not part of the sources: it is the
  parameter \<open>api\<close>, a record of the library functions the code calls, and what the code relies
  on is the predicate \<open>json_laws\<close>: a field added to an object is read back, and parsing the
  text of an object, followed by any further bytes, gives the object. A socket is the sequence
  of pieces its peer has sent (\<open>read\<close> returns at most one piece, or an error) and the bytes
  written so far.

  \<open>kvmessage_parse\<close> hands a buffer without terminator to the parser; the parser then reads
  on into what lies behind the buffer, the parameter \<open>behind\<close>. A variable-length array of
  non-positive size is undefined behaviour, and so is one that the stack cannot hold
  (\<open>vla_ok\<close>).
\<close>

record kvmessage_t =
  m_type :: int
  m_key :: "string option"
  m_value :: "string option"
  m_message :: "string option"

subsection \<open>Sockets\<close>

datatype piece = Bytes "char list" | Broken

record socket =
  s_in :: "piece list"
  s_out :: "char list"
  s_wr :: "int list"

fun sock_read :: "nat \<Rightarrow> socket \<Rightarrow> char list option \<times> socket" where
  "sock_read n s = (case s_in s of
       [] \<Rightarrow> (Some [], s)
     | Broken # ps \<Rightarrow> (None, s\<lparr>s_in := ps\<rparr>)
     | Bytes bs # ps \<Rightarrow> (Some (take n bs), s\<lparr>s_in := if length bs \<le> n then ps else Bytes (drop n bs) # ps\<rparr>))"

text \<open>\<open>write\<close>: the result is the next element of \<open>s_wr\<close>, or the full length when none is
  left; what the result says was written reaches the peer.\<close>

definition sock_write :: "char list \<Rightarrow> socket \<Rightarrow> int \<times> socket" where
  "sock_write bs s = (case s_wr s of
       [] \<Rightarrow> (int (length bs), s\<lparr>s_out := s_out s @ bs\<rparr>)
     | r # rs \<Rightarrow> (r, s\<lparr>s_out := s_out s @ take (nat r) bs, s_wr := rs\<rparr>))"

subsection \<open>The JSON library\<close>

record 'j json_api =
  json_new :: 'j
  json_add_int :: "'j \<Rightarrow> string \<Rightarrow> int \<Rightarrow> 'j"
  json_add_str :: "'j \<Rightarrow> string \<Rightarrow> string \<Rightarrow> 'j"
  json_text :: "'j \<Rightarrow> string"
  json_parse :: "string \<Rightarrow> 'j option"
  json_int :: "'j \<Rightarrow> string \<Rightarrow> int option"
  json_str :: "'j \<Rightarrow> string \<Rightarrow> string option option"

text \<open>\<open>json_str j f\<close> is \<open>None\<close> when the object has no field \<open>f\<close>, and \<open>Some None\<close> when the
  library returns a null pointer for its string.\<close>

definition json_laws :: "'j json_api \<Rightarrow> bool" where
  "json_laws api \<longleftrightarrow>
     (\<forall>f. json_int api (json_new api) f = None \<and> json_str api (json_new api) f = None)
   \<and> (\<forall>j f n. -2147483648 \<le> n \<and> n < 2147483648 \<longrightarrow> json_int api (json_add_int api j f n) f = Some n)
   \<and> (\<forall>j f s. is_cstr s \<longrightarrow> json_str api (json_add_str api j f s) f = Some (Some s))
   \<and> (\<forall>j f g n. f \<noteq> g \<longrightarrow> json_int api (json_add_int api j f n) g = json_int api j g
        \<and> json_str api (json_add_int api j f n) g = json_str api j g)
   \<and> (\<forall>j f g s. f \<noteq> g \<longrightarrow> json_int api (json_add_str api j f s) g = json_int api j g
        \<and> json_str api (json_add_str api j f s) g = json_str api j g)
   \<and> (\<forall>j. is_cstr (json_text api j) \<and> json_text api j \<noteq> [])
   \<and> (\<forall>j t. is_cstr t \<longrightarrow> json_parse api (json_text api j @ t) = Some j)"

subsection \<open>Sending and parsing\<close>

definition sizeof_kvmessage_t :: nat where [c_const]: "sizeof_kvmessage_t = 32"

definition add_opt :: "'j json_api \<Rightarrow> string \<Rightarrow> string option \<Rightarrow> 'j \<Rightarrow> 'j" where
  "add_opt api f s j = (case s of None \<Rightarrow> j | Some s \<Rightarrow> json_add_str api j f s)"

definition kvmessage_json :: "'j json_api \<Rightarrow> kvmessage_t \<Rightarrow> 'j" where
  "kvmessage_json api msg =
     add_opt api ''message'' (m_message msg)
       (add_opt api ''value'' (m_value msg)
         (add_opt api ''key'' (m_key msg)
           (json_add_int api (json_new api) ''type'' (m_type msg))))"

definition htonl :: "nat \<Rightarrow> char list" where
  "htonl n = rev (int_bytes n)"

definition kvmessage_send :: "'j json_api \<Rightarrow> kvmessage_t \<Rightarrow> socket \<Rightarrow> int \<times> socket" where
  "kvmessage_send api msg sock =
     (let json_string = json_text api (kvmessage_json api msg);
          (n1, sock1) = sock_write (htonl (length json_string)) sock;
          (n2, sock2) = sock_write json_string sock1
      in (n1 + n2, sock2))"

text \<open>Copying one optional string field into a fresh buffer.\<close>

definition get_opt :: "(nat \<Rightarrow> bool) \<Rightarrow> 'j json_api \<Rightarrow> 'j option \<Rightarrow> string \<Rightarrow> string option c_res" where
  "get_opt mok api j f = (case Option.bind j (\<lambda>j. json_str api j f) of
       None \<Rightarrow> Some None
     | Some None \<Rightarrow> None
     | Some (Some s) \<Rightarrow> if mok (length s + 1) then Some (Some s) else None)"

definition kvmessage_parse ::
    "(nat \<Rightarrow> bool) \<Rightarrow> (nat \<Rightarrow> bool) \<Rightarrow> char list \<Rightarrow> 'j json_api \<Rightarrow> socket \<Rightarrow> (kvmessage_t option \<times> socket) c_res" where
  "kvmessage_parse mok vla_ok behind api sock =
     (case sock_read 4 sock of
        (None, sock1) \<Rightarrow> Some (None, sock1)
      | (Some hdr, sock1) \<Rightarrow>
          if length hdr < 4 then Some (None, sock1)
          else do {
            size \<leftarrow> bytes_int (rev hdr);
            if size \<le> 0 \<or> \<not> vla_ok (nat size) then None
            else (case sock_read (nat size) sock1 of
               (None, sock2) \<Rightarrow> Some (None, sock2)
             | (Some buffer, sock2) \<Rightarrow>
                 if length buffer < nat size then Some (None, sock2)
                 else do {
                   text \<leftarrow> read_cstr (buffer @ behind);
                   let obj = json_parse api text;
                   key \<leftarrow> get_opt mok api obj ''key'';
                   value \<leftarrow> get_opt mok api obj ''value'';
                   message \<leftarrow> get_opt mok api obj ''message'';
                   let type = Option.bind obj (\<lambda>j. json_int api j ''type'');
                   if \<not> mok sizeof_kvmessage_t then
                     if type = None \<and> key = None \<and> value = None \<and> message = None then Some (None, sock2) else None
                   else Some (Some \<lparr>m_type = (case type of None \<Rightarrow> 0 | Some t \<Rightarrow> t),
                     m_key = key, m_value = value, m_message = message\<rparr>, sock2)
                 })
          })"

subsection \<open>Round trip\<close>

definition msg_wf :: "kvmessage_t \<Rightarrow> bool" where
  "msg_wf m \<longleftrightarrow> -2147483648 \<le> m_type m \<and> m_type m < 2147483648 \<and> list_all is_cstr (List.map_filter id [m_key m, m_value m, m_message m])"

lemma msg_wf_iff:
  "msg_wf m \<longleftrightarrow> -2147483648 \<le> m_type m \<and> m_type m < 2147483648 \<and> (\<forall>s. m_key m = Some s \<or> m_value m = Some s \<or> m_message m = Some s \<longrightarrow> is_cstr s)"
  by (cases "m_key m"; cases "m_value m"; cases "m_message m") (auto simp: msg_wf_def map_filter_simps)

lemma json_fields:
  assumes "json_laws api" and "msg_wf m"
  shows "json_int api (kvmessage_json api m) ''type'' = Some (m_type m)"
    and "json_str api (kvmessage_json api m) ''key'' = map_option Some (m_key m)"
    and "json_str api (kvmessage_json api m) ''value'' = map_option Some (m_value m)"
    and "json_str api (kvmessage_json api m) ''message'' = map_option Some (m_message m)"
  using assms unfolding json_laws_def msg_wf_iff
  by (auto simp: kvmessage_json_def add_opt_def split: option.split)

lemma bytes_int_htonl:
  assumes "n < 2147483648"
  shows "bytes_int (rev (htonl n)) = Some (int n)"
  using bytes_int_int_bytes [OF assms, of "[]"] by (simp add: htonl_def)

lemma read_cstr_prefix:
  assumes "is_cstr s" and "read_cstr t = Some t'"
  shows "read_cstr (s @ t) = Some (s @ t') \<and> is_cstr t'"
  using assms read_cstr_is_cstr [OF assms(2)] by (induction s) (auto simp: is_cstr_def)

text \<open>The fields of a parsed message, when the text of the object is followed by the memory behind
  the buffer.\<close>

lemma parse_text:
  assumes "json_laws api" and "msg_wf m" and "read_cstr behind = Some t" and "\<And>n. mok n"
  shows "\<exists>text. read_cstr (json_text api (kvmessage_json api m) @ behind) = Some text
    \<and> json_parse api text = Some (kvmessage_json api m)"
    and "get_opt mok api (Some (kvmessage_json api m)) ''key'' = Some (m_key m)"
    and "get_opt mok api (Some (kvmessage_json api m)) ''value'' = Some (m_value m)"
    and "get_opt mok api (Some (kvmessage_json api m)) ''message'' = Some (m_message m)"
proof -
  have cstr: "is_cstr (json_text api j)" and parse: "is_cstr t \<Longrightarrow> json_parse api (json_text api j @ t) = Some j" for j t
    using assms(1) by (simp_all add: json_laws_def)
  from read_cstr_prefix [OF cstr assms(3)] show
    "\<exists>text. read_cstr (json_text api (kvmessage_json api m) @ behind) = Some text
      \<and> json_parse api text = Some (kvmessage_json api m)"
    using parse by simp
  show "get_opt mok api (Some (kvmessage_json api m)) ''key'' = Some (m_key m)"
    "get_opt mok api (Some (kvmessage_json api m)) ''value'' = Some (m_value m)"
    "get_opt mok api (Some (kvmessage_json api m)) ''message'' = Some (m_message m)"
    using json_fields [OF assms(1,2)] assms(4) by (simp_all add: get_opt_def split: option.split)
qed

lemma kvmessage_parse_text:
  assumes laws: "json_laws api" and m: "msg_wf m" and b: "read_cstr behind = Some t" and ok: "\<And>n. mok n" "\<And>n. vla_ok n"
    and len: "length (json_text api (kvmessage_json api m)) < 2147483648"
    and "s_in sock = [Bytes (htonl (length (json_text api (kvmessage_json api m))) @ json_text api (kvmessage_json api m))]"
  shows "kvmessage_parse mok vla_ok behind api sock = Some (Some m, sock\<lparr>s_in := []\<rparr>)"
proof -
  let ?t = "json_text api (kvmessage_json api m)"
  have ne: "?t \<noteq> []" using laws by (simp add: json_laws_def)
  obtain str where str: "read_cstr (?t @ behind) = Some str" "json_parse api str = Some (kvmessage_json api m)"
    using parse_text(1) [where mok = mok, OF laws m b ok(1)] by blast
  have h: "length (htonl n) = 4" for n by (simp add: htonl_def)
  show ?thesis
    using assms(7) ok ne str json_fields(1) [OF laws m] parse_text(2-4) [where mok = mok, OF laws m b ok(1)]
      bytes_int_htonl [OF len]
    by (simp add: kvmessage_parse_def h)
qed

subsection \<open>An instance of the library's laws\<close>

text \<open>Objects as association lists, with a self-delimiting text: it shows that the laws can hold.\<close>

type_synonym jobj = "(string \<times> (int + string)) list"

fun enc_str :: "string \<Rightarrow> string" where
  "enc_str [] = ''.''"
| "enc_str (c # s) = (if c = NUL then ''0'' else [CHR ''x'', c]) @ enc_str s"

fun dec_str :: "string \<Rightarrow> (string \<times> string) option" where
  "dec_str (t # s) = (if t = CHR ''.'' then Some ([], s)
     else if t = CHR ''0'' then map_option (apfst ((#) NUL)) (dec_str s)
     else case s of [] \<Rightarrow> None | c # s \<Rightarrow> map_option (apfst ((#) c)) (dec_str s))"
| "dec_str [] = None"

fun enc_val :: "int + string \<Rightarrow> string" where
  "enc_val (Inl n) = (if n < 0 then CHR ''-'' else CHR ''+'') # enc_str (dec (nat \<bar>n\<bar>))"
| "enc_val (Inr s) = CHR ''s'' # enc_str s"

fun dec_val :: "string \<Rightarrow> ((int + string) \<times> string) option" where
  "dec_val [] = None"
| "dec_val (t # s) = map_option (\<lambda>(v, s'). (if t = CHR ''s'' then Inr v
     else if t = CHR ''-'' then Inl (- int (undec v)) else Inl (int (undec v)), s')) (dec_str s)"

fun enc_obj :: "jobj \<Rightarrow> string" where
  "enc_obj [] = ''}''"
| "enc_obj ((f, v) # fs) = CHR '','' # enc_str f @ enc_val v @ enc_obj fs"

fun dec_obj :: "nat \<Rightarrow> string \<Rightarrow> jobj option" where
  "dec_obj 0 s = None"
| "dec_obj (Suc n) s = (case s of [] \<Rightarrow> None
     | t # s \<Rightarrow> if t = CHR ''}'' then Some []
         else do { (f, s) \<leftarrow> dec_str s; (v, s) \<leftarrow> dec_val s; fs \<leftarrow> dec_obj n s; Some ((f, v) # fs) })"

lemma dec_enc_str: "dec_str (enc_str s @ t) = Some (s, t)"
  by (induction s) auto

lemma dec_enc_val: "dec_val (enc_val v @ t) = Some (v, t)"
  by (cases v) (auto simp: dec_enc_str)

lemma dec_enc_obj: "length j < n \<Longrightarrow> dec_obj n (enc_obj j @ t) = Some j"
proof (induction j arbitrary: n)
  case Nil
  then show ?case by (cases n) auto
next
  case (Cons x j)
  then show ?case by (cases n; cases x) (auto simp: dec_enc_str dec_enc_val)
qed

lemma is_cstr_enc_str: "is_cstr (enc_str s)"
  by (induction s) auto

lemma is_cstr_enc_obj: "is_cstr (enc_obj j) \<and> length j < length (enc_obj j)"
proof (induction j)
  case (Cons x j)
  obtain f v where "x = (f, v)" by (cases x)
  with Cons show ?case by (cases v) (auto simp: is_cstr_enc_str)
qed simp

definition assoc_json :: "jobj json_api" where
  "assoc_json = \<lparr>json_new = [], json_add_int = (\<lambda>j f n. (f, Inl n) # j), json_add_str = (\<lambda>j f s. (f, Inr s) # j),
     json_text = enc_obj, json_parse = (\<lambda>s. dec_obj (length s) s),
     json_int = (\<lambda>j f. case map_of j f of None \<Rightarrow> None | Some (Inl n) \<Rightarrow> Some n | Some (Inr s) \<Rightarrow> Some 0),
     json_str = (\<lambda>j f. case map_of j f of None \<Rightarrow> None | Some (Inl n) \<Rightarrow> Some None | Some (Inr s) \<Rightarrow> Some (Some s))\<rparr>"

lemma json_laws_assoc: "json_laws assoc_json"
proof -
  have "dec_obj (length (enc_obj j @ t)) (enc_obj j @ t) = Some j" for j t
    using is_cstr_enc_obj [of j] by (intro dec_enc_obj) simp
  moreover have "enc_obj j \<noteq> []" for j by (cases j rule: enc_obj.cases) simp_all
  ultimately show ?thesis using is_cstr_enc_obj by (simp add: json_laws_def assoc_json_def)
qed

subsection \<open>Properties\<close>


definition get_a :: kvmessage_t where
  "get_a = \<lparr>m_type = msgtype_int GETREQ, m_key = Some ''a'', m_value = None, m_message = None\<rparr>"

definition idle :: socket where "idle = \<lparr>s_in = [], s_out = [], s_wr = []\<rparr>"


text \<open>A message whose body the network delivers in two pieces is lost: \<open>kvmessage_parse\<close> takes
  the short \<open>read\<close> for an error and returns the null pointer.\<close>

lemma kvmessage_fragment_lost:
  assumes "length (a @ b) < 2147483648" and "b \<noteq> []" and "a \<noteq> []"
    and "s_in sock = Bytes (htonl (length (a @ b)) @ a) # Bytes b # ps"
  shows "kvmessage_parse (\<lambda>_. True) (\<lambda>_. True) behind api sock = Some (None, sock\<lparr>s_in := Bytes b # ps\<rparr>)"
proof -
  have h: "length (htonl n) = 4" for n by (simp add: htonl_def)
  define L where "L = length (a @ b)"
  then have "length a < L" "bytes_int (rev (htonl L)) = Some (int L)"
    using assms(2) bytes_int_htonl [OF assms(1)] by simp_all
  then show ?thesis
    using assms(3,4) unfolding L_def [symmetric] by (simp add: kvmessage_parse_def h)
qed

end
