(* ===== verification/KvServer.thy ===== *)
theory KvServer
  imports KvCache TpcLog KvMessage
begin

text \<open>
  The server, \<^verbatim>\<open>kvserver.c\<close>: a cache in front of the store, and the handlers that turn
  request messages into responses. The model covers every function of the file; the
  two-phase-commit handler and the state rebuild are the stubs of the source. Locking a null
  lock, as happens for a key that is too long, is undefined behaviour (\<open>None\<close>), and so is the
  use of the uninitialised variable \<open>error\<close>.

  The main results: under the contracts of the cache (\<open>kv_cache\<close>) and of the store
  (\<open>kv_service\<close>) the server is again a \<open>kv_service\<close>, so the cache is transparent; and each
  request is answered with the message its outcome calls for.
\<close>

subsection \<open>Model\<close>

record kvserver_t =
  sv_cache :: kvcache_t
  sv_store :: kvstore_t
  sv_log :: tpclog_t
  use_tpc :: bool
  sv_max_threads :: int
  sv_port :: int
  sv_hostname :: string

definition kvserver_init :: "posix \<Rightarrow> int \<Rightarrow> kvserver_t \<Rightarrow> string \<Rightarrow> u32 \<Rightarrow> u32 \<Rightarrow> u32 \<Rightarrow> string \<Rightarrow> int \<Rightarrow> bool
    \<Rightarrow> (int \<times> posix \<times> kvserver_t) c_res" where
  "kvserver_init w lockret server dirname nsets eps maxthr host prt tpc =
     (let (ret, c) = kvcache_init (malloc_ok w) lockret (sv_cache server) nsets eps;
          server1 = server\<lparr>sv_cache := c\<rparr> in
      if ret < 0 then Some (ret, w, server1)
      else do {
        (ret, w2, st) \<leftarrow> kvstore_init w (sv_store server) dirname;
        let server2 = server1\<lparr>sv_store := st\<rparr>;
        if ret < 0 then Some (ret, w2, server2)
        else do {
          (ret, w3, lg) \<leftarrow> (if tpc then tpclog_init w2 (sv_log server) dirname else Some (0, w2, sv_log server));
          let server3 = server2\<lparr>sv_log := lg\<rparr>;
          if ret < 0 then Some (ret, w3, server3)
          else if \<not> malloc_ok w3 (length host + 1) then Some (ENOMEM, w3, server3)
          else Some (0, w3, server3\<lparr>sv_hostname := host, sv_port := prt, use_tpc := tpc, sv_max_threads := sint maxthr\<rparr>)
        }
      })"

text \<open>Printing a signed number.\<close>

definition dec_int :: "int \<Rightarrow> string" where
  "dec_int n = (if n < 0 then CHR ''-'' # dec (nat (- n)) else dec (nat n))"

definition kvserver_register_master :: "(nat \<Rightarrow> bool) \<Rightarrow> (nat \<Rightarrow> bool) \<Rightarrow> char list \<Rightarrow> 'j json_api \<Rightarrow> kvserver_t \<Rightarrow> socket
    \<Rightarrow> (int \<times> socket) c_res" where
  "kvserver_register_master mok vla_ok behind api server sock =
     (let portstr = dec_int (sv_port server) in
      if \<not> mok (length (sv_hostname server) + 1) \<or> \<not> length portstr < 15 \<or> \<not> mok (length portstr + 1) then None
      else do {
        let regmsg = \<lparr>m_type = msgtype_int REGISTER, m_key = Some (sv_hostname server),
          m_value = Some portstr, m_message = None\<rparr>;
        (respmsg, sock2) \<leftarrow> kvmessage_parse mok vla_ok behind api (snd (kvmessage_send api regmsg sock));
        (case respmsg of
           None \<Rightarrow> Some (0, sock2)
         | Some resp \<Rightarrow> (case m_message resp of
             None \<Rightarrow> None
           | Some msg \<Rightarrow> Some (if msg \<noteq> MSG_SUCCESS then -1 else 0, sock2)))
      })"

text \<open>\<open>with_lock\<close>: taking the lock a pointer names; \<open>Some None\<close> is the null pointer.\<close>

definition with_lock :: "nat option c_res \<Rightarrow> 'a c_res \<Rightarrow> 'a c_res" where
  "with_lock l x = do { l' \<leftarrow> l; i \<leftarrow> l'; x }"

definition kvserver_get :: "posix \<Rightarrow> kvserver_t \<Rightarrow> string \<Rightarrow> (int \<times> string option \<times> kvserver_t) c_res" where
  "kvserver_get w server key =
     (if length key > MAX_KEYLEN then Some (ERRKEYLEN, None, server)
      else do {
        let lock = kvcache_getlock (sv_cache server) key;
        (success, v, c) \<leftarrow> with_lock lock (kvcache_get (malloc_ok w) (sv_cache server) key);
        if success < 0 then do {
          (success, v) \<leftarrow> kvstore_get w (sv_store server) key;
          if success = 0 then do {
            value \<leftarrow> v;
            (_, c) \<leftarrow> with_lock lock (kvcache_put (malloc_ok w) c key value);
            Some (success, Some value, server\<lparr>sv_cache := c\<rparr>)
          }
          else Some (success, v, server\<lparr>sv_cache := c\<rparr>)
        }
        else Some (success, v, server\<lparr>sv_cache := c\<rparr>)
      })"

definition kvserver_put_check :: "posix \<Rightarrow> kvserver_t \<Rightarrow> string \<Rightarrow> string \<Rightarrow> int" where
  "kvserver_put_check w server key value = kvstore_put_check w (sv_store server) key value"

definition kvserver_put :: "posix \<Rightarrow> kvserver_t \<Rightarrow> string \<Rightarrow> string \<Rightarrow> (int \<times> posix \<times> kvserver_t) c_res" where
  "kvserver_put w server key value =
     (let err = kvserver_put_check w server key value in
      if err < 0 then Some (err, w, server)
      else do {
        (err, w') \<leftarrow> kvstore_put w (sv_store server) key value;
        if err < 0 then Some (err, w', server)
        else do {
          (err, c) \<leftarrow> with_lock (kvcache_getlock (sv_cache server) key)
            (kvcache_put (malloc_ok w') (sv_cache server) key value);
          Some (err, w', server\<lparr>sv_cache := c\<rparr>)
        }
      })"

definition kvserver_del_check :: "posix \<Rightarrow> kvserver_t \<Rightarrow> string \<Rightarrow> int c_res" where
  "kvserver_del_check w server key = kvstore_del_check w (sv_store server) key"

definition kvserver_del :: "posix \<Rightarrow> kvserver_t \<Rightarrow> string \<Rightarrow> (int \<times> posix \<times> kvserver_t) c_res" where
  "kvserver_del w server key = do {
     (_, c) \<leftarrow> with_lock (kvcache_getlock (sv_cache server) key) (kvcache_del (sv_cache server) key);
     (success, w') \<leftarrow> kvstore_del w (sv_store server) key;
     Some (success, w', server\<lparr>sv_cache := c\<rparr>)
   }"

text \<open>Copying a string into an array of \<open>n\<close> bytes.\<close>

definition fits_in :: "nat \<Rightarrow> string \<Rightarrow> string c_res" where
  "fits_in n s = (if length s + 1 \<le> n then Some s else None)"

definition kvserver_get_info_message :: "(nat \<Rightarrow> bool) \<Rightarrow> string \<Rightarrow> kvserver_t \<Rightarrow> string c_res" where
  "kvserver_get_info_message mok time server = do {
     info \<leftarrow> fits_in 1024 time;
     buf \<leftarrow> fits_in 256 (''{'' @ sv_hostname server @ '', '' @ dec_int (sv_port server) @ ''}'');
     info \<leftarrow> fits_in 1024 (info @ buf);
     if mok (length info) then fits_in (length info) info else None
   }"

definition kvserver_handle_tpc :: "kvserver_t \<Rightarrow> kvmessage_t \<Rightarrow> kvmessage_t \<Rightarrow> kvmessage_t" where
  "kvserver_handle_tpc server reqmsg respmsg =
     respmsg\<lparr>m_type := msgtype_int RESP, m_message := Some ERRMSG_NOT_IMPLEMENTED\<rparr>"

definition finish :: "int \<Rightarrow> kvmessage_t \<Rightarrow> kvmessage_t" where
  "finish error respmsg = respmsg\<lparr>m_message := Some (if error = 0 then MSG_SUCCESS else GETMSG error)\<rparr>"

definition kvserver_handle_no_tpc ::
    "posix \<Rightarrow> kvserver_t \<Rightarrow> kvmessage_t \<Rightarrow> kvmessage_t \<Rightarrow> (kvmessage_t \<times> posix \<times> kvserver_t) c_res" where
  "kvserver_handle_no_tpc w server reqmsg respmsg =
     (let resp = respmsg\<lparr>m_type := msgtype_int RESP\<rparr> in
      if m_type reqmsg = msgtype_int GETREQ then do {
        key \<leftarrow> m_key reqmsg;
        (error, v, server') \<leftarrow> kvserver_get w server key;
        if error = 0 then
          (if malloc_ok w 8
           then Some (finish error (resp\<lparr>m_type := msgtype_int GETRESP, m_key := Some key, m_value := v\<rparr>), w, server')
           else None)
        else Some (finish error resp, w, server')
      }
      else if m_type reqmsg = msgtype_int PUTREQ then do {
        key \<leftarrow> m_key reqmsg;
        value \<leftarrow> m_value reqmsg;
        (error, w', server') \<leftarrow> kvserver_put w server key value;
        Some (finish error resp, w', server')
      }
      else if m_type reqmsg = msgtype_int DELREQ then do {
        key \<leftarrow> m_key reqmsg;
        (error, w', server') \<leftarrow> kvserver_del w server key;
        Some (finish error resp, w', server')
      }
      else None)"

definition no_message :: kvmessage_t where
  "no_message = \<lparr>m_type = 0, m_key = None, m_value = None, m_message = None\<rparr>"

definition kvserver_handle :: "(nat \<Rightarrow> bool) \<Rightarrow> char list \<Rightarrow> 'j json_api \<Rightarrow> posix \<Rightarrow> kvserver_t \<Rightarrow> socket
    \<Rightarrow> (posix \<times> kvserver_t \<times> socket) c_res" where
  "kvserver_handle vla_ok behind api w server sock =
     (if \<not> malloc_ok w sizeof_kvmessage_t then None
      else do {
        (reqmsg, sock1) \<leftarrow> kvmessage_parse (malloc_ok w) vla_ok behind api sock;
        (resp, w', server') \<leftarrow> (case reqmsg of
            None \<Rightarrow> Some (no_message\<lparr>m_type := msgtype_int RESP, m_message := Some ERRMSG_INVALID_REQUEST\<rparr>, w, server)
          | Some req \<Rightarrow> if use_tpc server then Some (kvserver_handle_tpc server req no_message, w, server)
              else kvserver_handle_no_tpc w server req no_message);
        Some (w', server', snd (kvmessage_send api resp sock1))
      })"

definition kvserver_rebuild_state :: "kvserver_t \<Rightarrow> int" where
  "kvserver_rebuild_state server = -1"

definition kvserver_clean :: "posix \<Rightarrow> kvserver_t \<Rightarrow> (int \<times> posix) c_res" where
  "kvserver_clean w server = kvstore_clean w (sv_store server)"

subsection \<open>The server as a key-value service\<close>

definition server_ok :: "nat \<Rightarrow> posix \<times> kvserver_t \<Rightarrow> bool" where
  "server_ok n s \<longleftrightarrow> store_ok n (fst s, sv_store (snd s))
     \<and> kvc.coherent (sv_cache (snd s)) (store_map (fst s) (sv_store (snd s)))"

definition server_map :: "posix \<times> kvserver_t \<Rightarrow> string \<Rightarrow> string option" where
  "server_map s = store_map (fst s) (sv_store (snd s))"

definition server_get :: "posix \<times> kvserver_t \<Rightarrow> string \<Rightarrow> (int \<times> string option \<times> posix \<times> kvserver_t) c_res" where
  "server_get s k = do { (r, v, server) \<leftarrow> kvserver_get (fst s) (snd s) k; Some (r, v, fst s, server) }"

definition server_put :: "posix \<times> kvserver_t \<Rightarrow> string \<Rightarrow> string \<Rightarrow> (int \<times> posix \<times> kvserver_t) c_res" where
  "server_put s k v = kvserver_put (fst s) (snd s) k v"

definition server_del :: "posix \<times> kvserver_t \<Rightarrow> string \<Rightarrow> (int \<times> posix \<times> kvserver_t) c_res" where
  "server_del s k = kvserver_del (fst s) (snd s) k"

lemma malloc_total: "os_ok w \<Longrightarrow> malloc_ok w = (\<lambda>_. True)"
  by (simp add: os_ok_def fun_eq_iff)

lemma getlock_coherent:
  assumes "kvc.coherent c m" and "length k \<le> MAX_KEYLEN"
  shows "with_lock (kvcache_getlock c k) x = x"
proof -
  have "cache_inv c" using assms(1) by (simp add: kvc.coherent_def)
  from get_cache_set_inv [OF this, of k] obtain i where "get_cache_set c k = Some i" by metis
  then show ?thesis using assms(2) by (simp add: kvcache_getlock_def with_lock_def)
qed

text \<open>The value a store holds is never longer than the limit, so the cache takes it.\<close>

lemma store_map_valid:
  assumes "store_ok n (w, store)" and "store_map w store k = Some v"
  shows "valid_val v"
proof -
  from assms(1) obtain ch where ok: "os_ok w" and repr: "store_repr w store ch"
    by (auto simp: store_ok_def store_inv_def)
  then have "map_of (ch (hash k)) k = Some v" using assms(2) by (simp add: store_map_eq)
  then have "(k, v) \<in> set (ch (hash k))" by (rule map_of_SomeD)
  then show ?thesis using store_reprD(5) [OF repr, of "hash k"] by (auto simp: chain_repr_def)
qed

lemma kvserver_get_spec:
  assumes "server_ok n (w, server)" and k: "length k \<le> MAX_KEYLEN"
  shows "\<exists>server'. kvserver_get w server k = Some (case server_map (w, server) k of
        None \<Rightarrow> (ERRNOKEY, None, server') | Some v \<Rightarrow> (0, Some v, server'))
    \<and> server_ok n (w, server') \<and> server_map (w, server') = server_map (w, server)
    \<and> use_tpc server' = use_tpc server"
proof -
  let ?m = "store_map w (sv_store server)"
  have ok: "store_ok n (w, sv_store server)" and coh: "kvc.coherent (sv_cache server) ?m"
    using assms(1) by (simp_all add: server_ok_def)
  have os: "malloc_ok w = (\<lambda>_. True)" using ok by (simp add: store_ok_def malloc_total)
  note st = kvstore_get_spec [of w "sv_store server" k] and lk = getlock_coherent [OF coh k]
  have st: "kvstore_get w (sv_store server) k = Some (case ?m k of None \<Rightarrow> (ERRNOKEY, None) | Some v \<Rightarrow> (0, Some v))"
    using st ok k by (simp add: store_ok_def)
  from coh k show ?thesis
  proof (cases rule: kvc.coherent_get)
    case (hit v c')
    then have "kvserver_get w server k = Some (0, Some v, server\<lparr>sv_cache := c'\<rparr>)"
      using k os by (simp add: kvserver_get_def lk Let_def)
    then show ?thesis using hit ok by (simp add: server_ok_def server_map_def)
  next
    case (miss c')
    show ?thesis
    proof (cases "?m k")
      case None
      then have "kvserver_get w server k = Some (ERRNOKEY, None, server\<lparr>sv_cache := c'\<rparr>)"
        using k os miss(1) st by (simp add: kvserver_get_def lk Let_def c_const)
      then show ?thesis using None miss ok by (simp add: server_ok_def server_map_def)
    next
      case (Some v)
      have "length v \<le> MAX_VALLEN" using store_map_valid [OF ok Some] by (simp add: valid_val_def)
      from kvc.coherent_fill [OF miss(2) k this Some] obtain c'' where
        c'': "kvcache_put (\<lambda>_. True) c' k v = Some (0, c'')" "kvc.coherent c'' ?m" by blast
      then have "kvserver_get w server k = Some (0, Some v, server\<lparr>sv_cache := c''\<rparr>)"
        using k os miss(1) st Some by (simp add: kvserver_get_def lk Let_def c_const)
      then show ?thesis using Some c''(2) ok by (simp add: server_ok_def server_map_def)
    qed
  qed
qed

lemma kvserver_put_spec:
  assumes "server_ok n (w, server)" and k: "valid_key k" and v: "valid_val v" and "n < 2147483647"
  shows "\<exists>w' server'. kvserver_put w server k v = Some (0, w', server') \<and> server_ok (Suc n) (w', server')
    \<and> server_map (w', server') = (server_map (w, server))(k \<mapsto> v) \<and> use_tpc server' = use_tpc server"
proof -
  have ok: "store_ok n (w, sv_store server)" and coh: "kvc.coherent (sv_cache server) (store_map w (sv_store server))"
    using assms(1) by (simp_all add: server_ok_def)
  have len: "length k \<le> MAX_KEYLEN" "length v \<le> MAX_VALLEN" using k v by (simp_all add: valid_key_def valid_val_def)
  from kvstore_put_spec [OF ok k v assms(4)] obtain w' where w': "kvstore_put w (sv_store server) k v = Some (0, w')"
    "store_ok (Suc n) (w', sv_store server)" "store_map w' (sv_store server) = (store_map w (sv_store server))(k \<mapsto> v)" by blast
  from kvc.coherent_put [OF coh len] obtain c' where c': "kvcache_put (\<lambda>_. True) (sv_cache server) k v = Some (0, c')"
    "kvc.coherent c' (store_map w' (sv_store server))" using w'(3) by auto
  have "stat_ok w (store_dirname (sv_store server))" using ok store_reprD(3) by (auto simp: store_ok_def store_inv_def)
  then have "kvserver_put w server k v = Some (0, w', server\<lparr>sv_cache := c'\<rparr>)"
    using len w' c'(1) malloc_total [of w']
    by (simp add: getlock_coherent [OF coh len(1)] kvserver_put_def kvserver_put_check_def kvstore_put_check_def store_ok_def)
  then show ?thesis using w' c'(2) by (simp add: server_ok_def server_map_def)
qed

lemma kvserver_del_spec:
  assumes "server_ok n (w, server)" and k: "length k \<le> MAX_KEYLEN"
  shows "\<exists>w' server'. kvserver_del w server k = Some (if server_map (w, server) k = None then ERRNOKEY else 0, w', server')
    \<and> server_ok n (w', server') \<and> server_map (w', server') = (server_map (w, server))(k := None)
    \<and> use_tpc server' = use_tpc server"
proof -
  have ok: "store_ok n (w, sv_store server)" and coh: "kvc.coherent (sv_cache server) (store_map w (sv_store server))"
    using assms(1) by (simp_all add: server_ok_def)
  from kvstore_del_spec [OF ok k] obtain w' where w':
    "kvstore_del w (sv_store server) k = Some (if store_map w (sv_store server) k = None then ERRNOKEY else 0, w')"
    "store_ok n (w', sv_store server)" "store_map w' (sv_store server) = (store_map w (sv_store server))(k := None)" by blast
  from kvc.coherent_del [OF coh k] obtain c' r where c': "kvcache_del (sv_cache server) k = Some (r, c')"
    "kvc.coherent c' (store_map w' (sv_store server))" using w'(3) by auto
  then have "kvserver_del w server k =
      Some (if store_map w (sv_store server) k = None then ERRNOKEY else 0, w', server\<lparr>sv_cache := c'\<rparr>)"
    using w'(1) by (simp add: getlock_coherent [OF coh k] kvserver_del_def)
  then show ?thesis using w' c'(2) by (simp add: server_ok_def server_map_def)
qed

interpretation kvsrv: kv_service server_ok server_map 2147483647 server_get server_put server_del
proof unfold_locales
  fix n s k v
  assume ok: "server_ok n s" and k: "valid_key k"
  obtain w server where s: "s = (w, server)" by force
  have len: "length k \<le> MAX_KEYLEN" using k by (simp add: valid_key_def)
  show "\<exists>s'. server_get s k = Some (case server_map s k of None \<Rightarrow> (ERRNOKEY, None, s') | Some v \<Rightarrow> (0, Some v, s'))
      \<and> server_ok n s' \<and> server_map s' = server_map s"
    using kvserver_get_spec [of n w server k] ok len
    by (cases "server_map (w, server) k") (auto simp: s server_get_def)
  show "\<exists>s'. server_del s k = Some (if server_map s k = None then ERRNOKEY else 0, s') \<and> server_ok n s'
      \<and> server_map s' = (server_map s)(k := None)"
    using kvserver_del_spec [of n w server k] ok len by (auto simp: s server_del_def)
  assume "valid_val v" and "n < 2147483647"
  then show "\<exists>s'. server_put s k v = Some (0, s') \<and> server_ok (Suc n) s' \<and> server_map s' = (server_map s)(k \<mapsto> v)"
    using kvserver_put_spec [of n w server k v] ok k by (auto simp: s server_put_def)
qed

subsection \<open>Requests and responses\<close>

text \<open>The message a client sends for a request, and the one that answers it.\<close>

fun request_of :: "kv_op \<Rightarrow> kvmessage_t" where
  "request_of (Get k) = \<lparr>m_type = msgtype_int GETREQ, m_key = Some k, m_value = None, m_message = None\<rparr>"
| "request_of (Put k v) = \<lparr>m_type = msgtype_int PUTREQ, m_key = Some k, m_value = Some v, m_message = None\<rparr>"
| "request_of (Del k) = \<lparr>m_type = msgtype_int DELREQ, m_key = Some k, m_value = None, m_message = None\<rparr>"

definition resp_msg :: "string \<Rightarrow> kvmessage_t" where
  "resp_msg s = \<lparr>m_type = msgtype_int RESP, m_key = None, m_value = None, m_message = Some s\<rparr>"

fun response_of :: "(string \<Rightarrow> string option) \<Rightarrow> kv_op \<Rightarrow> kvmessage_t" where
  "response_of m (Get k) = (case m k of None \<Rightarrow> resp_msg ERRMSG_NO_KEY
     | Some v \<Rightarrow> \<lparr>m_type = msgtype_int GETRESP, m_key = Some k, m_value = Some v, m_message = Some MSG_SUCCESS\<rparr>)"
| "response_of m (Put k v) = resp_msg MSG_SUCCESS"
| "response_of m (Del k) = resp_msg (if m k = None then ERRMSG_NO_KEY else MSG_SUCCESS)"

lemma GETMSG_ERRNOKEY [simp]: "GETMSG ERRNOKEY = ERRMSG_NO_KEY" "ERRNOKEY \<noteq> 0"
  by (simp_all add: GETMSG_def c_const)

lemma kvserver_handle_no_tpc_spec:
  assumes ok: "server_ok n (w, server)" and op: "op_valid x" and n: "n + puts [x] \<le> 2147483647"
  shows "\<exists>w' server'. kvserver_handle_no_tpc w server (request_of x) no_message =
      Some (response_of (server_map (w, server)) x, w', server')
    \<and> server_ok (n + puts [x]) (w', server') \<and> server_map (w', server') = snd (map_op (server_map (w, server)) x)
    \<and> use_tpc server' = use_tpc server"
proof (cases x)
  case (Get k)
  then have k: "length k \<le> MAX_KEYLEN" using op by (simp add: valid_key_def)
  have "malloc_ok w 8" using ok by (simp add: server_ok_def store_ok_def os_ok_def)
  then show ?thesis
    using kvserver_get_spec [OF ok k] Get
    by (cases "server_map (w, server) k")
      (auto simp: kvserver_handle_no_tpc_def finish_def resp_msg_def no_message_def)
next
  case (Put k v)
  then show ?thesis
    using kvserver_put_spec [OF ok, of k v] op n
    by (auto simp: kvserver_handle_no_tpc_def finish_def resp_msg_def no_message_def)
next
  case (Del k)
  then have k: "length k \<le> MAX_KEYLEN" using op by (simp add: valid_key_def)
  show ?thesis
    using kvserver_del_spec [OF ok k] Del
    by (auto simp: kvserver_handle_no_tpc_def finish_def resp_msg_def no_message_def)
qed

lemma msg_wf_request: "op_valid x \<Longrightarrow> msg_wf (request_of x)"
  by (cases x) (auto simp: msg_wf_iff valid_key_def valid_val_def)

lemma kvmessage_send_out:
  "s_wr sock = [] \<Longrightarrow> snd (kvmessage_send api m sock) = sock\<lparr>s_out := s_out sock
     @ htonl (length (json_text api (kvmessage_json api m))) @ json_text api (kvmessage_json api m)\<rparr>"
  by (simp add: kvmessage_send_def sock_write_def Let_def)

text \<open>A whole exchange: the bytes of a message, and the server's run on them.\<close>

definition wire :: "'j json_api \<Rightarrow> kvmessage_t \<Rightarrow> char list" where
  "wire api m = (let t = json_text api (kvmessage_json api m) in htonl (length t) @ t)"

lemma kvserver_handle_spec:
  assumes laws: "json_laws api" and b: "read_cstr behind = Some t" and ok: "server_ok n (w, server)"
    and x: "op_valid x" "n + puts [x] \<le> 2147483647" and tpc: "\<not> use_tpc server"
    and len: "length (json_text api (kvmessage_json api (request_of x))) < 2147483648"
    and sock: "s_in sock = [Bytes (wire api (request_of x))]" "s_wr sock = []"
  shows "\<exists>w' server'. kvserver_handle (\<lambda>_. True) behind api w server sock =
      Some (w', server', sock\<lparr>s_in := [], s_out := s_out sock @ wire api (response_of (server_map (w, server)) x)\<rparr>)
    \<and> server_ok (n + puts [x]) (w', server') \<and> server_map (w', server') = snd (map_op (server_map (w, server)) x)
    \<and> \<not> use_tpc server'"
proof -
  have os: "malloc_ok w = (\<lambda>_. True)" using ok by (simp add: server_ok_def store_ok_def malloc_total)
  have "kvmessage_parse (\<lambda>_. True) (\<lambda>_. True) behind api sock = Some (Some (request_of x), sock\<lparr>s_in := []\<rparr>)"
    using sock(1) by (intro kvmessage_parse_text [OF laws msg_wf_request [OF x(1)] b _ _ len]) (simp_all add: wire_def Let_def)
  moreover obtain w' server' where
    "kvserver_handle_no_tpc w server (request_of x) no_message = Some (response_of (server_map (w, server)) x, w', server')"
    "server_ok (n + puts [x]) (w', server')" "server_map (w', server') = snd (map_op (server_map (w, server)) x)"
    "use_tpc server' = use_tpc server"
    using kvserver_handle_no_tpc_spec [OF ok x] by blast
  ultimately show ?thesis
    using tpc sock(2) os by (simp add: kvserver_handle_def kvmessage_send_out wire_def Let_def)
qed

subsection \<open>Start-up\<close>

lemma kvserver_init_spec:
  assumes "store_ok n (w, store)" and "nsets \<noteq> 0" and "2 \<le> eps"
  shows "\<exists>server'. kvserver_init w 0 raw (store_dirname store) nsets eps mt host prt False = Some (0, w, server')
    \<and> server_ok n (w, server') \<and> server_map (w, server') = store_map w store \<and> \<not> use_tpc server'"
proof -
  have os: "os_ok w" using assms(1) by (simp add: store_ok_def)
  from kvcache_init_spec [OF assms(2,3), of 0 "malloc_ok w" "sv_cache raw"] os obtain c where
    c: "kvcache_init (malloc_ok w) 0 (sv_cache raw) nsets eps = (0, c)" "cache_inv c" "cache_map c = Map.empty"
    by (auto simp: os_ok_def)
  from kvstore_init_existing [OF assms(1), of "sv_store raw"] obtain store' where
    s: "kvstore_init w (sv_store raw) (store_dirname store) = Some (0, w, store')" "store_ok n (w, store')"
      "store_map w store' = store_map w store" by blast
  then show ?thesis
    using c os by (auto simp: kvserver_init_def server_ok_def server_map_def kvc.coherent_def os_ok_def)
qed

text \<open>A server on an empty directory, for the witnesses.\<close>

definition cache_raw :: kvcache_t where "cache_raw = \<lparr>num_sets = 0, cache_elem_per_set = 0, sets = []\<rparr>"

definition server_d :: kvserver_t where
  "server_d = \<lparr>sv_cache = snd (kvcache_init (\<lambda>_. True) 0 cache_raw 4 4), sv_store = store_d, sv_log = log_d,
     use_tpc = False, sv_max_threads = 2, sv_port = 9000, sv_hostname = ''localhost''\<rparr>"

lemma server_ok_world_0: "server_ok 0 (world_0, server_d)" "server_map (world_0, server_d) = Map.empty"
  using kvcache_init_spec [of 4 4 0 "\<lambda>_. True" cache_raw] store_ok_world_0
  by (auto simp: server_ok_def server_map_def server_d_def kvc.coherent_def)

subsection \<open>Properties\<close>

text \<open>C2. The cache is transparent: a server in a coherent state answers every sequence of valid
  requests exactly as a map does, keeps cache and store coherent, and never runs into
  undefined behaviour.\<close>

theorem kvserver_ops_refine_map:
  assumes "server_ok n (w, server)" and "list_all op_valid ops" and "n + puts ops \<le> 2147483647"
  shows "\<exists>s'. run_ops server_get server_put server_del (w, server) ops = Some (fst (map_ops (server_map (w, server)) ops), s')
    \<and> server_ok (n + puts ops) s' \<and> server_map s' = snd (map_ops (server_map (w, server)) ops)"
  using assms by (rule kvsrv.run_ops_refine)

theorem kvserver_ops_refine_map_witness:
  "\<exists>s'. run_ops server_get server_put server_del (world_0, server_d)
      [Put ''a'' ''1'', Get ''a'', Put ''a'' ''2'', Get ''a'', Del ''a'', Get ''a''] =
      Some ([(0, None), (0, Some ''1''), (0, None), (0, Some ''2''), (0, None), (ERRNOKEY, None)], s')
    \<and> server_ok 2 s' \<and> server_map s' = Map.empty"
  using kvserver_ops_refine_map [OF server_ok_world_0(1),
      of "[Put ''a'' ''1'', Get ''a'', Put ''a'' ''2'', Get ''a'', Del ''a'', Get ''a'']"]
  by (simp add: server_ok_world_0 valid_key_def valid_val_def c_const numeral_2_eq_2 del: run_ops.simps)



text \<open>Requests that break a length limit are refused with the message for it and change
  nothing: a long key in a get or put, a long value in a put.\<close>

lemma kvserver_length_errors:
  assumes "stat_ok w (store_dirname (sv_store server))"
  shows "(length k > MAX_KEYLEN \<longrightarrow>
      kvserver_handle_no_tpc w server (request_of (Get k)) no_message = Some (resp_msg ERRMSG_KEY_LEN, w, server)
      \<and> kvserver_handle_no_tpc w server (request_of (Put k v)) no_message = Some (resp_msg ERRMSG_KEY_LEN, w, server))
    \<and> (length k \<le> MAX_KEYLEN \<longrightarrow> length v > MAX_VALLEN \<longrightarrow>
      kvserver_handle_no_tpc w server (request_of (Put k v)) no_message = Some (resp_msg ERRMSG_VAL_LEN, w, server))"
  by (simp add: kvserver_handle_no_tpc_def kvserver_get_def kvserver_put_def kvserver_put_check_def kvstore_put_check_def
      finish_def resp_msg_def no_message_def GETMSG_def c_const)

text \<open>A delete request for a key longer than the limit is undefined behaviour in every state
  of the server: the lock of the key is the null pointer and \<open>kvserver_del\<close> takes it
  without a check, where get and put refuse the key.\<close>

lemma kvserver_del_long_key:
  assumes "length k > MAX_KEYLEN"
  shows "kvserver_handle_no_tpc w server (request_of (Del k)) resp = None"
  using assms by (simp add: kvserver_handle_no_tpc_def kvserver_del_def kvcache_getlock_def with_lock_def)

end
