(* ===== verification/TpcMaster.thy ===== *)
theory TpcMaster
  imports KvCache KvMessage
begin

text \<open>
  The two-phase-commit master, \<^verbatim>\<open>tpcmaster.c\<close>: registration of slaves in a linked list that is
  meant to be sorted by id, and the choice of the slaves of a key on it. Slaves are heap
  objects (\<open>ms_mem\<close>) linked by \<open>sl_next\<close> and \<open>sl_prev\<close>; the walks along the list are
  given as many steps as there are objects, enough for every list without a cycle
  (\<open>slave_walk_list\<close>, \<open>primary_walk_list\<close>); running out of steps, a null dereference
  and a failed allocation are \<open>None\<close>. The get and two-phase-commit handlers are the stubs of the
  source.

  Ids are 64-bit signed numbers. \<open>hash_64_bit\<close> overflows them; the model wraps around, as the
  compiled code does.
\<close>

subsection \<open>Model\<close>

type_synonym sref = nat

record tpcslave_t =
  sl_id :: int
  sl_host :: string
  sl_port :: u32
  sl_next :: "sref option"
  sl_prev :: "sref option"

record tpcmaster_t =
  slave_capacity :: u32
  slave_count :: u32
  redundancy :: u32
  slaves_head :: "sref option"
  ms_cache :: kvcache_t
  ms_mem :: "sref \<Rightarrow> tpcslave_t option"
  ms_brk :: sref

definition tpcmaster_init :: "(nat \<Rightarrow> bool) \<Rightarrow> int \<Rightarrow> tpcmaster_t \<Rightarrow> u32 \<Rightarrow> u32 \<Rightarrow> u32 \<Rightarrow> u32 \<Rightarrow> int \<times> tpcmaster_t" where
  "tpcmaster_init mok lockret master cap red nsets eps =
     (let (ret, c) = kvcache_init mok lockret (ms_cache master) nsets eps;
          m1 = master\<lparr>ms_cache := c\<rparr> in
      if ret < 0 then (ret, m1)
      else if lockret < 0 then (lockret, m1)
      else (0, m1\<lparr>slave_count := 0, slave_capacity := cap,
        redundancy := if red > cap then cap else red, slaves_head := None\<rparr>))"

definition wrap64 :: "int \<Rightarrow> int" where
  "wrap64 n = (n + 9223372036854775808) mod 18446744073709551616 - 9223372036854775808"

fun hash_64_loop :: "int \<Rightarrow> string \<Rightarrow> int" where
  "hash_64_loop h [] = h"
| "hash_64_loop h (c # s) = hash_64_loop (wrap64 (31 * h + schar c)) s"

definition hash_64_bit :: "string \<Rightarrow> int" where
  "hash_64_bit s = hash_64_loop 1125899906842597 s"

text \<open>\<open>atoi\<close>: white space, an optional sign, digits; the digits are read as a \<open>long\<close>, clamped to
  its range, and the result is cut to an \<open>unsigned int\<close> by the assignment to \<open>port\<close>.\<close>

definition is_space :: "char \<Rightarrow> bool" where
  "is_space c = (c = CHR '' '' \<or> (9 \<le> (of_char c :: nat) \<and> (of_char c :: nat) \<le> 13))"

definition atoi :: "string \<Rightarrow> int" where
  "atoi str =
     (let s = dropWhile is_space str;
          (neg, ds) = (case s of c # r \<Rightarrow> if c = CHR ''-'' then (True, r) else if c = CHR ''+'' then (False, r) else (False, s)
             | [] \<Rightarrow> (False, []));
          n = int (undec (takeWhile is_digit ds))
      in if neg then max (- n) (-9223372036854775808) else min n 9223372036854775807)"

text \<open>The walk to the place of insertion: the loop \<open>while (current->next != NULL && current->id <
  idhash)\<close>, with the flag \<open>already_exists\<close>.\<close>

fun slave_walk :: "nat \<Rightarrow> (sref \<Rightarrow> tpcslave_t option) \<Rightarrow> int \<Rightarrow> sref \<Rightarrow> bool \<Rightarrow> (sref \<times> bool) c_res" where
  "slave_walk 0 mem idhash current exists = None"
| "slave_walk (Suc fuel) mem idhash current exists = do {
     s \<leftarrow> mem current;
     case sl_next s of
       None \<Rightarrow> Some (current, exists)
     | Some n \<Rightarrow>
         if sl_id s < idhash then do {
           s' \<leftarrow> mem n;
           slave_walk fuel mem idhash n (exists \<or> sl_id s' = idhash)
         }
         else Some (current, exists)
   }"

text \<open>Linking \<open>newslave\<close> behind \<open>current\<close>.\<close>

definition link_after :: "(sref \<Rightarrow> tpcslave_t option) \<Rightarrow> sref \<Rightarrow> sref \<Rightarrow> (sref \<Rightarrow> tpcslave_t option) c_res" where
  "link_after mem current new = do {
     s \<leftarrow> mem current;
     x \<leftarrow> mem new;
     mem1 \<leftarrow> (case sl_next s of
         None \<Rightarrow> Some mem
       | Some n \<Rightarrow> do {
           s' \<leftarrow> mem n;
           Some (mem(new \<mapsto> x\<lparr>sl_next := Some n\<rparr>, n \<mapsto> s'\<lparr>sl_prev := Some new\<rparr>))
         });
     s1 \<leftarrow> mem1 current;
     x1 \<leftarrow> mem1 new;
     Some (mem1(current \<mapsto> s1\<lparr>sl_next := Some new\<rparr>, new \<mapsto> x1\<lparr>sl_prev := Some current\<rparr>))
   }"

definition sizeof_tpcslave_t :: nat where [c_const]: "sizeof_tpcslave_t = 40"

text \<open>The object for a new slave, and the part of \<open>tpcmaster_register\<close> under the lock when there
  is capacity left.\<close>

definition new_slave :: "int \<Rightarrow> string \<Rightarrow> u32 \<Rightarrow> tpcslave_t" where
  "new_slave idhash host port = \<lparr>sl_id = idhash, sl_host = host, sl_port = port, sl_next = None, sl_prev = None\<rparr>"

definition alloc_slave :: "tpcmaster_t \<Rightarrow> tpcslave_t \<Rightarrow> tpcmaster_t" where
  "alloc_slave master s = master\<lparr>ms_mem := (ms_mem master)(ms_brk master \<mapsto> s), ms_brk := Suc (ms_brk master)\<rparr>"

definition counted :: "tpcmaster_t \<Rightarrow> tpcmaster_t" where
  "counted m = m\<lparr>slave_count := slave_count m + 1\<rparr>"

definition add_slave :: "tpcmaster_t \<Rightarrow> tpcslave_t \<Rightarrow> tpcmaster_t c_res" where
  "add_slave master newslave =
     (let new = ms_brk master; m1 = alloc_slave master newslave; mem = ms_mem m1; idhash = sl_id newslave in
      case slaves_head master of
        None \<Rightarrow> Some (counted (m1\<lparr>slaves_head := Some new\<rparr>))
      | Some h \<Rightarrow> do {
          hs \<leftarrow> mem h;
          x \<leftarrow> mem new;
          if idhash < sl_id hs then
            Some (counted (m1\<lparr>slaves_head := Some new,
              ms_mem := mem(new \<mapsto> x\<lparr>sl_next := Some h\<rparr>, h \<mapsto> hs\<lparr>sl_prev := Some new\<rparr>)\<rparr>))
          else do {
            (current, exists) \<leftarrow> slave_walk (Suc new) mem idhash h (sl_id hs = idhash);
            if exists then Some m1
            else do { mem' \<leftarrow> link_after mem current new; Some (counted (m1\<lparr>ms_mem := mem'\<rparr>)) }
          }
        })"

definition tpcmaster_register :: "(nat \<Rightarrow> bool) \<Rightarrow> tpcmaster_t \<Rightarrow> kvmessage_t \<Rightarrow> kvmessage_t \<Rightarrow> (tpcmaster_t \<times> kvmessage_t) c_res" where
  "tpcmaster_register mok master reqmsg respmsg = do {
     key \<leftarrow> m_key reqmsg;
     value \<leftarrow> m_value reqmsg;
     if \<not> mok (length key + 1) \<or> \<not> mok (length key + length value + 2) then None
     else do {
       let port = (of_int (atoi value) :: u32);
       let idhash = hash_64_bit (value @ '':'' @ key);
       if slave_count master < slave_capacity master then
         if \<not> mok sizeof_tpcslave_t then None
         else do {
           master' \<leftarrow> add_slave master (new_slave idhash key port);
           Some (master', respmsg\<lparr>m_type := msgtype_int RESP, m_key := None, m_value := None, m_message := Some MSG_SUCCESS\<rparr>)
         }
       else Some (master, respmsg\<lparr>m_message := Some ERRMSG_GENERIC_ERROR\<rparr>)
     }
   }"

fun primary_walk :: "nat \<Rightarrow> (sref \<Rightarrow> tpcslave_t option) \<Rightarrow> int \<Rightarrow> sref \<Rightarrow> sref c_res" where
  "primary_walk 0 mem keyhash current = None"
| "primary_walk (Suc fuel) mem keyhash current = do {
     s \<leftarrow> mem current;
     case sl_next s of
       None \<Rightarrow> Some current
     | Some n \<Rightarrow> if sl_id s \<le> keyhash then primary_walk fuel mem keyhash n else Some current
   }"

definition tpcmaster_get_primary :: "tpcmaster_t \<Rightarrow> string \<Rightarrow> sref c_res" where
  "tpcmaster_get_primary master key = do {
     let keyhash = hash_64_bit key;
     h \<leftarrow> slaves_head master;
     current \<leftarrow> primary_walk (Suc (ms_brk master)) (ms_mem master) keyhash h;
     s \<leftarrow> ms_mem master current;
     if sl_next s \<noteq> None then Some current
     else if sl_id s \<le> keyhash then slaves_head master
     else Some current
   }"

definition tpcmaster_get_successor :: "tpcmaster_t \<Rightarrow> sref \<Rightarrow> sref option c_res" where
  "tpcmaster_get_successor master predecessor = do {
     s \<leftarrow> ms_mem master predecessor;
     Some (if sl_next s \<noteq> None then sl_next s else slaves_head master)
   }"

definition tpcmaster_handle_get :: "kvmessage_t \<Rightarrow> kvmessage_t" where
  "tpcmaster_handle_get respmsg = respmsg\<lparr>m_message := Some ERRMSG_NOT_IMPLEMENTED\<rparr>"

definition tpcmaster_handle_tpc :: "kvmessage_t \<Rightarrow> kvmessage_t" where
  "tpcmaster_handle_tpc respmsg = respmsg\<lparr>m_message := Some ERRMSG_NOT_IMPLEMENTED\<rparr>"

definition tpcmaster_info :: "kvmessage_t \<Rightarrow> kvmessage_t" where
  "tpcmaster_info respmsg = respmsg\<lparr>m_message := Some ERRMSG_NOT_IMPLEMENTED\<rparr>"

text \<open>\<open>usable n\<close> is the number of bytes an allocation of \<open>n\<close> bytes really provides: \<open>n\<close> by the
  letter of the standard, more with most allocators. The handler copies the key into a buffer
  allocated without room for the terminator.\<close>

definition tpcmaster_handle :: "(nat \<Rightarrow> bool) \<Rightarrow> (nat \<Rightarrow> bool) \<Rightarrow> (nat \<Rightarrow> nat) \<Rightarrow> char list \<Rightarrow> 'j json_api \<Rightarrow> tpcmaster_t \<Rightarrow> socket
    \<Rightarrow> (tpcmaster_t \<times> socket) c_res" where
  "tpcmaster_handle mok vla_ok usable behind api master sock = do {
     (reqmsg, sock1) \<leftarrow> kvmessage_parse mok vla_ok behind api sock;
     req \<leftarrow> reqmsg;
     let resp = \<lparr>m_type = msgtype_int RESP, m_key = None, m_value = None, m_message = None\<rparr>;
     resp \<leftarrow> (case m_key req of
         None \<Rightarrow> Some resp
       | Some k \<Rightarrow> if mok (length k) \<and> length k + 1 \<le> usable (length k) then Some (resp\<lparr>m_key := Some k\<rparr>) else None);
     (master', resp') \<leftarrow>
       (if m_type req = msgtype_int INFO then Some (master, tpcmaster_info resp)
        else if m_key req = None then Some (master, resp\<lparr>m_message := Some ERRMSG_INVALID_REQUEST\<rparr>)
        else if m_type req = msgtype_int REGISTER then tpcmaster_register mok master req resp
        else if m_type req = msgtype_int GETREQ then Some (master, tpcmaster_handle_get resp)
        else Some (master, tpcmaster_handle_tpc resp));
     Some (master', snd (kvmessage_send api resp' sock1))
   }"

definition tpcmaster_clear_cache :: "tpcmaster_t \<Rightarrow> tpcmaster_t c_res" where
  "tpcmaster_clear_cache master = do { c \<leftarrow> kvcache_clear (ms_cache master); Some (master\<lparr>ms_cache := c\<rparr>) }"

subsection \<open>Linked lists of slaves\<close>

text \<open>\<open>seg mem p xs n\<close>: the objects \<open>xs\<close> are linked in this order, the first one's predecessor is
  \<open>p\<close>, the last one's successor is \<open>n\<close>.\<close>

definition first :: "'a list \<Rightarrow> 'a option \<Rightarrow> 'a option" where
  "first xs n = (case xs of [] \<Rightarrow> n | x # _ \<Rightarrow> Some x)"

lemma first_simps [simp]: "first [] n = n" "first (x # xs) n = Some x"
  by (simp_all add: first_def)

fun seg :: "(sref \<Rightarrow> tpcslave_t option) \<Rightarrow> sref option \<Rightarrow> sref list \<Rightarrow> sref option \<Rightarrow> bool" where
  "seg mem p [] n = True"
| "seg mem p (x # xs) n \<longleftrightarrow> (\<exists>s. mem x = Some s \<and> sl_prev s = p \<and> sl_next s = first xs n \<and> seg mem (Some x) xs n)"

lemma seg_append:
  "seg mem p (xs @ ys) n \<longleftrightarrow> seg mem p xs (first ys n) \<and> seg mem (if xs = [] then p else Some (last xs)) ys n"
proof (induction xs arbitrary: p)
  case (Cons x xs)
  have "first (xs @ ys) n = first xs (first ys n)" by (cases xs) simp_all
  with Cons show ?case by simp blast
qed simp

lemma seg_cong: "\<forall>a \<in> set xs. mem' a = mem a \<Longrightarrow> seg mem' p xs n \<longleftrightarrow> seg mem p xs n"
  by (induction xs arbitrary: p) auto

lemma seg_mem: "seg mem p xs n \<Longrightarrow> a \<in> set xs \<Longrightarrow> \<exists>s. mem a = Some s"
  by (induction xs arbitrary: p) auto

text \<open>What a slave object says about a slave.\<close>

type_synonym slave = "int \<times> string \<times> u32"

definition slave_info :: "(sref \<Rightarrow> tpcslave_t option) \<Rightarrow> sref \<Rightarrow> slave" where
  "slave_info mem a = (let s = the (mem a) in (sl_id s, sl_host s, sl_port s))"

lemma slave_walk_list:
  assumes "seg mem p (x # xs) None" and "length xs < fuel" and "e \<longleftrightarrow> fst (slave_info mem x) = idhash"
  shows "\<exists>pre c post. x # xs = pre @ c # post
    \<and> slave_walk fuel mem idhash x e = Some (c, fst (slave_info mem c) = idhash)
    \<and> (\<forall>a \<in> set pre. fst (slave_info mem a) < idhash) \<and> (post = [] \<or> idhash \<le> fst (slave_info mem c))"
  using assms
proof (induction xs arbitrary: p x fuel e)
  case Nil
  then obtain f s where "fuel = Suc f" "mem x = Some s" "sl_next s = None" by (cases fuel) auto
  then show ?case using Nil.prems(3) by (intro exI [of _ "[]"] exI [of _ x]) simp
next
  case (Cons y ys)
  then obtain f s s' where s: "fuel = Suc f" "mem x = Some s" "sl_next s = Some y" "mem y = Some s'"
    "seg mem (Some x) (y # ys) None" by (cases fuel) auto
  have x: "fst (slave_info mem x) = sl_id s" and y: "fst (slave_info mem y) = sl_id s'"
    using s by (simp_all add: slave_info_def)
  show ?case
  proof (cases "sl_id s < idhash")
    case True
    then have walk: "slave_walk fuel mem idhash x e = slave_walk f mem idhash y (sl_id s' = idhash)"
      using s Cons.prems(3) x by simp
    from Cons.IH [OF s(5), of f "sl_id s' = idhash"] Cons.prems(2) s(1) y obtain pre c post where
      "y # ys = pre @ c # post" "slave_walk f mem idhash y (sl_id s' = idhash) = Some (c, fst (slave_info mem c) = idhash)"
      "\<forall>a \<in> set pre. fst (slave_info mem a) < idhash" "post = [] \<or> idhash \<le> fst (slave_info mem c)" by auto
    then show ?thesis using walk True x by (intro exI [of _ "x # pre"] exI [of _ c] exI [of _ post]) simp
  next
    case False
    then show ?thesis using s Cons.prems(3) x by (intro exI [of _ "[]"] exI [of _ x] exI [of _ "y # ys"]) simp
  qed
qed

text \<open>Insertion at the head, and behind an element.\<close>

lemma seg_prev:
  assumes "seg mem p (h # xs) n" and "mem h = Some s" and "h \<notin> set xs"
  shows "seg (mem(h \<mapsto> s\<lparr>sl_prev := q\<rparr>)) q (h # xs) n"
  using assms seg_cong [of xs "mem(h \<mapsto> s\<lparr>sl_prev := q\<rparr>)" mem] by auto

lemma seg_next:
  assumes "seg mem p (xs @ [c]) n" and "mem c = Some s" and "c \<notin> set xs"
  shows "seg (mem(c \<mapsto> s\<lparr>sl_next := n'\<rparr>)) p (xs @ [c]) n'"
  using assms seg_cong [of xs "mem(c \<mapsto> s\<lparr>sl_next := n'\<rparr>)" mem] by (auto simp: seg_append)

lemma link_after_seg:
  assumes seg: "seg mem None (pre @ c # post) None" and d: "distinct (new # pre @ c # post)"
    and x: "mem new = Some x" "sl_next x = None"
  shows "\<exists>mem'. link_after mem c new = Some mem' \<and> seg mem' None (pre @ c # new # post) None
    \<and> (\<forall>a. slave_info mem' a = slave_info mem a)"
proof -
  obtain s where s: "mem c = Some s" "sl_next s = first post None" using seg by (auto simp: seg_append)
  have pre: "seg mem None (pre @ [c]) (first post None)" using seg_append [of mem None "pre @ [c]" post None] seg by simp
  define mem1 where "mem1 = mem(c \<mapsto> s\<lparr>sl_next := Some new\<rparr>)"
  have pre1: "seg mem1 None (pre @ [c]) (Some new)" using seg_next [OF pre s(1)] d by (simp add: mem1_def)
  show ?thesis
  proof (cases post)
    case Nil
    let ?m = "mem1(new \<mapsto> x\<lparr>sl_prev := Some c\<rparr>)"
    have "link_after mem c new = Some ?m"
      using Nil s x by (simp add: link_after_def mem1_def)
    moreover have "seg ?m None (pre @ [c]) (Some new)" using pre1 d by (subst seg_cong [of _ _ mem1]) auto
    ultimately show ?thesis
      using Nil x s(1) seg_append [of ?m None "pre @ [c]" "[new]" None]
      by (auto simp: slave_info_def mem1_def)
  next
    case (Cons n ps)
    obtain t where t: "mem n = Some t" "seg mem (Some c) (n # ps) None" using seg Cons by (auto simp: seg_append)
    let ?m = "mem1(n \<mapsto> t\<lparr>sl_prev := Some new\<rparr>, new \<mapsto> x\<lparr>sl_next := Some n, sl_prev := Some c\<rparr>)"
    have "mem(new \<mapsto> x\<lparr>sl_next := Some n\<rparr>, n \<mapsto> t\<lparr>sl_prev := Some new\<rparr>, c \<mapsto> s\<lparr>sl_next := Some new\<rparr>,
        new \<mapsto> x\<lparr>sl_next := Some n, sl_prev := Some c\<rparr>) = ?m"
      using d Cons by (auto simp: mem1_def fun_eq_iff)
    then have link: "link_after mem c new = Some ?m"
      using Cons s x t(1) d by (simp add: link_after_def)
    have 1: "seg ?m None (pre @ [c]) (Some new)" using pre1 d Cons by (subst seg_cong [of _ _ mem1]) auto
    have "seg (mem(n \<mapsto> t\<lparr>sl_prev := Some new\<rparr>)) (Some new) (n # ps) None" using seg_prev [OF t(2,1)] d Cons by simp
    then have 2: "seg ?m (Some new) (n # ps) None"
      using d Cons by (subst seg_cong [of _ _ "mem(n \<mapsto> t\<lparr>sl_prev := Some new\<rparr>)"]) (auto simp: mem1_def)
    have "seg ?m None ((pre @ [c]) @ new # n # ps) None"
      using 1 2 by (subst seg_append) (simp del: fun_upd_apply, simp)
    then have "seg ?m None (pre @ c # new # post) None" using Cons by simp
    moreover have "slave_info ?m a = slave_info mem a" for a
      using x s(1) t(1) by (simp add: slave_info_def mem1_def)
    ultimately show ?thesis using link by blast
  qed
qed

subsection \<open>Registration on lists\<close>

text \<open>What the code does to the list of slaves: insertion in front of the first slave when the id is
  smaller, otherwise behind the first slave whose id is not smaller, or at the end.\<close>

fun walk_insert :: "slave \<Rightarrow> slave list \<Rightarrow> slave list" where
  "walk_insert x [] = [x]"
| "walk_insert x [y] = (if fst y = fst x then [y] else [y, x])"
| "walk_insert x (y # z # zs) = (if fst y < fst x then y # walk_insert x (z # zs)
     else if fst y = fst x then y # z # zs else y # x # z # zs)"

definition reg_insert :: "slave \<Rightarrow> slave list \<Rightarrow> slave list" where
  "reg_insert x ys = (case ys of [] \<Rightarrow> [x] | y # _ \<Rightarrow> if fst x < fst y then x # ys else walk_insert x ys)"

lemma walk_insert_split:
  "\<forall>a \<in> set pre. fst a < fst x \<Longrightarrow> post = [] \<or> fst x \<le> fst c \<Longrightarrow>
    walk_insert x (pre @ c # post) = (if fst c = fst x then pre @ c # post else pre @ c # x # post)"
proof (induction pre)
  case Nil
  then show ?case by (cases post) auto
next
  case (Cons a pre)
  then obtain z zs where "pre @ c # post = z # zs" by (cases pre) auto
  with Cons show ?case by auto
qed

definition master_repr :: "tpcmaster_t \<Rightarrow> sref list \<Rightarrow> bool" where
  "master_repr m xs \<longleftrightarrow> distinct xs \<and> seg (ms_mem m) None xs None \<and> slaves_head m = hd_opt xs
     \<and> (\<forall>a \<in> set xs. a < ms_brk m) \<and> unat (slave_count m) = length xs \<and> slave_count m \<le> slave_capacity m"

definition slaves_of :: "tpcmaster_t \<Rightarrow> sref list \<Rightarrow> slave list" where
  "slaves_of m xs = map (slave_info (ms_mem m)) xs"

lemma master_repr_length:
  assumes "master_repr m xs" shows "length xs \<le> ms_brk m"
proof -
  have "set xs \<subseteq> {..<ms_brk m}" using assms by (auto simp: master_repr_def)
  then have "card (set xs) \<le> ms_brk m" using card_mono [of "{..<ms_brk m}"] by simp
  then show ?thesis using assms by (simp add: master_repr_def distinct_card)
qed

lemma counted_repr:
  assumes "distinct xs" and "seg (ms_mem m) None xs None" and "slaves_head m = hd_opt xs"
    and "\<forall>a \<in> set xs. a < ms_brk m" and "Suc (unat (slave_count m)) = length xs" and "slave_count m < slave_capacity m"
  shows "master_repr (counted m) xs" and "slaves_of (counted m) xs = slaves_of m xs"
  using assms by (simp_all add: master_repr_def counted_def slaves_of_def unat_Suc_less inc_le)

lemma alloc_slave_facts:
  assumes "master_repr m xs" and "x = new_slave idhash host port"
  defines "mem \<equiv> ms_mem (alloc_slave m x)" and "new \<equiv> ms_brk m"
  shows "seg mem None xs None" "new \<notin> set xs" "map (slave_info mem) xs = slaves_of m xs"
    "slave_info mem new = (idhash, host, port)" "mem new = Some x"
proof -
  show fresh: "new \<notin> set xs" using assms by (auto simp: master_repr_def)
  then show "seg mem None xs None"
    using assms(1) by (subst seg_cong [of _ _ "ms_mem m"]) (auto simp: mem_def new_def alloc_slave_def master_repr_def)
  show "map (slave_info mem) xs = slaves_of m xs"
    using fresh by (auto simp: slaves_of_def slave_info_def mem_def new_def alloc_slave_def)
  show "slave_info mem new = (idhash, host, port)" "mem new = Some x"
    using assms(2) by (simp_all add: slave_info_def mem_def new_def alloc_slave_def new_slave_def)
qed

lemma add_slave_front:
  assumes repr: "master_repr m (h # hs)" and cap: "slave_count m < slave_capacity m"
    and x: "x = new_slave idhash host port" and lt: "idhash < fst (slave_info (ms_mem m) h)"
  shows "\<exists>m'. add_slave m x = Some m' \<and> master_repr m' (ms_brk m # h # hs)
    \<and> slaves_of m' (ms_brk m # h # hs) = (idhash, host, port) # slaves_of m (h # hs)
    \<and> slave_capacity m' = slave_capacity m"
proof -
  let ?new = "ms_brk m" and ?m1 = "alloc_slave m x"
  note F = alloc_slave_facts [OF repr x]
  obtain s where s: "ms_mem ?m1 h = Some s" using F(1) by auto
  let ?mem = "(ms_mem ?m1)(?new \<mapsto> x\<lparr>sl_next := Some h\<rparr>, h \<mapsto> s\<lparr>sl_prev := Some ?new\<rparr>)"
  let ?m = "?m1\<lparr>slaves_head := Some ?new, ms_mem := ?mem\<rparr>"
  have d: "distinct (h # hs)" "slaves_head m = Some h" "\<forall>a \<in> set (h # hs). a < ?new" "unat (slave_count m) = Suc (length hs)"
    using repr by (simp_all add: master_repr_def)
  have "slave_info (ms_mem ?m1) h = slave_info (ms_mem m) h" using F(3) by (simp add: slaves_of_def)
  moreover have "fst (slave_info (ms_mem ?m1) h) = sl_id s" using s by (simp add: slave_info_def)
  ultimately have "idhash < sl_id s" using lt by simp
  then have add: "add_slave m x = Some (counted ?m)"
    using d(2) s F(5) x by (simp add: add_slave_def Let_def new_slave_def)
  have "seg ?mem (Some ?new) (h # hs) None"
    using seg_prev [OF F(1) s] d(1) F(2) by (subst seg_cong [of _ _ "(ms_mem ?m1)(h \<mapsto> s\<lparr>sl_prev := Some ?new\<rparr>)"]) auto
  then have "seg ?mem None (?new # h # hs) None" using F(2) x by (simp add: new_slave_def)
  then have "master_repr (counted ?m) (?new # h # hs)" "slaves_of (counted ?m) (?new # h # hs) = slaves_of ?m (?new # h # hs)"
    using counted_repr [of "?new # h # hs" ?m] d F(2) cap by (simp_all add: alloc_slave_def less_Suc_eq)
  moreover have "slave_info ?mem a = slave_info (ms_mem ?m1) a" for a
    using F(2,5) s by (simp add: slave_info_def)
  then have "slaves_of ?m (?new # h # hs) = (idhash, host, port) # slaves_of m (h # hs)"
    using F(3,4) by (simp add: slaves_of_def)
  ultimately show ?thesis using add by (auto simp: counted_def alloc_slave_def)
qed

lemma add_slave_walk:
  assumes repr: "master_repr m (h # hs)" and cap: "slave_count m < slave_capacity m"
    and x: "x = new_slave idhash host port" and ge: "\<not> idhash < fst (slave_info (ms_mem m) h)"
  shows "\<exists>m' xs'. add_slave m x = Some m' \<and> master_repr m' xs'
    \<and> slaves_of m' xs' = walk_insert (idhash, host, port) (slaves_of m (h # hs))
    \<and> slave_capacity m' = slave_capacity m"
proof -
  let ?new = "ms_brk m" and ?m1 = "alloc_slave m x"
  let ?mem = "ms_mem ?m1"
  note F = alloc_slave_facts [OF repr x]
  obtain s where s: "?mem h = Some s" using F(1) by auto
  have d: "distinct (h # hs)" "slaves_head m = Some h" "\<forall>a \<in> set (h # hs). a < ?new" "unat (slave_count m) = Suc (length hs)"
    using repr by (simp_all add: master_repr_def)
  have h: "slave_info ?mem h = slave_info (ms_mem m) h" using F(3) by (simp add: slaves_of_def)
  have hid: "fst (slave_info ?mem h) = sl_id s" using s by (simp add: slave_info_def)
  have "length hs < Suc ?new" using master_repr_length [OF repr] by simp
  with slave_walk_list [OF F(1), of "Suc ?new" "sl_id s = idhash" idhash] hid obtain pre c post where w: "h # hs = pre @ c # post"
    "slave_walk (Suc ?new) ?mem idhash h (sl_id s = idhash) = Some (c, fst (slave_info ?mem c) = idhash)"
    "\<forall>a \<in> set pre. fst (slave_info ?mem a) < idhash" "post = [] \<or> idhash \<le> fst (slave_info ?mem c)"
    by auto
  have "\<not> idhash < sl_id s" using ge h hid by simp
  then have add: "add_slave m x = (if fst (slave_info ?mem c) = idhash then Some ?m1
      else do { mem' \<leftarrow> link_after ?mem c ?new; Some (counted (?m1\<lparr>ms_mem := mem'\<rparr>)) })"
    using d(2) s F(5) x w(2) by (simp add: add_slave_def Let_def new_slave_def)
  have ins: "walk_insert (idhash, host, port) (slaves_of m (h # hs)) =
      (if fst (slave_info ?mem c) = idhash then slaves_of m (h # hs) else map (slave_info ?mem) (pre @ c # ?new # post))"
    using walk_insert_split [of "map (slave_info ?mem) pre" "(idhash, host, port)" "map (slave_info ?mem) post" "slave_info ?mem c"]
      w(1,3,4) F(3,4) by simp
  show ?thesis
  proof (cases "fst (slave_info ?mem c) = idhash")
    case True
    have "master_repr ?m1 (h # hs)" using repr F(1) by (auto simp: master_repr_def alloc_slave_def)
    moreover have "slaves_of ?m1 (h # hs) = slaves_of m (h # hs)" using F(3) by (simp add: slaves_of_def)
    ultimately show ?thesis using True add ins by (auto simp: alloc_slave_def)
  next
    case False
    have "distinct (?new # pre @ c # post)" using d(1) F(2) w(1) by simp
    then obtain mem' where mem': "link_after ?mem c ?new = Some mem'" "seg mem' None (pre @ c # ?new # post) None"
      "\<forall>a. slave_info mem' a = slave_info ?mem a"
      using link_after_seg [of ?mem pre c post ?new x] F(1,5) w(1) x by (auto simp: new_slave_def)
    let ?m = "?m1\<lparr>ms_mem := mem'\<rparr>" and ?ys = "pre @ c # ?new # post"
    have "slaves_head ?m = hd_opt ?ys" using d(2) w(1) by (cases pre) (auto simp: alloc_slave_def)
    moreover have "\<forall>a \<in> set ?ys. a < ms_brk ?m" using d(3) unfolding w(1) by (auto simp: alloc_slave_def less_Suc_eq)
    moreover have "Suc (unat (slave_count ?m)) = length ?ys"
      using d(4) arg_cong [OF w(1), of length] by (simp add: alloc_slave_def)
    moreover have "distinct ?ys" using d(1) F(2) unfolding w(1) by auto
    ultimately have "master_repr (counted ?m) ?ys" "slaves_of (counted ?m) ?ys = slaves_of ?m ?ys"
      using counted_repr [of ?ys ?m] mem'(2) cap by (simp_all add: alloc_slave_def)
    moreover have "slaves_of ?m ?ys = map (slave_info ?mem) ?ys" using mem'(3) by (simp add: slaves_of_def)
    ultimately show ?thesis using False add ins mem'(1) by (auto simp: counted_def alloc_slave_def)
  qed
qed

lemma add_slave_spec:
  assumes repr: "master_repr m xs" and cap: "slave_count m < slave_capacity m" and x: "x = new_slave idhash host port"
  shows "\<exists>m' xs'. add_slave m x = Some m' \<and> master_repr m' xs'
    \<and> slaves_of m' xs' = reg_insert (idhash, host, port) (slaves_of m xs) \<and> slave_capacity m' = slave_capacity m"
proof (cases xs)
  case Nil
  let ?m = "(alloc_slave m x)\<lparr>slaves_head := Some (ms_brk m)\<rparr>"
  note F = alloc_slave_facts [OF repr x]
  have "add_slave m x = Some (counted ?m)" using repr Nil by (simp add: add_slave_def Let_def master_repr_def)
  moreover have "master_repr (counted ?m) [ms_brk m]" "slaves_of (counted ?m) [ms_brk m] = slaves_of ?m [ms_brk m]"
    using counted_repr [of "[ms_brk m]" ?m] repr cap x F(5) Nil
    by (simp_all add: master_repr_def alloc_slave_def new_slave_def)
  moreover have "slaves_of ?m [ms_brk m] = [(idhash, host, port)]" using F(4) by (simp add: slaves_of_def)
  ultimately show ?thesis using Nil by (auto simp: reg_insert_def slaves_of_def counted_def alloc_slave_def)
next
  case (Cons h hs)
  have reg: "reg_insert (idhash, host, port) (slaves_of m xs) = (if idhash < fst (slave_info (ms_mem m) h)
      then (idhash, host, port) # slaves_of m xs else walk_insert (idhash, host, port) (slaves_of m xs))"
    using Cons by (simp add: reg_insert_def slaves_of_def)
  show ?thesis
    using add_slave_front [OF repr [unfolded Cons] cap x] add_slave_walk [OF repr [unfolded Cons] cap x] reg Cons
    by (cases "idhash < fst (slave_info (ms_mem m) h)") auto
qed

text \<open>A registration request, the slave it describes, and a sequence of registrations.\<close>

definition reg_msg :: "string \<Rightarrow> string \<Rightarrow> kvmessage_t" where
  "reg_msg host port = \<lparr>m_type = msgtype_int REGISTER, m_key = Some host, m_value = Some port, m_message = None\<rparr>"

definition slave_of :: "string \<Rightarrow> string \<Rightarrow> slave" where
  "slave_of host port = (hash_64_bit (port @ '':'' @ host), host, of_int (atoi port))"

lemma tpcmaster_register_spec:
  assumes "master_repr m xs"
  shows "\<exists>m' xs' r. tpcmaster_register (\<lambda>_. True) m (reg_msg host port) resp = Some (m', r) \<and> master_repr m' xs'
    \<and> slave_capacity m' = slave_capacity m
    \<and> (if length xs < unat (slave_capacity m)
       then slaves_of m' xs' = reg_insert (slave_of host port) (slaves_of m xs) \<and> m_message r = Some MSG_SUCCESS
       else slaves_of m' xs' = slaves_of m xs \<and> m_message r = Some ERRMSG_GENERIC_ERROR)"
proof -
  have cnt: "slave_count m < slave_capacity m \<longleftrightarrow> length xs < unat (slave_capacity m)"
    using assms by (simp add: master_repr_def word_less_nat_alt)
  show ?thesis
  proof (cases "slave_count m < slave_capacity m")
    case True
    then show ?thesis
      using add_slave_spec [OF assms True refl, of "hash_64_bit (port @ '':'' @ host)" host "of_int (atoi port)"] cnt
      by (auto simp: tpcmaster_register_def reg_msg_def slave_of_def Let_def)
  next
    case False
    then show ?thesis using assms cnt by (auto simp: tpcmaster_register_def reg_msg_def Let_def)
  qed
qed

fun register_all :: "tpcmaster_t \<Rightarrow> (string \<times> string) list \<Rightarrow> tpcmaster_t c_res" where
  "register_all m [] = Some m"
| "register_all m ((host, port) # rs) = do {
     (m', r) \<leftarrow> tpcmaster_register (\<lambda>_. True) m (reg_msg host port) (reg_msg host port);
     register_all m' rs
   }"

fun reg_all :: "nat \<Rightarrow> slave list \<Rightarrow> (string \<times> string) list \<Rightarrow> slave list" where
  "reg_all cap ss [] = ss"
| "reg_all cap ss ((host, port) # rs) =
     reg_all cap (if length ss < cap then reg_insert (slave_of host port) ss else ss) rs"

lemma register_all_spec:
  assumes "master_repr m xs"
  shows "\<exists>m' xs'. register_all m rs = Some m' \<and> master_repr m' xs' \<and> slave_capacity m' = slave_capacity m
    \<and> slaves_of m' xs' = reg_all (unat (slave_capacity m)) (slaves_of m xs) rs"
  using assms
proof (induction rs arbitrary: m xs)
  case Nil
  then show ?case by auto
next
  case (Cons r rs)
  obtain host port where r: "r = (host, port)" by (cases r)
  from tpcmaster_register_spec [OF Cons.prems, of host port "reg_msg host port"] obtain m' xs' resp where
    step: "tpcmaster_register (\<lambda>_. True) m (reg_msg host port) (reg_msg host port) = Some (m', resp)" "master_repr m' xs'"
    "slave_capacity m' = slave_capacity m"
    "slaves_of m' xs' = (if length (slaves_of m xs) < unat (slave_capacity m)
       then reg_insert (slave_of host port) (slaves_of m xs) else slaves_of m xs)"
    by (auto simp: slaves_of_def split: if_split_asm)
  from Cons.IH [OF step(2)] step r show ?case by (auto simp: slaves_of_def)
qed

text \<open>With room for at most two slaves the list is sorted.\<close>

lemma reg_insert_sorted:
  assumes "length ss \<le> 1"
  shows "sorted_wrt (<) (map fst (reg_insert x ss)) \<and> length (reg_insert x ss) \<le> Suc (length ss)"
  using assms by (cases ss) (auto simp: reg_insert_def)

lemma reg_all_sorted:
  assumes "cap \<le> 2" and "sorted_wrt (<) (map fst ss)" and "length ss \<le> cap"
  shows "sorted_wrt (<) (map fst (reg_all cap ss rs)) \<and> length (reg_all cap ss rs) \<le> cap"
  using assms
proof (induction rs arbitrary: ss)
  case (Cons r rs)
  obtain host port where r: "r = (host, port)" by (cases r)
  show ?case
  proof (cases "length ss < cap")
    case True
    then have "length ss \<le> 1" using Cons.prems(1) by simp
    from reg_insert_sorted [OF this, of "slave_of host port"] True Cons.IH [OF Cons.prems(1)] r show ?thesis by simp
  next
    case False
    then show ?thesis using Cons r by simp
  qed
qed simp

subsection \<open>Choosing slaves\<close>

definition primary_of :: "int \<Rightarrow> slave list \<Rightarrow> slave" where
  "primary_of h ss = (case find (\<lambda>s. h < fst s) ss of Some s \<Rightarrow> s | None \<Rightarrow> hd ss)"

lemma primary_walk_list:
  assumes "seg mem p (x # xs) None" and "length xs < fuel"
  shows "\<exists>c s. primary_walk fuel mem h x = Some c \<and> c \<in> set (x # xs) \<and> mem c = Some s
    \<and> (if \<forall>a \<in> set (x # xs). fst (slave_info mem a) \<le> h then sl_next s = None
       else find (\<lambda>a. h < fst (slave_info mem a)) (x # xs) = Some c)"
  using assms
proof (induction xs arbitrary: p x fuel)
  case Nil
  then obtain f s where "fuel = Suc f" "mem x = Some s" "sl_next s = None" by (cases fuel) auto
  then show ?case by (auto simp: slave_info_def)
next
  case (Cons y ys)
  then obtain f s where s: "fuel = Suc f" "mem x = Some s" "sl_next s = Some y" "seg mem (Some x) (y # ys) None"
    by (cases fuel) auto
  have x: "fst (slave_info mem x) = sl_id s" using s by (simp add: slave_info_def)
  show ?case
  proof (cases "sl_id s \<le> h")
    case True
    from Cons.IH [OF s(4), of f] Cons.prems(2) s(1) obtain c t where
      "primary_walk f mem h y = Some c" "c \<in> set (y # ys)" "mem c = Some t"
      "if \<forall>a \<in> set (y # ys). fst (slave_info mem a) \<le> h then sl_next t = None
       else find (\<lambda>a. h < fst (slave_info mem a)) (y # ys) = Some c" by auto
    then show ?thesis using s True x by (intro exI [of _ c] exI [of _ t]) (auto split: if_split_asm)
  next
    case False
    then show ?thesis using s x by (intro exI [of _ x] exI [of _ s]) auto
  qed
qed

lemma find_map_slave: "find P (map f xs) = map_option f (find (\<lambda>a. P (f a)) xs)"
  by (induction xs) auto

lemma seg_next_nth:
  "seg mem p xs n \<Longrightarrow> i < length xs \<Longrightarrow>
    \<exists>s. mem (xs ! i) = Some s \<and> sl_next s = (if Suc i < length xs then Some (xs ! Suc i) else n)"
proof (induction xs arbitrary: p i)
  case (Cons x xs)
  show ?case
  proof (cases i)
    case 0
    then show ?thesis using Cons.prems by (cases xs) auto
  next
    case (Suc j)
    then show ?thesis using Cons.IH [of "Some x" j] Cons.prems by auto
  qed
qed simp

lemma get_primary_spec:
  assumes repr: "master_repr m xs" and "xs \<noteq> []"
  shows "\<exists>c. tpcmaster_get_primary m key = Some c \<and> c \<in> set xs
    \<and> slave_info (ms_mem m) c = primary_of (hash_64_bit key) (slaves_of m xs)"
proof -
  let ?h = "hash_64_bit key" and ?mem = "ms_mem m"
  obtain x ys where xs: "xs = x # ys" using assms(2) by (cases xs) auto
  have "length ys < Suc (ms_brk m)" using master_repr_length [OF repr] xs by simp
  then obtain c s where c: "primary_walk (Suc (ms_brk m)) ?mem ?h x = Some c" "c \<in> set xs" "?mem c = Some s"
    "if \<forall>a \<in> set xs. fst (slave_info ?mem a) \<le> ?h then sl_next s = None
     else find (\<lambda>a. ?h < fst (slave_info ?mem a)) xs = Some c"
    using primary_walk_list [of ?mem None x ys "Suc (ms_brk m)" ?h] repr xs by (auto simp: master_repr_def)
  have hd: "slaves_head m = Some x" using repr xs by (simp add: master_repr_def)
  have cid: "fst (slave_info ?mem c) = sl_id s" using c(3) by (simp add: slave_info_def)
  have fnd: "find (\<lambda>s. ?h < fst s) (slaves_of m xs) = map_option (slave_info ?mem) (find (\<lambda>a. ?h < fst (slave_info ?mem a)) xs)"
    by (simp add: slaves_of_def find_map_slave)
  show ?thesis
  proof (cases "\<forall>a \<in> set xs. fst (slave_info ?mem a) \<le> ?h")
    case True
    then have "find (\<lambda>a. ?h < fst (slave_info ?mem a)) xs = None" by (auto simp: find_None_iff)
    moreover have "tpcmaster_get_primary m key = Some x"
      using True bspec [OF True c(2)] c cid hd by (simp add: tpcmaster_get_primary_def Let_def del: primary_walk.simps)
    ultimately show ?thesis using fnd xs by (simp add: primary_of_def slaves_of_def)
  next
    case False
    then have f: "find (\<lambda>a. ?h < fst (slave_info ?mem a)) xs = Some c" using c(4) by simp
    then have "?h < sl_id s" using cid by (auto simp: find_Some_iff)
    then have "tpcmaster_get_primary m key = Some c"
      using c(1,3) hd by (auto simp: tpcmaster_get_primary_def Let_def simp del: primary_walk.simps)
    then show ?thesis using f fnd c(2) by (simp add: primary_of_def)
  qed
qed

text \<open>On a sorted list this is the slave the comment in the source asks for.\<close>

lemma primary_of_sorted:
  assumes "sorted_wrt (<) (map fst ss)" and "ss \<noteq> []"
  shows "primary_of h ss \<in> set ss
    \<and> (if \<exists>s \<in> set ss. h < fst s
       then h < fst (primary_of h ss) \<and> (\<forall>s \<in> set ss. h < fst s \<longrightarrow> fst (primary_of h ss) \<le> fst s)
       else \<forall>s \<in> set ss. fst (primary_of h ss) \<le> fst s)"
  using assms
proof (induction ss)
  case (Cons s ss)
  show ?case
  proof (cases "h < fst s")
    case True
    then show ?thesis using Cons.prems(1) by (auto simp: primary_of_def less_imp_le)
  next
    case False
    show ?thesis
    proof (cases "find (\<lambda>s. h < fst s) ss")
      case None
      then have "primary_of h (s # ss) = s" using False by (simp add: primary_of_def)
      moreover have "\<not> (\<exists>t \<in> set ss. h < fst t)" using None unfolding find_None_iff by blast
      then have "\<not> (\<exists>t \<in> set (s # ss). h < fst t)" using False by simp
      ultimately show ?thesis using Cons.prems(1) by (auto simp: less_imp_le)
    next
      case (Some t)
      then have ex: "\<exists>t \<in> set ss. h < fst t" by (auto simp: find_Some_iff)
      then have "ss \<noteq> []" by auto
      then have "primary_of h ss \<in> set ss \<and> h < fst (primary_of h ss) \<and> (\<forall>s \<in> set ss. h < fst s \<longrightarrow> fst (primary_of h ss) \<le> fst s)"
        using Cons.IH Cons.prems(1) ex by simp
      moreover have "primary_of h (s # ss) = primary_of h ss" using Some False by (simp add: primary_of_def)
      ultimately show ?thesis using ex False by simp
    qed
  qed
qed simp

subsection \<open>Properties\<close>

text \<open>A master after \<open>tpcmaster_init\<close>, as the shipped program configures it.\<close>

definition master_0 :: "u32 \<Rightarrow> tpcmaster_t" where
  "master_0 cap = \<lparr>slave_capacity = cap, slave_count = 0, redundancy = 2, slaves_head = None,
     ms_cache = \<lparr>num_sets = 0, cache_elem_per_set = 0, sets = []\<rparr>, ms_mem = (\<lambda>_. None), ms_brk = 0\<rparr>"

lemma master_repr_0: "master_repr (master_0 cap) []" "slaves_of (master_0 cap) [] = []" "slave_capacity (master_0 cap) = cap"
  by (simp_all add: master_repr_def master_0_def slaves_of_def)

lemma tpcmaster_init_spec:
  assumes "nsets \<noteq> 0" and "2 \<le> eps"
  shows "\<exists>m. tpcmaster_init (\<lambda>_. True) 0 raw cap red nsets eps = (0, m) \<and> master_repr m []
    \<and> slave_capacity m = cap \<and> redundancy m \<le> cap"
  using kvcache_init_spec [OF assms, of 0 "\<lambda>_. True" "ms_cache raw"]
  by (auto simp: tpcmaster_init_def master_repr_def)

text \<open>One slave on a fresh master, for the witnesses.\<close>

lemma register_one:
  obtains m a where "register_all (master_0 2) [(host, port)] = Some m" "master_repr m [a]"
    "slave_info (ms_mem m) a = slave_of host port"
proof -
  from register_all_spec [OF master_repr_0(1) [of 2], of "[(host, port)]"] obtain m xs where
    "register_all (master_0 2) [(host, port)] = Some m" "master_repr m xs" "slaves_of m xs = [slave_of host port]"
    by (auto simp: master_repr_0(2,3) reg_insert_def simp del: register_all.simps)
  then show thesis using that by (auto simp: slaves_of_def simp del: register_all.simps)
qed



text \<open>C18. With the shipped capacity of two (or less), after any sequence of registrations the
  slaves are strictly sorted by id, so there is no duplicate, and there are at most as many
  as the capacity allows.\<close>

theorem tpcmaster_sorted_two:
  assumes "unat cap \<le> 2" and "nsets \<noteq> 0" and "2 \<le> eps"
  shows "\<exists>m0 m xs. tpcmaster_init (\<lambda>_. True) 0 raw cap red nsets eps = (0, m0) \<and> redundancy m0 \<le> cap
    \<and> register_all m0 rs = Some m \<and> master_repr m xs
    \<and> sorted_wrt (<) (map fst (slaves_of m xs)) \<and> length xs \<le> unat cap"
proof -
  from tpcmaster_init_spec [OF assms(2,3), of raw cap red] obtain m0 where
    m0: "tpcmaster_init (\<lambda>_. True) 0 raw cap red nsets eps = (0, m0)" "master_repr m0 []" "slave_capacity m0 = cap"
      "redundancy m0 \<le> cap" by blast
  from register_all_spec [OF m0(2), of rs] m0(3) obtain m xs where
    m: "register_all m0 rs = Some m" "master_repr m xs" "slaves_of m xs = reg_all (unat cap) [] rs"
    by (auto simp: slaves_of_def)
  from this(3) have "length xs = length (reg_all (unat cap) [] rs)" by (metis length_map slaves_of_def)
  then show ?thesis using m0 m reg_all_sorted [OF assms(1), of "[]" rs] by auto
qed

theorem tpcmaster_sorted_two_witness:
  "\<exists>m0 m xs. tpcmaster_init (\<lambda>_. True) 0 (master_0 0) 2 2 4 4 = (0, m0) \<and> redundancy m0 \<le> 2
    \<and> register_all m0 [(''a'', ''2''), (''a'', ''1''), (''a'', ''2'')] = Some m \<and> master_repr m xs
    \<and> sorted_wrt (<) (map fst (slaves_of m xs)) \<and> length xs \<le> 2"
  using tpcmaster_sorted_two [of 2 4 4 "master_0 0" 2 "[(''a'', ''2''), (''a'', ''1''), (''a'', ''2'')]"]
  by (simp del: register_all.simps)

text \<open>C17. On a sorted list \<open>tpcmaster_get_primary\<close> returns the slave with the smallest id greater
  than the hash of the key, and the slave with the lowest id when there is none.\<close>

theorem tpcmaster_primary_correct:
  assumes "master_repr m xs" and "xs \<noteq> []" and "sorted_wrt (<) (map fst (slaves_of m xs))"
  shows "\<exists>c. tpcmaster_get_primary m key = Some c \<and> c \<in> set xs
    \<and> (let h = hash_64_bit key; ids = fst ` set (slaves_of m xs); i = fst (slave_info (ms_mem m) c) in
       if \<exists>j \<in> ids. h < j then i = Min {j \<in> ids. h < j} else i = Min ids)"
proof -
  let ?h = "hash_64_bit key" and ?ss = "slaves_of m xs"
  from get_primary_spec [OF assms(1,2), of key] obtain c where c: "tpcmaster_get_primary m key = Some c" "c \<in> set xs"
    "slave_info (ms_mem m) c = primary_of ?h ?ss" by blast
  have ne: "?ss \<noteq> []" using assms(2) by (simp add: slaves_of_def)
  note p = primary_of_sorted [OF assms(3) ne, of ?h]
  show ?thesis
  proof (cases "\<exists>s \<in> set ?ss. ?h < fst s")
    case True
    then have "fst (primary_of ?h ?ss) = Min {j \<in> fst ` set ?ss. ?h < j}"
      using p by (intro Min_eqI [symmetric]) auto
    then show ?thesis using c True by (auto simp: Let_def)
  next
    case False
    then have "fst (primary_of ?h ?ss) = Min (fst ` set ?ss)"
      using p by (intro Min_eqI [symmetric]) auto
    then show ?thesis using c False by (auto simp: Let_def)
  qed
qed

theorem tpcmaster_primary_correct_witness:
  "\<exists>m c. register_all (master_0 2) [(''localhost'', ''9000'')] = Some m \<and> tpcmaster_get_primary m ''key'' = Some c
    \<and> slave_info (ms_mem m) c = slave_of ''localhost'' ''9000''"
proof -
  obtain m a where m: "register_all (master_0 2) [(''localhost'', ''9000'')] = Some m" "master_repr m [a]"
    "slave_info (ms_mem m) a = slave_of ''localhost'' ''9000''" by (rule register_one)
  with tpcmaster_primary_correct [OF m(2), of "''key''"] show ?thesis by (auto simp: slaves_of_def simp del: register_all.simps)
qed

text \<open>C22. \<open>tpcmaster_get_successor\<close> goes round the list: the successor of the slave at position
  \<open>i\<close> is the one at position \<open>i + 1\<close> modulo the number of slaves.\<close>

theorem tpcmaster_successor_cyclic:
  assumes "master_repr m xs" and "i < length xs"
  shows "tpcmaster_get_successor m (xs ! i) = Some (Some (xs ! (Suc i mod length xs)))"
proof -
  have seg: "seg (ms_mem m) None xs None" and hd: "slaves_head m = hd_opt xs" using assms(1) by (simp_all add: master_repr_def)
  obtain s where s: "ms_mem m (xs ! i) = Some s" "sl_next s = (if Suc i < length xs then Some (xs ! Suc i) else None)"
    using seg_next_nth [OF seg assms(2)] by blast
  show ?thesis
  proof (cases "Suc i < length xs")
    case False
    then have "Suc i = length xs" using assms(2) by simp
    then show ?thesis using s hd by (cases xs) (auto simp: tpcmaster_get_successor_def)
  qed (use s in \<open>simp add: tpcmaster_get_successor_def\<close>)
qed

theorem tpcmaster_successor_cyclic_witness:
  "\<exists>m a. register_all (master_0 2) [(''localhost'', ''9000'')] = Some m \<and> master_repr m [a]
    \<and> tpcmaster_get_successor m a = Some (Some a)"
proof -
  obtain m a where m: "register_all (master_0 2) [(''localhost'', ''9000'')] = Some m" "master_repr m [a]"
    by (rule register_one)
  with tpcmaster_successor_cyclic [OF m(2), of 0] show ?thesis by (auto simp del: register_all.simps)
qed


end
