(* ===== verification/Wq.thy ===== *)
theory Wq
  imports UtList
begin

text \<open>
  The work queue of the server, \<^verbatim>\<open>wq.c\<close>. First the queue itself: a \<^verbatim>\<open>utlist\<close> list of heap nodes,
  with the part of \<open>wq_pop\<close> and \<open>wq_push\<close> that runs under the mutex. Then the threads: a step
  relation in which any number of threads run \<open>wq_pop\<close> and \<open>wq_push\<close>, with the mutex, the
  condition variable (a signal wakes one waiting thread, if there is one) and spurious
  wake-ups. A critical section is one step: the mutex keeps every other thread out of it
  (\<open>wq_exclusion\<close> in the invariant).

  The queue satisfies the contract \<open>fifo\<close>; the results on threads are proved under that
  contract: each item is received exactly once and in the order of arrival, and no wake-up
  is lost.
\<close>

subsection \<open>The queue\<close>

record wq_t =
  wq_head :: "addr option"
  wq_links :: dl_links
  wq_items :: "addr \<Rightarrow> int option"
  wq_brk :: addr

definition wq_init :: "wq_t \<Rightarrow> wq_t" where
  "wq_init wq = wq\<lparr>wq_head := None\<rparr>"

text \<open>The end of \<open>wq_pop\<close>, entered when the head is not null. The node is not freed.\<close>

definition wq_pop_head :: "wq_t \<Rightarrow> (int \<times> wq_t) c_res" where
  "wq_pop_head wq = do {
     h \<leftarrow> wq_head wq;
     job \<leftarrow> wq_items wq h;
     (L, hd) \<leftarrow> DL_DELETE (wq_links wq) (wq_head wq) h;
     Some (job, wq\<lparr>wq_head := hd, wq_links := L\<rparr>)
   }"

text \<open>\<open>wq_push\<close> does not test the result of \<open>calloc\<close>; the allocator here always has a fresh node.\<close>

definition wq_push_item :: "wq_t \<Rightarrow> int \<Rightarrow> wq_t c_res" where
  "wq_push_item wq item = do {
     let a = wq_brk wq;
     (L, hd) \<leftarrow> DL_APPEND (wq_links wq) (wq_head wq) a;
     Some (wq\<lparr>wq_head := hd, wq_links := L, wq_items := (wq_items wq)(a \<mapsto> item), wq_brk := Suc a\<rparr>)
   }"

definition wq_rep :: "wq_t \<Rightarrow> addr list \<Rightarrow> bool" where
  "wq_rep q xs \<longleftrightarrow> dl_repr (wq_links q) (wq_head q) xs \<and> (\<forall>a \<in> set xs. a < wq_brk q \<and> wq_items q a \<noteq> None)"

definition wq_list :: "wq_t \<Rightarrow> int list \<Rightarrow> bool" where
  "wq_list q js \<longleftrightarrow> (\<exists>xs. wq_rep q xs \<and> js = map (\<lambda>a. the (wq_items q a)) xs)"

lemma hd_opt_None: "hd_opt xs = None \<longleftrightarrow> xs = []"
  by (cases xs) auto

lemma wq_list_empty: "wq_list q [] \<longleftrightarrow> wq_head q = None"
  by (auto simp: wq_list_def wq_rep_def)

lemma wq_list_head: "wq_list q js \<Longrightarrow> wq_head q = None \<longleftrightarrow> js = []"
  by (metis hd_opt_None wq_list_def wq_rep_def dl_repr_def map_is_Nil_conv)

lemma wq_push_list:
  assumes "wq_list q js"
  shows "\<exists>q'. wq_push_item q j = Some q' \<and> wq_list q' (js @ [j])"
proof -
  from assms obtain xs where xs: "wq_rep q xs" "js = map (\<lambda>a. the (wq_items q a)) xs" by (auto simp: wq_list_def)
  let ?a = "wq_brk q"
  have fresh: "?a \<notin> set xs" using xs(1) by (auto simp: wq_rep_def)
  then obtain L where L: "DL_APPEND (wq_links q) (wq_head q) ?a = Some (L, hd_opt (xs @ [?a]))"
    "dl_repr L (hd_opt (xs @ [?a])) (xs @ [?a])"
    using DL_APPEND_repr [of "wq_links q" "wq_head q" xs ?a] xs(1) by (auto simp: wq_rep_def)
  let ?q = "q\<lparr>wq_head := hd_opt (xs @ [?a]), wq_links := L, wq_items := (wq_items q)(?a \<mapsto> j), wq_brk := Suc ?a\<rparr>"
  have "wq_rep ?q (xs @ [?a])" using xs(1) L(2) by (auto simp: wq_rep_def)
  moreover have "js @ [j] = map (\<lambda>a. the (wq_items ?q a)) (xs @ [?a])" using xs(2) fresh by auto
  ultimately have "wq_list ?q (js @ [j])" unfolding wq_list_def by blast
  then show ?thesis using L(1) by (simp add: wq_push_item_def Let_def)
qed

lemma wq_pop_list:
  assumes "wq_list q (j # js)"
  shows "\<exists>q'. wq_pop_head q = Some (j, q') \<and> wq_list q' js"
proof -
  from assms obtain x xs where xs: "wq_rep q (x # xs)" "j = the (wq_items q x)" "js = map (\<lambda>a. the (wq_items q a)) xs"
    by (auto simp: wq_list_def)
  then have x: "wq_head q = Some x" "wq_items q x = Some j" by (auto simp: wq_rep_def dl_repr_def)
  have "dl_repr (wq_links q) (wq_head q) (x # xs)" using xs(1) by (simp add: wq_rep_def)
  from DL_DELETE_repr [OF this, of x] obtain L hd where L: "DL_DELETE (wq_links q) (wq_head q) x = Some (L, hd)"
    "dl_repr L hd xs" by auto
  let ?q = "q\<lparr>wq_head := hd, wq_links := L\<rparr>"
  have "wq_rep ?q xs" using xs(1) L(2) by (simp add: wq_rep_def)
  then have "wq_list ?q js" using xs(3) by (auto simp: wq_list_def)
  then show ?thesis using x L(1) by (simp add: wq_pop_head_def)
qed

subsection \<open>Threads\<close>

text \<open>Where a thread is: outside; before the lock of \<open>wq_pop\<close>; at its loop test, with the lock; in
  \<open>pthread_cond_wait\<close>; woken and about to take the lock again; returned with a job; before the
  lock of \<open>wq_push\<close>; with the lock in it.\<close>

datatype pc = Idle | PopLock | PopLocked | Waiting | Woken | Got int | PushLock int | PushLocked int

record 'q pool =
  p_queue :: 'q
  p_lock :: "nat option"
  p_pc :: "nat \<Rightarrow> pc"
  p_pushed :: "int list"
  p_popped :: "int list"

inductive pool_step :: "nat \<Rightarrow> ('q \<Rightarrow> int \<Rightarrow> 'q c_res) \<Rightarrow> ('q \<Rightarrow> (int \<times> 'q) c_res) \<Rightarrow> ('q \<Rightarrow> bool) \<Rightarrow> 'q pool \<Rightarrow> 'q pool \<Rightarrow> bool"
  for N push pop empty where
  call_pop: "t < N \<Longrightarrow> p_pc s t = Idle \<Longrightarrow> pool_step N push pop empty s (s\<lparr>p_pc := (p_pc s)(t := PopLock)\<rparr>)"
| lock_pop: "t < N \<Longrightarrow> p_pc s t = PopLock \<or> p_pc s t = Woken \<Longrightarrow> p_lock s = None \<Longrightarrow>
    pool_step N push pop empty s (s\<lparr>p_lock := Some t, p_pc := (p_pc s)(t := PopLocked)\<rparr>)"
| wait: "t < N \<Longrightarrow> p_pc s t = PopLocked \<Longrightarrow> empty (p_queue s) \<Longrightarrow>
    pool_step N push pop empty s (s\<lparr>p_lock := None, p_pc := (p_pc s)(t := Waiting)\<rparr>)"
| spurious: "t < N \<Longrightarrow> p_pc s t = Waiting \<Longrightarrow> pool_step N push pop empty s (s\<lparr>p_pc := (p_pc s)(t := Woken)\<rparr>)"
| take: "t < N \<Longrightarrow> p_pc s t = PopLocked \<Longrightarrow> \<not> empty (p_queue s) \<Longrightarrow> pop (p_queue s) = Some (job, q) \<Longrightarrow>
    pool_step N push pop empty s (s\<lparr>p_queue := q, p_lock := None, p_pc := (p_pc s)(t := Got job), p_popped := p_popped s @ [job]\<rparr>)"
| return_job: "t < N \<Longrightarrow> p_pc s t = Got job \<Longrightarrow> pool_step N push pop empty s (s\<lparr>p_pc := (p_pc s)(t := Idle)\<rparr>)"
| call_push: "t < N \<Longrightarrow> p_pc s t = Idle \<Longrightarrow> pool_step N push pop empty s (s\<lparr>p_pc := (p_pc s)(t := PushLock item)\<rparr>)"
| lock_push: "t < N \<Longrightarrow> p_pc s t = PushLock item \<Longrightarrow> p_lock s = None \<Longrightarrow>
    pool_step N push pop empty s (s\<lparr>p_lock := Some t, p_pc := (p_pc s)(t := PushLocked item)\<rparr>)"
| push_wake: "t < N \<Longrightarrow> p_pc s t = PushLocked item \<Longrightarrow> push (p_queue s) item = Some q \<Longrightarrow> u < N \<Longrightarrow> p_pc s u = Waiting \<Longrightarrow>
    pool_step N push pop empty s (s\<lparr>p_queue := q, p_lock := None, p_pc := (p_pc s)(t := Idle, u := Woken), p_pushed := p_pushed s @ [item]\<rparr>)"
| push_alone: "t < N \<Longrightarrow> p_pc s t = PushLocked item \<Longrightarrow> push (p_queue s) item = Some q \<Longrightarrow> \<forall>u < N. p_pc s u \<noteq> Waiting \<Longrightarrow>
    pool_step N push pop empty s (s\<lparr>p_queue := q, p_lock := None, p_pc := (p_pc s)(t := Idle), p_pushed := p_pushed s @ [item]\<rparr>)"

fun holding :: "pc \<Rightarrow> bool" where
  "holding PopLocked = True" | "holding (PushLocked _) = True" | "holding _ = False"

fun popping :: "pc \<Rightarrow> nat" where
  "popping PopLock = 1" | "popping PopLocked = 1" | "popping Woken = 1" | "popping _ = 0"

definition poppers :: "nat \<Rightarrow> (nat \<Rightarrow> pc) \<Rightarrow> nat" where
  "poppers N f = (\<Sum>t<N. popping (f t))"

lemma poppers_upd: "t < N \<Longrightarrow> poppers N (f(t := v)) + popping (f t) = poppers N f + popping v"
  using sum.remove [of "{..<N}" t "\<lambda>u. popping ((f(t := v)) u)"] sum.remove [of "{..<N}" t "\<lambda>u. popping (f u)"]
  by (simp add: poppers_def)

lemma poppers_pos: "0 < poppers N f \<longleftrightarrow> (\<exists>t < N. f t = PopLock \<or> f t = PopLocked \<or> f t = Woken)"
proof -
  have "popping p \<noteq> 0 \<longleftrightarrow> p = PopLock \<or> p = PopLocked \<or> p = Woken" for p by (cases p) simp_all
  moreover have "0 < poppers N f \<longleftrightarrow> (\<exists>t < N. popping (f t) \<noteq> 0)" 
    using sum_eq_0_iff [of "{..<N}" "\<lambda>t. popping (f t)"] neq0_conv [of "poppers N f"] by (auto simp: poppers_def simp del: sum_eq_0_iff)
  ultimately show ?thesis by metis
qed

text \<open>The contract of the queue; its client is the pool of threads.\<close>

locale fifo =
  fixes q_list :: "'q \<Rightarrow> int list \<Rightarrow> bool"
    and q_push :: "'q \<Rightarrow> int \<Rightarrow> 'q c_res"
    and q_pop :: "'q \<Rightarrow> (int \<times> 'q) c_res"
    and q_empty :: "'q \<Rightarrow> bool"
  assumes empty_law: "q_list q js \<Longrightarrow> q_empty q \<longleftrightarrow> js = []"
    and push_law: "q_list q js \<Longrightarrow> \<exists>q'. q_push q j = Some q' \<and> q_list q' (js @ [j])"
    and pop_law: "q_list q (j # js) \<Longrightarrow> \<exists>q'. q_pop q = Some (j, q') \<and> q_list q' js"
begin

abbreviation step where "step N \<equiv> pool_step N q_push q_pop q_empty"

definition locked :: "nat \<Rightarrow> nat option \<Rightarrow> (nat \<Rightarrow> pc) \<Rightarrow> bool" where
  "locked N l f \<longleftrightarrow> (\<forall>u. l = Some u \<longleftrightarrow> u < N \<and> holding (f u))"

lemma locked_upd:
  assumes "locked N l f" and "t < N" and "holding v \<Longrightarrow> l = None \<or> l = Some t"
  shows "locked N (if holding v then Some t else if l = Some t then None else l) (f(t := v))"
  using assms unfolding locked_def by (metis fun_upd_apply option.distinct(1) option.inject)

lemma locked_by: "locked N l f \<Longrightarrow> t < N \<Longrightarrow> holding (f t) \<longleftrightarrow> l = Some t"
  by (simp add: locked_def)

lemma locked_one: "locked N l f \<Longrightarrow> t < N \<Longrightarrow> u < N \<Longrightarrow> holding (f t) \<Longrightarrow> holding (f u) \<Longrightarrow> t = u"
  by (metis locked_by option.inject)

definition pool_inv :: "nat \<Rightarrow> 'q pool \<Rightarrow> int list \<Rightarrow> bool" where
  "pool_inv N s js \<longleftrightarrow> q_list (p_queue s) js \<and> p_pushed s = p_popped s @ js
     \<and> locked N (p_lock s) (p_pc s)
     \<and> ((\<exists>t < N. p_pc s t = Waiting) \<longrightarrow> length js \<le> poppers N (p_pc s))"

lemma pool_invD:
  assumes "pool_inv N s js"
  shows "q_list (p_queue s) js" "p_pushed s = p_popped s @ js"
    "locked N (p_lock s) (p_pc s)"
    "t < N \<Longrightarrow> p_pc s t = Waiting \<Longrightarrow> length js \<le> poppers N (p_pc s)"
  using assms by (auto simp: pool_inv_def)

text \<open>A step of thread \<open>t\<close> to \<open>v\<close> that leaves the queue alone.\<close>

lemma inv_move:
  assumes "pool_inv N s js" and "t < N" and "holding v \<Longrightarrow> p_lock s = None \<or> p_lock s = Some t"
    and "l = (if holding v then Some t else if p_lock s = Some t then None else p_lock s)"
    and "popping (p_pc s t) \<le> popping v \<and> v \<noteq> Waiting \<or> js = []"
  shows "pool_inv N (s\<lparr>p_lock := l, p_pc := (p_pc s)(t := v)\<rparr>) js"
  using assms locked_upd [of N "p_lock s" "p_pc s" t v] poppers_upd [of t N "p_pc s" v]
  by (auto simp: pool_inv_def)

lemma inv_pc:
  assumes "pool_inv N s js" and "t < N" and "\<not> holding v" and "p_lock s \<noteq> Some t"
    and "popping (p_pc s t) \<le> popping v \<and> v \<noteq> Waiting \<or> js = []"
  shows "pool_inv N (s\<lparr>p_pc := (p_pc s)(t := v)\<rparr>) js"
  using inv_move [of N s js t v "p_lock s"] assms by simp

lemma inv_take:
  assumes "pool_inv N s (j # js)" and "t < N" and "p_pc s t = PopLocked" and "q_list q js"
  shows "pool_inv N (s\<lparr>p_queue := q, p_lock := None, p_pc := (p_pc s)(t := Got j), p_popped := p_popped s @ [j]\<rparr>) js"
  using assms locked_upd [of N "p_lock s" "p_pc s" t "Got j"] poppers_upd [of t N "p_pc s" "Got j"] locked_by [of N "p_lock s" "p_pc s" t]
  by (auto simp: pool_inv_def split: if_splits)

lemma inv_push_alone:
  assumes "pool_inv N s js" and "t < N" and "p_pc s t = PushLocked j" and "q_list q (js @ [j])"
    and "\<forall>u < N. p_pc s u \<noteq> Waiting"
  shows "pool_inv N (s\<lparr>p_queue := q, p_lock := None, p_pc := (p_pc s)(t := Idle), p_pushed := p_pushed s @ [j]\<rparr>) (js @ [j])"
  using assms locked_upd [of N "p_lock s" "p_pc s" t Idle] locked_by [of N "p_lock s" "p_pc s" t]
    by (auto simp: pool_inv_def split: if_splits)

lemma inv_push_wake:
  assumes "pool_inv N s js" and "t < N" and "p_pc s t = PushLocked j" and "q_list q (js @ [j])"
    and "u < N" and "p_pc s u = Waiting"
  shows "pool_inv N (s\<lparr>p_queue := q, p_lock := None, p_pc := (p_pc s)(t := Idle, u := Woken), p_pushed := p_pushed s @ [j]\<rparr>) (js @ [j])"
proof -
  have "u \<noteq> t" using assms by auto
  moreover from this have "Suc (poppers N (p_pc s)) = poppers N ((p_pc s)(t := Idle, u := Woken))"
    using poppers_upd [of t N "p_pc s" Idle] poppers_upd [of u N "(p_pc s)(t := Idle)" Woken] assms by simp
  ultimately show ?thesis
    using assms locked_upd [of N None "(p_pc s)(t := Idle)" u Woken] locked_upd [of N "p_lock s" "p_pc s" t Idle]
      locked_by [of N "p_lock s" "p_pc s" t]
    by (auto simp: pool_inv_def split: if_splits)
qed

lemma inv_step:
  assumes "step N s s'" and "pool_inv N s js"
  shows "\<exists>js'. pool_inv N s' js'"
  using assms(1)
proof cases
  case (take t job q)
  then obtain js' where "js = job # js'" "q_list q js'"
    using pool_invD(1) [OF assms(2)] pop_law empty_law by (cases js) fastforce+
  then show ?thesis using inv_take [of N s job js' t q] assms(2) take by metis
next
  case (push_wake t item q u)
  then have "q_list q (js @ [item])" using push_law [OF pool_invD(1) [OF assms(2)], of item] by simp
  then show ?thesis using inv_push_wake [OF assms(2), of t item q u] push_wake by metis
next
  case (push_alone t item q)
  then have "q_list q (js @ [item])" using push_law [OF pool_invD(1) [OF assms(2)], of item] by simp
  then show ?thesis using inv_push_alone [OF assms(2), of t item q] push_alone by metis
next
  case (call_pop t)
  then show ?thesis using inv_move [OF assms(2), of t PopLock "p_lock s"] locked_by [OF pool_invD(3) [OF assms(2)], of t] by auto
next
  case (lock_pop t)
  then show ?thesis using inv_move [OF assms(2), of t PopLocked "Some t"] by auto
next
  case (wait t)
  then show ?thesis
    using inv_move [OF assms(2), of t Waiting None] pool_invD(1) [OF assms(2)] locked_by [OF pool_invD(3) [OF assms(2)], of t] empty_law by auto
next
  case (spurious t)
  then show ?thesis using inv_move [OF assms(2), of t Woken "p_lock s"] locked_by [OF pool_invD(3) [OF assms(2)], of t] by auto
next
  case (return_job t job)
  then show ?thesis using inv_move [OF assms(2), of t Idle "p_lock s"] locked_by [OF pool_invD(3) [OF assms(2)], of t] by auto
next
  case (call_push t item)
  then show ?thesis using inv_move [OF assms(2), of t "PushLock item" "p_lock s"] locked_by [OF pool_invD(3) [OF assms(2)], of t] by auto
next
  case (lock_push t item)
  then show ?thesis using inv_move [OF assms(2), of t "PushLocked item" "Some t"] by auto
qed

definition pool_start :: "'q pool \<Rightarrow> bool" where
  "pool_start s \<longleftrightarrow> q_list (p_queue s) [] \<and> p_lock s = None \<and> (\<forall>t. p_pc s t = Idle) \<and> p_pushed s = [] \<and> p_popped s = []"

lemma inv_reachable: "(step N)\<^sup>*\<^sup>* s s' \<Longrightarrow> pool_start s \<Longrightarrow> \<exists>js. pool_inv N s' js"
  by (induction rule: rtranclp_induct) (auto simp: pool_start_def pool_inv_def locked_def dest: inv_step)

text \<open>Some execution gives the item \<open>j\<close> to a thread next.\<close>

definition gets :: "nat \<Rightarrow> 'q pool \<Rightarrow> int \<Rightarrow> bool" where
  "gets N s j \<longleftrightarrow> (\<exists>s'. (step N)\<^sup>*\<^sup>* s s' \<and> p_popped s' = p_popped s @ [j])"

lemma gets_step: "step N s s' \<Longrightarrow> p_popped s' = p_popped s \<Longrightarrow> gets N s' j \<Longrightarrow> gets N s j"
  unfolding gets_def by (metis converse_rtranclp_into_rtranclp)

lemma gets_PopLocked:
  assumes "pool_inv N s (j # js)" and "t < N" and "p_pc s t = PopLocked"
  shows "gets N s j"
proof -
  obtain q where "q_pop (p_queue s) = Some (j, q)" using pop_law [OF pool_invD(1) [OF assms(1)]] by auto
  moreover have "\<not> q_empty (p_queue s)" using empty_law [OF pool_invD(1) [OF assms(1)]] by simp
  ultimately have "step N s (s\<lparr>p_queue := q, p_lock := None, p_pc := (p_pc s)(t := Got j), p_popped := p_popped s @ [j]\<rparr>)"
    using assms by (intro pool_step.take)
  then show ?thesis unfolding gets_def by (intro exI conjI, rule r_into_rtranclp) simp_all
qed

lemma gets_PopLock:
  assumes "pool_inv N s (j # js)" and "p_lock s = None" and "t < N" and "p_pc s t = PopLock \<or> p_pc s t = Woken"
  shows "gets N s j"
proof (rule gets_step)
  show "step N s (s\<lparr>p_lock := Some t, p_pc := (p_pc s)(t := PopLocked)\<rparr>)" using assms by (intro pool_step.lock_pop)
  show "gets N (s\<lparr>p_lock := Some t, p_pc := (p_pc s)(t := PopLocked)\<rparr>) j"
    using assms(2-) inv_move [OF assms(1), of t PopLocked "Some t"] by (intro gets_PopLocked [where t = t and js = js]) auto
qed simp

lemma gets_Idle:
  assumes "pool_inv N s (j # js)" and "p_lock s = None" and "t < N" and "p_pc s t = Idle"
  shows "gets N s j"
proof (rule gets_step)
  show "step N s (s\<lparr>p_pc := (p_pc s)(t := PopLock)\<rparr>)" using assms by (intro pool_step.call_pop)
  show "gets N (s\<lparr>p_pc := (p_pc s)(t := PopLock)\<rparr>) j"
    using assms(2-) inv_pc [OF assms(1), of t PopLock] by (intro gets_PopLock [where t = t and js = js]) auto
qed simp

lemma no_lost_wakeup:
  assumes "pool_inv N s (j # js)" and "t < N" and "p_pc s t = Waiting"
  shows "\<exists>u < N. p_pc s u = PopLock \<or> p_pc s u = PopLocked \<or> p_pc s u = Woken"
  using pool_invD(4) [OF assms] by (simp flip: poppers_pos)

text \<open>A thread inside \<open>wq_push\<close> finishes it and leaves the lock to a receiver.\<close>

lemma gets_PushLocked:
  assumes inv: "pool_inv N s (j # js)" and t: "t < N" "p_pc s t = PushLocked item"
  shows "gets N s j"
proof -
  obtain q where q: "q_push (p_queue s) item = Some q" "q_list q (j # js @ [item])"
    using push_law [OF pool_invD(1) [OF inv]] by fastforce
  show ?thesis
  proof (cases "\<exists>u < N. p_pc s u = Waiting")
    case True
    then obtain u where u: "u < N" "p_pc s u = Waiting" by blast
    let ?s = "s\<lparr>p_queue := q, p_lock := None, p_pc := (p_pc s)(t := Idle, u := Woken), p_pushed := p_pushed s @ [item]\<rparr>"
    have "gets N ?s j"
      using inv_push_wake [OF inv t _ u] q(2) u by (intro gets_PopLock [where t = u and js = "js @ [item]"]) auto
    moreover have "step N s ?s" using t q(1) u by (rule pool_step.push_wake)
    ultimately show ?thesis by (auto elim!: gets_step)
  next
    case False
    let ?s = "s\<lparr>p_queue := q, p_lock := None, p_pc := (p_pc s)(t := Idle), p_pushed := p_pushed s @ [item]\<rparr>"
    have "gets N ?s j"
      using inv_push_alone [OF inv t _] q(2) t False by (intro gets_Idle [where t = t and js = "js @ [item]"]) auto
    moreover have "step N s ?s" using t q(1) False by (intro pool_step.push_alone) auto
    ultimately show ?thesis by (auto elim!: gets_step)
  qed
qed

lemma gets_unlocked:
  assumes inv: "pool_inv N s (j # js)" and "p_lock s = None" and "0 < N"
  shows "gets N s j"
proof (cases "\<exists>u < N. p_pc s u = PopLock \<or> p_pc s u = PopLocked \<or> p_pc s u = Woken")
  case True
  then show ?thesis using gets_PopLock [OF inv assms(2)] gets_PopLocked [OF inv] by blast
next
  case False
  then have none: "p_pc s 0 \<noteq> Waiting" "p_pc s 0 \<noteq> PopLock" "p_pc s 0 \<noteq> PopLocked" "p_pc s 0 \<noteq> Woken"
    using no_lost_wakeup [OF inv] assms(3) by blast+
  show ?thesis
  proof (cases "p_pc s 0")
    case (Got k)
    have "gets N (s\<lparr>p_pc := (p_pc s)(0 := Idle)\<rparr>) j"
      using inv_pc [OF inv, of 0 Idle] assms(2-) Got by (intro gets_Idle [where t = 0 and js = js]) auto
    moreover have "step N s (s\<lparr>p_pc := (p_pc s)(0 := Idle)\<rparr>)" using assms(3) Got by (rule pool_step.return_job)
    ultimately show ?thesis by (auto elim!: gets_step)
  next
    case (PushLock item)
    have "gets N (s\<lparr>p_lock := Some 0, p_pc := (p_pc s)(0 := PushLocked item)\<rparr>) j"
      using inv_move [OF inv, of 0 "PushLocked item" "Some 0"] assms(2-) PushLock
      by (intro gets_PushLocked [where t = 0 and js = js]) auto
    moreover have "step N s (s\<lparr>p_lock := Some 0, p_pc := (p_pc s)(0 := PushLocked item)\<rparr>)"
      using assms(3) PushLock assms(2) by (rule pool_step.lock_push)
    ultimately show ?thesis by (auto elim!: gets_step)
  qed (use none gets_Idle [OF inv assms(2,3)] locked_by [OF pool_invD(3) [OF inv] assms(3)] assms(2) in auto)
qed

lemma receives:
  assumes inv: "pool_inv N s (j # js)" and "0 < N"
  shows "gets N s j"
proof (cases "p_lock s")
  case (Some t)
  then have "t < N" "holding (p_pc s t)" using pool_invD(3) [OF inv] by (auto simp: locked_def)
  then show ?thesis
    using gets_PopLocked [OF inv] gets_PushLocked [OF inv] by (cases "p_pc s t") auto
qed (use gets_unlocked assms in blast)

end

interpretation wqf: fifo wq_list wq_push_item wq_pop_head "\<lambda>q. wq_head q = None"
  by unfold_locales (use wq_list_head wq_push_list wq_pop_list in blast)+

definition pool_of :: "wq_t \<Rightarrow> wq_t pool" where
  "pool_of q = \<lparr>p_queue = wq_init q, p_lock = None, p_pc = (\<lambda>_. Idle), p_pushed = [], p_popped = []\<rparr>"

abbreviation wq_step :: "nat \<Rightarrow> wq_t pool \<Rightarrow> wq_t pool \<Rightarrow> bool" where
  "wq_step N \<equiv> pool_step N wq_push_item wq_pop_head (\<lambda>q. wq_head q = None)"

lemma pool_of_start: "wqf.pool_start (pool_of q)"
  by (simp add: wqf.pool_start_def pool_of_def wq_init_def wq_list_empty)

text \<open>C5. Every item is received once and in the order of arrival: at any moment the items pushed so far are
  those received so far followed by those in the queue, and two threads are never inside the
  lock together.\<close>

theorem wq_exactly_once:
  assumes "(wq_step N)\<^sup>*\<^sup>* (pool_of q) s"
  shows "(\<exists>js. wq_list (p_queue s) js \<and> p_pushed s = p_popped s @ js)
    \<and> (t < N \<longrightarrow> u < N \<longrightarrow> holding (p_pc s t) \<longrightarrow> holding (p_pc s u) \<longrightarrow> t = u)"
  using wqf.inv_reachable [OF assms pool_of_start] by (auto simp: wqf.pool_inv_def dest: wqf.locked_one)

text \<open>C4. No wake-up is lost: whenever an item has been pushed and not yet received, and whatever the threads are doing (some may be
  asleep in \<open>pthread_cond_wait\<close>), the pool can go on to a state in which the oldest such item has been
  received; and if some thread is asleep then another one is already on its way to take an item.\<close>

theorem wq_no_lost_wakeup:
  assumes "(wq_step N)\<^sup>*\<^sup>* (pool_of q) s" and "p_pushed s = p_popped s @ j # js" and "0 < N"
  shows "(\<exists>s'. (wq_step N)\<^sup>*\<^sup>* s s' \<and> p_popped s' = p_popped s @ [j])
    \<and> ((\<exists>t < N. p_pc s t = Waiting) \<longrightarrow> (\<exists>u < N. p_pc s u = PopLock \<or> p_pc s u = PopLocked \<or> p_pc s u = Woken))"
proof -
  obtain ks where ks: "wqf.pool_inv N s ks" using wqf.inv_reachable [OF assms(1) pool_of_start] by blast
  then have "ks = j # js" using assms(2) by (auto simp: wqf.pool_inv_def)
  then show ?thesis using ks wqf.receives wqf.no_lost_wakeup assms(3) by (fastforce simp: wqf.gets_def)
qed

text \<open>A run of two threads: thread 0 finds the queue empty and sleeps, thread 1 pushes the socket 7 and wakes it.\<close>

definition empty_wq :: wq_t where
  "empty_wq = \<lparr>wq_head = None, wq_links = \<lparr>dl_next = (\<lambda>_. None), dl_prev = (\<lambda>_. None)\<rparr>, wq_items = (\<lambda>_. None), wq_brk = 1\<rparr>"

definition duo :: "nat option \<Rightarrow> pc \<Rightarrow> pc \<Rightarrow> wq_t pool" where
  "duo l a b = \<lparr>p_queue = empty_wq, p_lock = l, p_pc = (\<lambda>t. if t = 0 then a else if t = 1 then b else Idle), p_pushed = [], p_popped = []\<rparr>"

lemma duo_simps:
  "p_pc (duo l a b) 0 = a" "p_pc (duo l a b) 1 = b" "p_lock (duo l a b) = l" "p_queue (duo l a b) = empty_wq"
  "duo l a b\<lparr>p_pc := (p_pc (duo l a b))(0 := c)\<rparr> = duo l c b" "duo l a b\<lparr>p_pc := (p_pc (duo l a b))(1 := c)\<rparr> = duo l a c"
  "duo l a b\<lparr>p_lock := k, p_pc := (p_pc (duo l a b))(0 := c)\<rparr> = duo k c b"
  "duo l a b\<lparr>p_lock := k, p_pc := (p_pc (duo l a b))(1 := c)\<rparr> = duo k a c"
  by (auto simp: duo_def)

lemma duo_reached: "(wq_step 2)\<^sup>*\<^sup>* (pool_of empty_wq) (duo (Some 1) Waiting (PushLocked 7))"
proof -
  let ?R = "wq_step 2"
  have "pool_of empty_wq = duo None Idle Idle" by (auto simp: pool_of_def duo_def wq_init_def empty_wq_def)
  also have "?R\<^sup>*\<^sup>* (duo None Idle Idle) (duo None PopLock Idle)"
    using pool_step.call_pop [of 0 2 "duo None Idle Idle"] by (simp add: duo_simps r_into_rtranclp)
  also have "?R\<^sup>*\<^sup>* (duo None PopLock Idle) (duo (Some 0) PopLocked Idle)"
    using pool_step.lock_pop [of 0 2 "duo None PopLock Idle"] by (simp add: duo_simps r_into_rtranclp)
  also have "?R\<^sup>*\<^sup>* (duo (Some 0) PopLocked Idle) (duo None Waiting Idle)"
    using pool_step.wait [of 0 2 "duo (Some 0) PopLocked Idle" "\<lambda>q. wq_head q = None"]
    by (simp add: duo_simps r_into_rtranclp empty_wq_def)
  also have "?R\<^sup>*\<^sup>* (duo None Waiting Idle) (duo None Waiting (PushLock 7))"
    using pool_step.call_push [of 1 2 "duo None Waiting Idle" _ _ _ 7] by (simp add: duo_simps r_into_rtranclp del: One_nat_def)
  also have "?R\<^sup>*\<^sup>* (duo None Waiting (PushLock 7)) (duo (Some 1) Waiting (PushLocked 7))"
    using pool_step.lock_push [of 1 2 "duo None Waiting (PushLock 7)" 7] by (simp add: duo_simps r_into_rtranclp del: One_nat_def)
  finally show ?thesis .
qed

definition pushed_7 :: "wq_t pool" where
  "pushed_7 = (duo None Woken Idle)\<lparr>p_queue := the (wq_push_item empty_wq 7), p_pushed := [7]\<rparr>"

lemma pushed_7_reached: "(wq_step 2)\<^sup>*\<^sup>* (pool_of empty_wq) pushed_7"
proof -
  let ?s = "duo (Some 1) Waiting (PushLocked 7)"
  obtain q where q: "wq_push_item (p_queue ?s) 7 = Some q"
    using wq_push_list [of empty_wq "[]" 7] by (auto simp: wq_list_empty empty_wq_def duo_simps)
  have "p_pc (duo None Woken Idle) = (p_pc ?s)(1 := Idle, 0 := Woken)" by (auto simp: duo_def)
  then have "pushed_7 = ?s\<lparr>p_queue := q, p_lock := None, p_pc := (p_pc ?s)(1 := Idle, 0 := Woken), p_pushed := p_pushed ?s @ [7]\<rparr>"
    using q by (simp add: pushed_7_def duo_def del: One_nat_def)
  moreover have "wq_step 2 ?s \<dots>" by (rule pool_step.push_wake) (use q in \<open>simp_all add: duo_simps del: One_nat_def\<close>)
  ultimately have "wq_step 2 ?s pushed_7" by simp
  then show ?thesis using duo_reached by (rule rtranclp.rtrancl_into_rtrancl [rotated])
qed

theorem wq_exactly_once_witness:
  "(\<exists>js. wq_list (p_queue pushed_7) js \<and> p_pushed pushed_7 = p_popped pushed_7 @ js)
   \<and> p_pushed pushed_7 = [7]"
  using wq_exactly_once [OF pushed_7_reached, of 0 1] by (simp add: pushed_7_def)

theorem wq_no_lost_wakeup_witness:
  "\<exists>s'. (wq_step 2)\<^sup>*\<^sup>* pushed_7 s' \<and> p_popped s' = [7]"
  using wq_no_lost_wakeup [OF pushed_7_reached, of 7 "[]"] by (auto simp: pushed_7_def duo_def)

end
