(* ===== verification/SocketServer.thy ===== *)
theory SocketServer
  imports KvServer TpcMaster Wq
begin

text \<open>
  The socket server, \<^verbatim>\<open>socket_server.c\<close>, and the two programs built on it, \<^verbatim>\<open>main/kvmaster.c\<close> and
  \<^verbatim>\<open>main/kvslave.c\<close>. The listening thread accepts connections and pushes their descriptors on
  the work queue; handler threads pop descriptors and run the handler of the key-value server
  or of the two-phase-commit master. A handler thread is the endless loop
  \<open>request_handler\<close>, here cut after a given number of requests; the interleaving of threads
  on the queue is the subject of theory \<open>Wq\<close>.

  The operating system's socket calls are parameters. The union of the server structure is a
  datatype; using the wrong member is undefined.
\<close>

subsection \<open>The server structure\<close>

datatype server_role = Kvserver kvserver_t | Tpcmaster tpcmaster_t

record server_t =
  sr_master :: bool
  listening :: bool
  sr_sockfd :: int
  sr_max_threads :: int
  sr_port :: int
  sr_hostname :: string
  sr_wq :: wq_t
  sr_role :: server_role

text \<open>What the handlers take from their surroundings: whether a stack array of a given size can be
  had, the bytes behind it, the JSON library, and the usable size of an allocation. The
  connections are a map from descriptors to sockets.\<close>

record 'j c_env =
  e_vla :: "nat \<Rightarrow> bool"
  e_behind :: "char list"
  e_api :: "'j json_api"
  e_usable :: "nat \<Rightarrow> nat"

type_synonym conns = "int \<Rightarrow> socket option"

subsection \<open>Handlers\<close>

text \<open>\<open>wq_pop\<close> by a thread that nothing interferes with: on an empty queue it never returns.\<close>

definition wq_pop :: "wq_t \<Rightarrow> (int \<times> wq_t) c_res" where
  "wq_pop wq = (if wq_head wq = None then None else wq_pop_head wq)"

definition handle_master :: "'j c_env \<Rightarrow> posix \<times> conns \<times> server_t \<Rightarrow> (posix \<times> conns \<times> server_t) c_res" where
  "handle_master env = (\<lambda>(w, cs, server). do {
     (fd, q) \<leftarrow> wq_pop (sr_wq server);
     master \<leftarrow> (case sr_role server of Tpcmaster m \<Rightarrow> Some m | _ \<Rightarrow> None);
     sock \<leftarrow> cs fd;
     (master', sock') \<leftarrow> tpcmaster_handle (malloc_ok w) (e_vla env) (e_usable env) (e_behind env) (e_api env) master sock;
     Some (w, cs(fd \<mapsto> sock'), server\<lparr>sr_wq := q, sr_role := Tpcmaster master'\<rparr>)
   })"

definition handle_slave :: "'j c_env \<Rightarrow> posix \<times> conns \<times> server_t \<Rightarrow> (posix \<times> conns \<times> server_t) c_res" where
  "handle_slave env = (\<lambda>(w, cs, server). do {
     (fd, q) \<leftarrow> wq_pop (sr_wq server);
     kv \<leftarrow> (case sr_role server of Kvserver k \<Rightarrow> Some k | _ \<Rightarrow> None);
     sock \<leftarrow> cs fd;
     (w', kv', sock') \<leftarrow> kvserver_handle (e_vla env) (e_behind env) (e_api env) w kv sock;
     Some (w', cs(fd \<mapsto> sock'), server\<lparr>sr_wq := q, sr_role := Kvserver kv'\<rparr>)
   })"

definition handle :: "'j c_env \<Rightarrow> posix \<times> conns \<times> server_t \<Rightarrow> (posix \<times> conns \<times> server_t) c_res" where
  "handle env s = (if sr_master (snd (snd s)) then handle_master env s else handle_slave env s)"

fun request_handler :: "nat \<Rightarrow> 'j c_env \<Rightarrow> posix \<times> conns \<times> server_t \<Rightarrow> (posix \<times> conns \<times> server_t) c_res" where
  "request_handler 0 env s = Some s"
| "request_handler (Suc n) env s = do { s' \<leftarrow> handle env s; request_handler n env s' }"

subsection \<open>Connecting and listening\<close>

text \<open>\<open>connect_to\<close>: the results of \<open>socket\<close>, \<open>gethostbyname\<close> and \<open>connect\<close>. A failed \<open>socket\<close> is
  not noticed by itself; \<open>connect\<close> then fails on it.\<close>

definition connect_to :: "int \<Rightarrow> (string \<Rightarrow> 'h option) \<Rightarrow> (int \<Rightarrow> 'h \<Rightarrow> int \<Rightarrow> int) \<Rightarrow> string \<Rightarrow> int \<Rightarrow> int" where
  "connect_to sockfd gethostbyname connect host prt =
     (case gethostbyname host of
        None \<Rightarrow> -1
      | Some ent \<Rightarrow> if connect sockfd ent (prt mod 65536) < 0 then -1 else sockfd)"

record net_api =
  net_socket :: int
  net_setsockopt :: int
  net_bind :: int
  net_listen :: int

text \<open>The set-up part of \<open>server_run\<close>; the left result is \<open>exit(errno)\<close>.\<close>

definition server_setup :: "(nat \<Rightarrow> bool) \<Rightarrow> net_api \<Rightarrow> string \<Rightarrow> int \<Rightarrow> server_t \<Rightarrow> (unit + server_t) c_res" where
  "server_setup mok net hostname prt server =
     (if \<not> mok (length hostname + 1) then None
      else let server1 = server\<lparr>sr_wq := wq_init (sr_wq server), listening := True, sr_port := prt, sr_hostname := hostname,
             sr_sockfd := net_socket net\<rparr> in
        if net_socket net = -1 then Some (Inl ())
        else if net_setsockopt net = -1 then Some (Inl ())
        else if net_bind net = -1 then Some (Inl ())
        else if net_listen net = -1 then Some (Inl ())
        else Some (Inr server1))"

definition server_stop :: "server_t \<Rightarrow> server_t" where
  "server_stop server = server\<lparr>listening := False\<rparr>"

text \<open>What happens while the listening thread is in \<open>accept\<close>: a result of \<open>accept\<close>, or another
  thread stops the server, which makes \<open>accept\<close> fail. With no more events the thread is in \<open>accept\<close>.\<close>

datatype net_event = Accepted int | Stopped

definition wq_push :: "wq_t \<Rightarrow> int \<Rightarrow> wq_t c_res" where
  "wq_push wq item = wq_push_item wq item"

fun accept_loop :: "server_t \<Rightarrow> net_event list \<Rightarrow> server_t c_res" where
  "accept_loop server [] = Some server"
| "accept_loop server (e # es) =
     (if \<not> listening server then Some server
      else case e of
        Accepted client_sock \<Rightarrow>
          (if client_sock > 0
           then do { q \<leftarrow> wq_push (sr_wq server) client_sock; accept_loop (server\<lparr>sr_wq := q\<rparr>) es }
           else accept_loop server es)
      | Stopped \<Rightarrow> accept_loop (server_stop server) es)"

text \<open>\<open>server_run\<close> up to the last given event; its handler threads are run separately.\<close>

definition server_run :: "(nat \<Rightarrow> bool) \<Rightarrow> net_api \<Rightarrow> string \<Rightarrow> int \<Rightarrow> server_t \<Rightarrow> net_event list \<Rightarrow> (unit + server_t) c_res" where
  "server_run mok net hostname prt server es = do {
     r \<leftarrow> server_setup mok net hostname prt server;
     (case r of Inl u \<Rightarrow> Some (Inl u) | Inr server1 \<Rightarrow> do { s \<leftarrow> accept_loop server1 es; Some (Inr s) })
   }"

subsection \<open>The programs\<close>

text \<open>\<open>atoi\<close> assigned to an \<open>int\<close> keeps the low 32 bits. The arguments include the program name.
  \<open>None\<close> is the exit with the usage message.\<close>

definition int_atoi :: "string \<Rightarrow> int" where
  "int_atoi s = sint (word_of_int (atoi s) :: u32)"

definition kvmaster_port :: "string list \<Rightarrow> int option" where
  "kvmaster_port argv =
     (if length argv > 1 then if length argv > 2 then None else Some (int_atoi (argv ! 1)) else Some 8888)"

definition kvmaster_server :: "(nat \<Rightarrow> bool) \<Rightarrow> int \<Rightarrow> tpcmaster_t \<Rightarrow> server_t \<Rightarrow> server_t" where
  "kvmaster_server mok lockret raw server =
     server\<lparr>sr_master := True, sr_max_threads := 3, sr_role := Tpcmaster (snd (tpcmaster_init mok lockret raw 2 2 4 4))\<rparr>"

text \<open>\<open>kvslave\<close> calls \<open>getopt_long\<close> once, on the option letter \<open>t\<close> and the long option \<open>tpc\<close>. Its
  results that matter are the kind returned (no option, the flag of the long option, the letter, an
  error) and the possibly permuted arguments.\<close>

datatype getopt_ret = NoOption | LongTpc | LetterT | BadOption

definition kvslave_args :: "getopt_ret \<Rightarrow> string list \<Rightarrow> (bool \<times> int \<times> int) option" where
  "kvslave_args c argv =
     (case c of
        BadOption \<Rightarrow> None
      | _ \<Rightarrow>
        (let tpc_mode = (c = LongTpc \<or> c = LetterT); index = (if c = LetterT then 1 else 0); rest = length argv - index - 1 in
         if index < length argv \<and> rest = 1 then
           if take 1 (argv ! (index + 1)) \<noteq> ''-'' then Some (tpc_mode, int_atoi (argv ! (index + 1)), 8888) else None
         else if index < length argv \<and> rest = 2 then
           if take 1 (argv ! (index + 1)) \<noteq> ''-'' then
             if take 1 (argv ! (index + 2)) \<noteq> ''-'' then Some (tpc_mode, int_atoi (argv ! (index + 1)), int_atoi (argv ! (index + 2)))
             else None
           else None
         else Some (tpc_mode, 9000, 8888)))"

text \<open>The rest of \<open>main\<close> up to the call of \<open>server_run\<close>. \<open>sock\<close> is the connection to the master, if
  \<open>connect_to\<close> gets one. The result is the exit code, or the world and the server to run.\<close>

definition kvslave_start :: "'j c_env \<Rightarrow> posix \<Rightarrow> int \<Rightarrow> kvserver_t \<Rightarrow> server_t \<Rightarrow> bool \<Rightarrow> int \<Rightarrow> socket option
    \<Rightarrow> (int + posix \<times> server_t) c_res" where
  "kvslave_start env w lockret slave server tpc_mode slave_port master = do {
     slave_name \<leftarrow> fits_in 20 (''slave-port'' @ dec_int slave_port);
     (_, w1, slave1) \<leftarrow> kvserver_init w lockret slave slave_name 4 4 2 ''localhost'' slave_port tpc_mode;
     let run = Inr (w1, server\<lparr>sr_master := False, sr_max_threads := 3, sr_role := Kvserver slave1\<rparr>);
     if \<not> tpc_mode then Some run
     else (case master of
         None \<Rightarrow> Some (Inl 1)
       | Some sock \<Rightarrow> do {
           (ret, _) \<leftarrow> kvserver_register_master (malloc_ok w1) (e_vla env) (e_behind env) (e_api env) slave1 sock;
           Some (if ret < 0 then Inl 1 else run)
         })
   }"

subsection \<open>The listening thread\<close>

text \<open>The connections accepted before the server is stopped.\<close>

fun accepted :: "net_event list \<Rightarrow> int list" where
  "accepted [] = []"
| "accepted (Accepted fd # es) = (if fd > 0 then fd # accepted es else accepted es)"
| "accepted (Stopped # es) = []"

lemma accept_loop_stopped [simp]: "\<not> listening server \<Longrightarrow> accept_loop server es = Some server"
  by (cases es) simp_all

lemma accept_loop_spec:
  assumes "wq_list (sr_wq server) js" and "listening server"
  shows "\<exists>q l. accept_loop server es = Some (server\<lparr>sr_wq := q, listening := l\<rparr>) \<and> wq_list q (js @ accepted es)
    \<and> (l \<longleftrightarrow> Stopped \<notin> set es)"
  using assms
proof (induction es arbitrary: server js)
  case Nil
  then show ?case by (intro exI [of _ "sr_wq server"] exI [of _ True]) simp
next
  case (Cons e es)
  show ?case
  proof (cases e)
    case (Accepted fd)
    show ?thesis
    proof (cases "fd > 0")
      case True
      obtain q where q: "wq_push_item (sr_wq server) fd = Some q" "wq_list q (js @ [fd])"
        using wq_push_list [OF Cons.prems(1)] by blast
      then show ?thesis using Cons.IH [of "server\<lparr>sr_wq := q\<rparr>" "js @ [fd]"] Cons.prems(2) True Accepted
        by (auto simp: wq_push_def)
    qed (use Cons Accepted in auto)
  next
    case Stopped
    then show ?thesis using Cons.prems
      by (intro exI [of _ "sr_wq server"] exI [of _ False]) (simp add: server_stop_def)
  qed
qed

subsection \<open>A handler thread\<close>

text \<open>The answers to a sequence of requests.\<close>

fun answers :: "(string \<Rightarrow> string option) \<Rightarrow> kv_op list \<Rightarrow> kvmessage_t list" where
  "answers m [] = []"
| "answers m (x # xs) = response_of m x # answers (snd (map_op m x)) xs"

text \<open>A fresh connection on which a client has sent a request, and its state when it is answered.\<close>

definition asking :: "'j json_api \<Rightarrow> kv_op \<Rightarrow> socket" where
  "asking api x = idle\<lparr>s_in := [Bytes (wire api (request_of x))]\<rparr>"

definition answered :: "'j json_api \<Rightarrow> kvmessage_t \<Rightarrow> socket" where
  "answered api r = idle\<lparr>s_out := wire api r\<rparr>"

definition env_ok :: "'j c_env \<Rightarrow> bool" where
  "env_ok env \<longleftrightarrow> json_laws (e_api env) \<and> e_vla env = (\<lambda>_. True) \<and> read_cstr (e_behind env) \<noteq> None"

definition sendable :: "'j json_api \<Rightarrow> kv_op \<Rightarrow> bool" where
  "sendable api x \<longleftrightarrow> op_valid x \<and> length (json_text api (kvmessage_json api (request_of x))) < 2147483648"

lemma handle_slave_spec:
  assumes env: "env_ok env" and ok: "server_ok n (w, kv)" and x: "sendable (e_api env) x" "n + puts [x] \<le> 2147483647"
    and kv: "\<not> use_tpc kv" and q: "wq_list (sr_wq server) (fd # fds)" and r: "sr_role server = Kvserver kv"
    and m: "\<not> sr_master server" and c: "cs fd = Some (asking (e_api env) x)"
  shows "\<exists>w' kv' q'. handle env (w, cs, server) = Some (w', cs(fd \<mapsto> answered (e_api env) (response_of (server_map (w, kv)) x)),
      server\<lparr>sr_wq := q', sr_role := Kvserver kv'\<rparr>)
    \<and> wq_list q' fds \<and> server_ok (n + puts [x]) (w', kv') \<and> server_map (w', kv') = snd (map_op (server_map (w, kv)) x)
    \<and> \<not> use_tpc kv'"
proof -
  obtain t where t: "read_cstr (e_behind env) = Some t" using env by (auto simp: env_ok_def)
  obtain q' where q': "wq_pop_head (sr_wq server) = Some (fd, q')" "wq_list q' fds" using wq_pop_list [OF q] by blast
  have h: "wq_head (sr_wq server) \<noteq> None" using wq_list_head [OF q] by simp
  obtain w' kv' where "kvserver_handle (e_vla env) (e_behind env) (e_api env) w kv (asking (e_api env) x) =
      Some (w', kv', answered (e_api env) (response_of (server_map (w, kv)) x))"
    "server_ok (n + puts [x]) (w', kv')" "server_map (w', kv') = snd (map_op (server_map (w, kv)) x)" "\<not> use_tpc kv'"
    using kvserver_handle_spec [OF _ t ok _ x(2) kv, of "e_api env" "asking (e_api env) x"] env x(1)
    by (auto simp: env_ok_def sendable_def asking_def answered_def idle_def)
  then show ?thesis using q' h r m c by (auto simp: handle_def handle_slave_def wq_pop_def)
qed

lemma request_handler_spec:
  assumes "env_ok env" and "server_ok n (w, kv)" and "list_all (sendable (e_api env)) xs" and "n + puts xs \<le> 2147483647"
    and "\<not> use_tpc kv" and "wq_list (sr_wq server) fds" and "sr_role server = Kvserver kv" and "\<not> sr_master server"
    and "distinct fds" and "map cs fds = map (\<lambda>x. Some (asking (e_api env) x)) xs"
  shows "\<exists>w' cs' kv' q'. request_handler (length fds) env (w, cs, server) = Some (w', cs', server\<lparr>sr_wq := q', sr_role := Kvserver kv'\<rparr>)
    \<and> wq_list q' [] \<and> map cs' fds = map (\<lambda>r. Some (answered (e_api env) r)) (answers (server_map (w, kv)) xs)
    \<and> (\<forall>fd. fd \<notin> set fds \<longrightarrow> cs' fd = cs fd)
    \<and> server_ok (n + puts xs) (w', kv') \<and> server_map (w', kv') = snd (map_ops (server_map (w, kv)) xs)"
  using assms
proof (induction xs arbitrary: n w kv server fds cs)
  case Nil
  then show ?case by (intro exI [of _ w] exI [of _ cs] exI [of _ kv] exI [of _ "sr_wq server"]) simp
next
  case (Cons x xs)
  then obtain fd fs where fds: "fds = fd # fs" by (cases fds) auto
  have p: "puts (x # xs) = puts [x] + puts xs" by (cases x) simp_all
  let ?m = "server_map (w, kv)" and ?m' = "snd (map_op (server_map (w, kv)) x)"
  define C where "C = cs(fd \<mapsto> answered (e_api env) (response_of ?m x))"
  obtain w1 kv1 q1 where 1: "handle env (w, cs, server) = Some (w1, C, server\<lparr>sr_wq := q1, sr_role := Kvserver kv1\<rparr>)"
    "wq_list q1 fs" "server_ok (n + puts [x]) (w1, kv1)" "server_map (w1, kv1) = ?m'" "\<not> use_tpc kv1"
    using handle_slave_spec [of env n w kv x server fd fs cs] Cons.prems fds p by (auto simp: C_def)
  have "map C fs = map (\<lambda>x. Some (asking (e_api env) x)) xs" using Cons.prems(9,10) fds by (auto simp: C_def)
  with Cons.IH [of "n + puts [x]" w1 kv1 "server\<lparr>sr_wq := q1, sr_role := Kvserver kv1\<rparr>" fs C] 1 Cons.prems fds p
  obtain w2 cs2 kv2 q2 where 2: "request_handler (length fs) env (w1, C, server\<lparr>sr_wq := q1, sr_role := Kvserver kv1\<rparr>) =
      Some (w2, cs2, server\<lparr>sr_wq := q2, sr_role := Kvserver kv2\<rparr>)" "wq_list q2 []"
    "map cs2 fs = map (\<lambda>r. Some (answered (e_api env) r)) (answers ?m' xs)" "\<forall>fd. fd \<notin> set fs \<longrightarrow> cs2 fd = C fd"
    "server_ok (n + puts (x # xs)) (w2, kv2)" "server_map (w2, kv2) = snd (map_ops ?m' xs)"
    by (auto simp: add.assoc)
  then show ?case using 1(1) fds Cons.prems(9)
    by (intro exI [of _ w2] exI [of _ cs2] exI [of _ kv2] exI [of _ q2]) (auto simp: split_beta Let_def C_def)
qed

text \<open>The long option \<open>--tpc\<close> does not do what the usage message says: alone or with one port it ends in
  the usage message, and with two ports these are ignored in favour of the defaults; the letter
  \<open>-t\<close> honours the ports.\<close>

lemma kvslave_long_option:
  "kvslave_args LongTpc [prog, ''--tpc''] = None \<and> kvslave_args LongTpc [prog, ''--tpc'', p] = None
   \<and> kvslave_args LongTpc [prog, ''--tpc'', p, q] = Some (True, 9000, 8888)
   \<and> (kvslave_args LetterT [prog, ''-t'', ''9001'', ''8889''] = Some (True, 9001, 8889))"
  by (simp add: kvslave_args_def int_atoi_def) code_simp

end
