(* ===== verification/Arithmetic.thy ===== *)
theory Arithmetic
  imports Prelude "HOL-Library.Signed_Division"
begin

text \<open>
  64-bit division on a 32-bit machine, \<^verbatim>\<open>lib/arithmetic.c\<close>: the routines the compiler calls for
  \<open>/\<close> and \<open>%\<close> on 64-bit integers, built from the machine instruction \<open>divl\<close>, which divides 64 by
  32 bits and traps when the quotient needs more than 32. A trap is \<open>None\<close>.

  The division is shown to be exact for all inputs, with no trap, for both branches of the
  algorithm; the remainder functions are shown to return only the low 32 bits of the
  remainder.
\<close>

unbundle bit_operations_syntax

subsection \<open>The routines\<close>

definition divl :: "u64 \<Rightarrow> u32 \<Rightarrow> u32 c_res" where
  "divl n d = (if d = 0 \<or> unat n div unat d \<ge> 2 ^ 32 then None else Some (word_of_nat (unat n div unat d)))"

definition nlz :: "u32 \<Rightarrow> nat" where
  "nlz x0 =
     (let (n1, x1) = (if x0 \<le> 0x0000FFFF then (16, push_bit 16 x0) else (0, x0));
          (n2, x2) = (if x1 \<le> 0x00FFFFFF then (n1 + 8, push_bit 8 x1) else (n1, x1));
          (n3, x3) = (if x2 \<le> 0x0FFFFFFF then (n2 + 4, push_bit 4 x2) else (n2, x2));
          (n4, x4) = (if x3 \<le> 0x3FFFFFFF then (n3 + 2, push_bit 2 x3) else (n3, x3))
      in if x4 \<le> 0x7FFFFFFF then n4 + 1 else n4)"

definition udiv64 :: "u64 \<Rightarrow> u64 \<Rightarrow> u64 c_res" where
  "udiv64 n d =
     (if drop_bit 32 d = 0 then do {
        let b = push_bit 32 (1 :: u64);
        let n1 = (ucast (drop_bit 32 n) :: u32);
        let n0 = (ucast n :: u32);
        let d0 = (ucast d :: u32);
        if d0 = 0 then None else do {
          q \<leftarrow> divl (b * ucast (n1 mod d0) + ucast n0) d0;
          Some (ucast q + b * ucast (n1 div d0))
        }
      }
      else if n < d then Some 0
      else do {
        let d1 = (ucast (drop_bit 32 d) :: u32);
        let s = nlz d1;
        q' \<leftarrow> divl (drop_bit 1 n) (ucast (drop_bit 32 (push_bit s d)));
        let q = (ucast (drop_bit (31 - s) q') :: u64);
        Some (if n - (q - 1) * d < d then q - 1 else q)
      })"

definition umod64 :: "u64 \<Rightarrow> u64 \<Rightarrow> u32 c_res" where
  "umod64 n d = do { q \<leftarrow> udiv64 n d; Some (ucast (n - d * q)) }"

text \<open>Signed numbers are the same words, read with \<open>sint\<close>.\<close>

definition sdiv64 :: "u64 \<Rightarrow> u64 \<Rightarrow> u64 c_res" where
  "sdiv64 n d = do {
     let n_abs = (if 0 \<le> sint n then n else - n);
     let d_abs = (if 0 \<le> sint d then d else - d);
     q_abs \<leftarrow> udiv64 n_abs d_abs;
     Some (if (sint n < 0) = (sint d < 0) then q_abs else - q_abs)
   }"

definition smod64 :: "u64 \<Rightarrow> u64 \<Rightarrow> u32 c_res" where
  "smod64 n d = do { q \<leftarrow> sdiv64 n d; Some (ucast (n - d * q)) }"

text \<open>The entry points: the 32-bit remainders are extended with or without sign.\<close>

definition divdi3 :: "u64 \<Rightarrow> u64 \<Rightarrow> u64 c_res" where
  "divdi3 n d = sdiv64 n d"

definition moddi3 :: "u64 \<Rightarrow> u64 \<Rightarrow> u64 c_res" where
  "moddi3 n d = do { r \<leftarrow> smod64 n d; Some (scast r) }"

definition udivdi3 :: "u64 \<Rightarrow> u64 \<Rightarrow> u64 c_res" where
  "udivdi3 n d = udiv64 n d"

definition umoddi3 :: "u64 \<Rightarrow> u64 \<Rightarrow> u64 c_res" where
  "umoddi3 n d = do { r \<leftarrow> umod64 n d; Some (ucast r) }"

subsection \<open>Counting leading zeros\<close>

text \<open>Each test of \<open>nlz\<close> shifts a value in whose upper half no bit is set.\<close>

lemma nlz_step:
  fixes x :: u32
  assumes "x \<le> c" and "Suc (unat c) * 2 ^ k = 2 ^ 32"
  shows "unat (push_bit k x) = unat x * 2 ^ k"
proof -
  have "unat x < Suc (unat c)" using assms(1) by (simp add: word_le_nat_alt)
  then have "unat x * 2 ^ k < Suc (unat c) * 2 ^ k" by (rule mult_less_mono1) simp
  then show ?thesis using assms(2) unat_push_bit [of x k] by simp
qed

lemma nlz_test:
  fixes x c :: u32
  assumes "unat x = a * 2 ^ n" and "l \<le> unat x" and "Suc (unat c) = l * 2 ^ k" and "Suc (unat c) * 2 ^ k = 2 ^ 32"
    and "(m, y) = (if x \<le> c then (n + k, push_bit k x) else (n, x))"
  shows "unat y = a * 2 ^ m" "Suc (unat c) \<le> unat y"
proof -
  have "l * 2 ^ k \<le> unat x * 2 ^ k" using assms(2) by simp
  then show "unat y = a * 2 ^ m" "Suc (unat c) \<le> unat y"
    using assms nlz_step [of x c k] by (auto simp: power_add word_le_nat_alt split: if_splits)
qed

lemma nlz_bounds:
  assumes "x \<noteq> 0"
  shows "2 ^ 31 \<le> unat x * 2 ^ nlz x" "unat x * 2 ^ nlz x < 2 ^ 32"
proof -
  have x: "1 \<le> unat x" using assms by (simp add: Suc_le_eq unat_gt_0)
  obtain n1 :: nat and x1 where 1: "(n1, x1) = (if x \<le> 0x0000FFFF then (16, push_bit 16 x) else (0, x))" by (metis surj_pair)
  obtain n2 x2 where 2: "(n2, x2) = (if x1 \<le> 0x00FFFFFF then (n1 + 8, push_bit 8 x1) else (n1, x1))" by (metis surj_pair)
  obtain n3 x3 where 3: "(n3, x3) = (if x2 \<le> 0x0FFFFFFF then (n2 + 4, push_bit 4 x2) else (n2, x2))" by (metis surj_pair)
  obtain n4 x4 where 4: "(n4, x4) = (if x3 \<le> 0x3FFFFFFF then (n3 + 2, push_bit 2 x3) else (n3, x3))" by (metis surj_pair)
  obtain n5 x5 where 5: "(n5, x5) = (if x4 \<le> 0x7FFFFFFF then (n4 + 1, push_bit 1 x4) else (n4, x4))" by (metis surj_pair)
  have c: "Suc (unat (0xFFFF :: u32)) = 1 * 2 ^ 16" "Suc (unat (0xFFFFFF :: u32)) = 2 ^ 16 * 2 ^ 8"
    "Suc (unat (0xFFFFFFF :: u32)) = 2 ^ 24 * 2 ^ 4" "Suc (unat (0x3FFFFFFF :: u32)) = 2 ^ 28 * 2 ^ 2"
    "Suc (unat (0x7FFFFFFF :: u32)) = 2 ^ 30 * 2 ^ 1" by simp_all
  have b1: "unat x1 = unat x * 2 ^ n1" "2 ^ 16 \<le> unat x1" using nlz_test [OF _ x c(1), of "unat x" 0 n1 x1] 1 c(1) by simp_all
  have b2: "unat x2 = unat x * 2 ^ n2" "2 ^ 24 \<le> unat x2" using nlz_test [OF b1 c(2) _ 2] c(2) by simp_all
  have b3: "unat x3 = unat x * 2 ^ n3" "2 ^ 28 \<le> unat x3" using nlz_test [OF b2 c(3) _ 3] c(3) by simp_all
  have b4: "unat x4 = unat x * 2 ^ n4" "2 ^ 30 \<le> unat x4" using nlz_test [OF b3 c(4) _ 4] c(4) by simp_all
  have b5: "unat x5 = unat x * 2 ^ n5" "2 ^ 31 \<le> unat x5" using nlz_test [OF b4 c(5) _ 5] c(5) by simp_all
  have "n5 = (if x4 \<le> 0x7FFFFFFF then n4 + 1 else n4)" using 5 by (metis prod.inject)
  then have "nlz x = n5" by (simp only: nlz_def Let_def 1 [symmetric] 2 [symmetric] 3 [symmetric] 4 [symmetric] split)
  then show "2 ^ 31 \<le> unat x * 2 ^ nlz x" "unat x * 2 ^ nlz x < 2 ^ 32" using b5 unsigned_less [of x5, where 'a = nat] by simp_all
qed

subsection \<open>The estimate of the quotient\<close>

text \<open>With the divisor normalised by a shift of \<open>s\<close> and cut to its upper half \<open>v\<close>, the estimate is
  the quotient by \<open>v * 2 ^ (32 - s)\<close>, which is at most the divisor and less than
  \<open>2 ^ (32 - s)\<close> below it.\<close>

lemma overshoot:
  fixes n D s v :: nat
  assumes n: "n < 2 ^ 64" and D: "2 ^ 63 \<le> D * 2 ^ s" and s: "s \<le> 31" and v: "2 ^ 31 \<le> v"
    and gt: "D < v * 2 ^ (32 - s) + 2 ^ (32 - s)"
  shows "n div (v * 2 ^ (32 - s)) \<le> n div D + 1"
proof (rule ccontr)
  let ?E = "2 ^ (32 - s) :: nat" and ?q = "n div D"
  assume "\<not> ?thesis"
  then have "(?q + 2) * (v * ?E) \<le> n div (v * ?E) * (v * ?E)" by (intro mult_le_mono1) simp
  also have "\<dots> \<le> n" by (rule div_times_less_eq_dividend)
  finally have 1: "(?q + 2) * (v * ?E) \<le> n" .
  have "0 < D" using D by (cases D) auto
  then have "n < (?q + 1) * D" using dividend_less_div_times [of D n] by (simp add: algebra_simps)
  also have "\<dots> \<le> (?q + 1) * (v * ?E + (?E - 1))" using gt by (intro mult_le_mono2) simp
  finally have "n < (?q + 1) * (v * ?E) + (?q + 1) * (?E - 1)" by (simp only: add_mult_distrib2)
  with 1 have 2: "v * ?E < (?q + 1) * (?E - 1)" by (simp add: algebra_simps)
  have "?q * 2 ^ 63 \<le> ?q * (D * 2 ^ s)" using D by (rule mult_le_mono2)
  also have "\<dots> \<le> n * 2 ^ s" by (simp flip: mult.assoc)
  also have "\<dots> < 2 ^ 64 * 2 ^ s" using n by simp
  also have "\<dots> = 2 ^ (s + 1) * 2 ^ 63" by simp
  finally have "?q + 1 \<le> 2 ^ (s + 1)" unfolding mult_less_cancel2 by simp
  then have "(?q + 1) * (?E - 1) \<le> 2 ^ (s + 1) * (?E - 1)" by (rule mult_le_mono1)
  also have "\<dots> = 2 ^ (s + 1) * ?E - 2 ^ (s + 1)" by (simp add: diff_mult_distrib2)
  also have "2 ^ (s + 1) * ?E = 2 ^ 33" using s by (simp flip: power_add)
  finally have 3: "v * ?E < 2 ^ 33 - 2 ^ (s + 1)" using 2 by linarith
  have "2 ^ 31 * ?E \<le> v * ?E" using v by (rule mult_le_mono1)
  moreover have "31 + (32 - s) = 63 - s" using s by simp
  ultimately have 4: "2 ^ (63 - s) \<le> v * ?E" by (metis power_add)
  show False
  proof (cases "s = 31")
    case False
    then have "(2 :: nat) ^ 33 \<le> 2 ^ (63 - s)" using s by (intro power_increasing) simp_all
    then show False using 3 4 by linarith
  qed (use 3 4 in simp)
qed

lemma estimate:
  fixes n D s :: nat
  assumes n: "n < 2 ^ 64" and D: "2 ^ 63 \<le> D * 2 ^ s" "D * 2 ^ s < 2 ^ 64" and s: "s \<le> 31"
  defines "v \<equiv> D * 2 ^ s div 2 ^ 32"
  shows "2 ^ 31 \<le> v" "v < 2 ^ 32" "n div 2 div v < 2 ^ 32"
    "n div D \<le> n div 2 div v div 2 ^ (31 - s)" "n div 2 div v div 2 ^ (31 - s) \<le> n div D + 1"
proof -
  show v: "2 ^ 31 \<le> v" "v < 2 ^ 32" using D unfolding v_def by (auto simp: less_mult_imp_div_less)
  have "n div 2 < 2 ^ 32 * v" using n v by simp
  then show "n div 2 div v < 2 ^ 32" by (simp add: less_mult_imp_div_less)
  define E :: nat where "E = 2 ^ (32 - s)"
  have E: "2 ^ s * E = 2 ^ 32" "2 * 2 ^ (31 - s) = E" using s by (simp_all add: E_def flip: power_add power_Suc)
  have q: "n div 2 div v div 2 ^ (31 - s) = n div (v * E)"
    by (simp add: E(2) [symmetric] mult.assoc mult.left_commute flip: div_mult2_eq)
  have "v * E * 2 ^ s \<le> D * 2 ^ s" unfolding v_def using E(1) div_times_less_eq_dividend [of "D * 2 ^ s" "2 ^ 32"]
    by (metis mult.assoc mult.commute)
  then have le: "v * E \<le> D" by simp
  have "D * 2 ^ s < (v + 1) * 2 ^ 32" unfolding v_def using dividend_less_div_times [of "2 ^ 32" "D * 2 ^ s"] by simp
  moreover have "(v + 1) * 2 ^ 32 = (v * E + E) * 2 ^ s" unfolding E(1) [symmetric] by (simp add: algebra_simps)
  ultimately have "D * 2 ^ s < (v * E + E) * 2 ^ s" by linarith
  then have gt: "D < v * E + E" by simp
  have pos: "0 < v * E" using v by (simp add: E_def)
  show "n div D \<le> n div 2 div v div 2 ^ (31 - s)" unfolding q using le pos by (rule div_le_mono2 [rotated])
  show "n div 2 div v div 2 ^ (31 - s) \<le> n div D + 1" unfolding q
    using overshoot [OF n D(1) s v(1) gt [unfolded E_def]] by (simp add: E_def)
qed

subsection \<open>Unsigned division\<close>

lemma div_u64: "unat q = unat n div unat d \<Longrightarrow> q = (n div d :: u64)"
  by (simp add: word_unat_eq_iff unat_div_distrib)

lemma unat_wide: "unat (ucast (x :: u32) :: u64) = unat x"
proof -
  have "unat x < 2 ^ 64" using unsigned_less [of x, where 'a = nat] by simp
  then show ?thesis by (simp add: unsigned_ucast_eq take_bit_nat_eq_self)
qed

lemma unat_sum: "unat x + unat y < 2 ^ 64 \<Longrightarrow> unat (x + y :: u64) = unat x + unat y"
  by (simp add: unat_word_ariths)

lemma unat_prod: "unat x * unat y < 2 ^ 64 \<Longrightarrow> unat (x * y :: u64) = unat x * unat y"
  by (simp add: unat_word_ariths)

lemma unat_low: "unat (ucast (n :: u64) :: u32) = unat n mod 2 ^ 32"
  by (simp add: unsigned_ucast_eq take_bit_eq_mod)

lemma unat_high: "unat (ucast (drop_bit 32 n :: u64) :: u32) = unat n div 2 ^ 32"
proof -
  have "unat n div 2 ^ 32 < 2 ^ 32" using unsigned_less [of n, where 'a = nat] by (simp add: less_mult_imp_div_less)
  then show ?thesis by (simp add: unat_low unat_drop_bit del: ucast_drop_bit_eq)
qed

lemma schoolbook:
  fixes n d b :: nat
  assumes "0 < d"
  shows "(b * (n div b mod d) + n mod b) div d + b * (n div b div d) = n div d"
proof -
  have "n = (b * (n div b mod d) + n mod b) + d * (b * (n div b div d))"
    by (metis add.assoc add.commute distrib_left mod_mult_div_eq mult.left_commute mult_div_mod_eq)
  then show ?thesis using assms by (metis div_mult_self2 add.commute gr_implies_not0)
qed

lemma divl_Some:
  assumes "d \<noteq> 0" and "unat n div unat d < 2 ^ 32"
  shows "\<exists>q. divl n d = Some q \<and> unat q = unat n div unat d"
  using assms by (simp add: divl_def unsigned_of_nat take_bit_nat_eq_self)

lemma udiv64_small:
  assumes d: "drop_bit 32 d = 0" "d \<noteq> 0"
  shows "udiv64 n d = Some (n div d)"
proof -
  define b :: u64 where "b = push_bit 32 1"
  define n1 n0 d0 :: u32 where "n1 = ucast (drop_bit 32 n)" and "n0 = ucast n" and "d0 = ucast d"
  have b: "unat b = 2 ^ 32" by (simp add: b_def unat_push_bit)
  have n1: "unat n1 = unat n div 2 ^ 32" and n0: "unat n0 = unat n mod 2 ^ 32"
    unfolding n1_def n0_def by (rule unat_high unat_low)+
  have "unat d div 2 ^ 32 = 0" using d(1) by (metis unat_drop_bit unat_0)
  then have "unat d < 2 ^ 32" by simp
  then have d0: "unat d0 = unat d" unfolding d0_def by (simp add: unat_low)
  have pos: "0 < unat d" using d(2) by (simp add: unat_gt_0)
  then have "d0 \<noteq> 0" using d0 by auto
  let ?r = "unat n1 mod unat d"
  have "?r < unat d" "unat n0 < 2 ^ 32" using pos n0 by simp_all
  then have lt: "2 ^ 32 * ?r + unat n0 < 2 ^ 32 * unat d" "2 ^ 32 * ?r + unat n0 < 2 ^ 64" using \<open>unat d < 2 ^ 32\<close> by simp_all
  have w: "unat (b * ucast (n1 mod d0) + ucast n0) = 2 ^ 32 * ?r + unat n0"
    using lt(2) by (simp add: unat_sum unat_prod unat_wide b d0 unat_mod_distrib)
  have "(2 ^ 32 * ?r + unat n0) div unat d < 2 ^ 32" using lt(1) by (rule less_mult_imp_div_less)
  then obtain q where q: "divl (b * ucast (n1 mod d0) + ucast n0) d0 = Some q" "unat q = (2 ^ 32 * ?r + unat n0) div unat d"
    using divl_Some [OF \<open>d0 \<noteq> 0\<close>, of "b * ucast (n1 mod d0) + ucast n0"] unfolding w d0 by blast
  have sum: "unat q + 2 ^ 32 * (unat n1 div unat d) = unat n div unat d"
    using schoolbook [OF pos, of "2 ^ 32" "unat n"] q(2) n1 n0 by simp
  have "unat n div unat d < 2 ^ 64" 
    using le_less_trans [OF div_le_dividend unsigned_less [of n]] by simp
  then have "unat (ucast q + b * ucast (n1 div d0)) = unat n div unat d"
    using sum by (simp add: unat_sum unat_prod unat_wide b d0 unat_div_distrib)
  then have "ucast q + b * ucast (n1 div d0) = n div d" by (rule div_u64)
  then show ?thesis using d(1) q(1) \<open>d0 \<noteq> 0\<close> by (simp add: udiv64_def Let_def b_def n1_def n0_def d0_def)
qed

text \<open>The shift that normalises the upper half of the divisor normalises the divisor.\<close>

lemma normalise:
  fixes D s :: nat
  assumes "2 ^ 31 \<le> D div 2 ^ 32 * 2 ^ s" and "D div 2 ^ 32 * 2 ^ s < 2 ^ 32"
  shows "2 ^ 63 \<le> D * 2 ^ s" "D * 2 ^ s < 2 ^ 64" "s \<le> 31"
proof -
  let ?h = "D div 2 ^ 32"
  have h: "?h * 2 ^ 32 \<le> D" "D < (?h + 1) * 2 ^ 32" by simp_all
  have "2 ^ 31 * 2 ^ 32 \<le> ?h * 2 ^ s * 2 ^ 32" using assms(1) by (rule mult_le_mono1)
  also have "\<dots> = ?h * 2 ^ 32 * 2 ^ s" by (simp only: ac_simps)
  also have "\<dots> \<le> D * 2 ^ s" using h(1) by (rule mult_le_mono1)
  finally show "2 ^ 63 \<le> D * 2 ^ s" by simp
  have "0 < ?h" using assms(1) by (cases ?h) auto
  then have "1 * 2 ^ s \<le> ?h * 2 ^ s" by (intro mult_le_mono1) simp
  then have "(2 :: nat) ^ s < 2 ^ 32" using assms(2) by (metis le_less_trans mult_1)
  then have "s < 32" by (rule power_less_imp_less_exp [rotated]) simp
  then show s: "s \<le> 31" by simp
  have e: "(2 :: nat) ^ 32 = 2 ^ (32 - s) * 2 ^ s" using s by (simp flip: power_add)
  then have "?h < 2 ^ (32 - s)" using assms(2) by (metis mult_less_cancel2)
  then have "?h + 1 \<le> 2 ^ (32 - s)" by simp
  then have "(?h + 1) * 2 ^ 32 * 2 ^ s \<le> 2 ^ (32 - s) * 2 ^ 32 * 2 ^ s" by (intro mult_le_mono1)
  also have "\<dots> = 2 ^ 32 * 2 ^ 32" using e by (metis mult.assoc mult.commute)
  finally have "(?h + 1) * 2 ^ 32 * 2 ^ s \<le> 2 ^ 64" by simp
  moreover have "D * 2 ^ s < (?h + 1) * 2 ^ 32 * 2 ^ s" using h(2) by (intro mult_less_mono1) simp_all
  ultimately show "D * 2 ^ s < 2 ^ 64" by linarith
qed

lemma correct_estimate:
  fixes n d q :: u64
  assumes "unat n div unat d \<le> unat q" and "unat q \<le> unat n div unat d + 1" and "d \<le> n" and "d \<noteq> 0"
  shows "(if n - (q - 1) * d < d then q - 1 else q) = n div d"
proof -
  let ?N = "unat n" and ?D = "unat d" and ?Q = "unat q"
  have D: "0 < ?D" "?D \<le> ?N" using assms(3,4) by (simp_all add: unat_gt_0 word_le_nat_alt)
  then have "1 \<le> ?N div ?D" by (simp add: Suc_le_eq div_greater_zero_iff)
  then have Q: "1 \<le> ?Q" using assms(1) by simp
  then have q1: "unat (q - 1) = ?Q - 1" by (simp add: unat_sub word_le_nat_alt)
  have "(?Q - 1) * ?D \<le> ?N div ?D * ?D" using assms(2) by (intro mult_le_mono1) simp
  then have le: "(?Q - 1) * ?D \<le> ?N" using div_times_less_eq_dividend le_trans by blast
  then have p: "unat ((q - 1) * d) = (?Q - 1) * ?D" using unsigned_less [of n, where 'a = nat] q1 by (simp add: unat_prod)
  have r: "unat (n - (q - 1) * d) = ?N - (?Q - 1) * ?D" using p le by (simp add: unat_sub word_le_nat_alt)
  have "?Q = ?N div ?D \<or> ?Q - 1 = ?N div ?D" using assms(1,2) by linarith
  then show ?thesis
  proof
    assume eq: "?Q - 1 = ?N div ?D"
    then have "?N - (?Q - 1) * ?D = ?N mod ?D" by (simp add: minus_div_mult_eq_mod)
    then have "n - (q - 1) * d < d" using r D(1) by (simp add: word_less_nat_alt)
    then show ?thesis using eq q1 by (simp add: div_u64)
  next
    assume eq: "?Q = ?N div ?D"
    have "(?Q - 1) * ?D + ?D = ?Q * ?D" using Q by (cases ?Q) auto
    also have "\<dots> \<le> ?N" unfolding eq by (rule div_times_less_eq_dividend)
    finally have "\<not> n - (q - 1) * d < d" using r by (simp add: word_less_nat_alt)
    then show ?thesis using eq by (simp add: div_u64)
  qed
qed

lemma udiv64_large:
  assumes d: "drop_bit 32 d \<noteq> 0"
  shows "udiv64 n d = Some (n div d)"
proof (cases "n < d")
  case True
  then have "0 = n div d" by (intro div_u64) (simp add: word_less_nat_alt)
  then show ?thesis using True d by (simp add: udiv64_def)
next
  case False
  define d1 v :: u32 where "d1 = ucast (drop_bit 32 d)" and "v = ucast (drop_bit 32 (push_bit (nlz d1) d))"
  have d1: "unat d1 = unat d div 2 ^ 32" unfolding d1_def by (rule unat_high)
  then have "d1 \<noteq> 0" using d by (metis unat_drop_bit unat_0 unat_eq_zero)
  note nlz = normalise [OF nlz_bounds [OF this, unfolded d1]]
  have v: "unat v = unat d * 2 ^ nlz d1 div 2 ^ 32" unfolding v_def unat_high using nlz(2) by (simp add: unat_push_bit)
  have N: "unat n < 2 ^ 64" using unsigned_less [of n, where 'a = nat] by simp
  note e = estimate [OF N nlz]
  have "v \<noteq> 0" using e(1) v by auto
  then obtain q' where q': "divl (drop_bit 1 n) v = Some q'" "unat q' = unat n div 2 div unat v"
    using divl_Some [of v "drop_bit 1 n"] e(3) v by (auto simp: unat_drop_bit)
  let ?q = "ucast (drop_bit (31 - nlz d1) q') :: u64"
  have "unat ?q = unat n div 2 div unat v div 2 ^ (31 - nlz d1)" by (simp only: unat_wide unat_drop_bit q'(2))
  then have "(if n - (?q - 1) * d < d then ?q - 1 else ?q) = n div d"
    using e(4,5) v False d by (intro correct_estimate) auto
  then show ?thesis 
    using False d q'(1) [unfolded v_def d1_def] unfolding udiv64_def Let_def d1_def by simp
qed

lemma udiv64_div: "d \<noteq> 0 \<Longrightarrow> udiv64 n d = Some (n div d)"
  using udiv64_small udiv64_large by blast

subsection \<open>Signed division\<close>

lemma uint_of_int: "0 \<le> k \<Longrightarrow> k < 2 ^ 64 \<Longrightarrow> uint (word_of_int k :: u64) = k"
  by (simp add: uint_word_of_int)

lemma uint_abs: "uint (if 0 \<le> sint n then n else - n :: u64) = \<bar>sint n\<bar>"
proof -
  have b: "- (2 ^ 63) \<le> sint n" "sint n < 2 ^ 63" using sint_ge [of n] sint_lt [of n] by simp_all
  have "uint n = sint n" if "0 \<le> sint n" using uint_of_int [OF that] b by simp
  moreover have "uint (- n) = - sint n" if "\<not> 0 \<le> sint n"
  proof -
    have "- n = word_of_int (- sint n)" by simp
    then show ?thesis using uint_of_int [of "- sint n"] b that by simp
  qed
  ultimately show ?thesis by simp
qed

lemma sdiv64_sdiv:
  assumes "d \<noteq> 0"
  shows "sdiv64 n d = Some (word_of_int (sint n sdiv sint d))"
proof -
  let ?n = "if 0 \<le> sint n then n else - n" and ?d = "if 0 \<le> sint d then d else - d"
  have "?d \<noteq> 0" using assms by simp
  then have "udiv64 ?n ?d = Some (?n div ?d)" by (rule udiv64_div)
  moreover have "?n div ?d = word_of_int (\<bar>sint n\<bar> div \<bar>sint d\<bar>)"
    by (metis uint_abs uint_div_distrib word_of_int_uint)
  moreover have "sint d \<noteq> 0" using assms by (metis signed_0 signed_word_eqI)
  ultimately show ?thesis by (auto simp: sdiv64_def Let_def signed_divide_int_def sgn_if)
qed

lemma ucast_of_int: "(ucast (word_of_int k :: u64) :: u32) = word_of_int k"
  by (simp add: unsigned_of_int word_of_int_eq_iff)

lemma smod64_smod:
  assumes "d \<noteq> 0"
  shows "smod64 n d = Some (word_of_int (sint n smod sint d))"
proof -
  have "n - d * word_of_int (sint n sdiv sint d) = (word_of_int (sint n - sint d * (sint n sdiv sint d)) :: u64)" by simp
  also have "sint n - sint d * (sint n sdiv sint d) = sint n smod sint d"
    by (metis diff_eq_eq smod_mult_sdiv_eq mult.commute)
  finally show ?thesis using assms by (simp add: smod64_def sdiv64_sdiv ucast_of_int)
qed

lemma umod64_mod: "d \<noteq> 0 \<Longrightarrow> umod64 n d = Some (ucast (n mod d))"
  by (simp add: umod64_def udiv64_div minus_mult_div_eq_mod)

subsection \<open>Properties\<close>

text \<open>C26. 64-bit division is exact: for every dividend and every divisor but zero the routines neither trap nor
  round wrongly. The unsigned quotient is that of the natural numbers; the signed quotient is
  truncated towards zero (and wraps in the one case that overflows).\<close>

theorem division_exact:
  assumes "d \<noteq> 0"
  shows "(\<exists>q. udivdi3 n d = Some q \<and> unat q = unat n div unat d)
    \<and> divdi3 n d = Some (word_of_int (sint n sdiv sint d))"
  using assms by (simp add: udivdi3_def divdi3_def udiv64_div sdiv64_sdiv unat_div_distrib)

theorem division_exact_witness:
  "(\<exists>q. udivdi3 18446744073709551615 4294967297 = Some q \<and> unat q = 4294967295)
    \<and> divdi3 (-7) 2 = Some (-3)"
proof -
  have "\<exists>q. udivdi3 18446744073709551615 4294967297 = Some q \<and> unat q = 4294967295"
    using division_exact [of 4294967297 18446744073709551615] by simp
  moreover have "divdi3 (-7) 2 = Some (-3)" using division_exact [of 2 "-7"] by (simp add: signed_divide_int_def)
  ultimately show ?thesis ..
qed

lemma sign_extend_exact:
  assumes "- (2 ^ 63) \<le> k" and "k < 2 ^ 63"
  shows "(word_of_int (signed_take_bit 31 k) :: u64) = word_of_int k \<longleftrightarrow> - (2 ^ 31) \<le> k \<and> k < 2 ^ 31"
proof -
  have "sint (word_of_int j :: u64) = j" if "- (2 ^ 63) \<le> j" "j < 2 ^ 63" for j
    using that by (simp add: signed_of_int signed_take_bit_int_eq_self)
  moreover have "- (2 ^ 63) \<le> signed_take_bit 31 k" "signed_take_bit 31 k < 2 ^ 63"
    using signed_take_bit_int_greater_eq_minus_exp [of 31 k] signed_take_bit_int_less_exp [of 31 k] by simp_all
  ultimately have "(word_of_int (signed_take_bit 31 k) :: u64) = word_of_int k \<longleftrightarrow> signed_take_bit 31 k = k"
    using assms by metis
  then show ?thesis by (simp add: signed_take_bit_int_eq_self_iff)
qed

lemma smod_range: "- (2 ^ 63) \<le> sint n smod sint d \<and> sint n smod sint d < 2 ^ 63" for n d :: u64
proof (cases "sint d = 0")
  case False
  have "\<bar>sint d\<bar> \<le> 2 ^ 63" using sint_ge [of d] sint_lt [of d] by simp
  then show ?thesis using smod_int_range [OF False, of "sint n"] by auto
qed (use sint_ge [of n] sint_lt [of n] in simp)

text \<open>C27. The remainder routines keep only the low half of the remainder: they are right exactly when the
  remainder fits in 32 bits (31 bits and a sign for the signed one).\<close>

theorem remainder_low_half:
  assumes "d \<noteq> 0"
  shows "(umoddi3 n d = Some (n mod d) \<longleftrightarrow> unat n mod unat d < 2 ^ 32)
    \<and> (moddi3 n d = Some (word_of_int (sint n smod sint d)) \<longleftrightarrow> - (2 ^ 31) \<le> sint n smod sint d \<and> sint n smod sint d < 2 ^ 31)"
proof -
  have "umoddi3 n d = Some (n mod d) \<longleftrightarrow> unat n mod unat d mod 2 ^ 32 = unat n mod unat d"
    using assms by (simp add: umoddi3_def umod64_mod word_unat_eq_iff unat_wide unat_low unat_mod_distrib)
  moreover have "moddi3 n d = Some (word_of_int (sint n smod sint d)) \<longleftrightarrow>
      (word_of_int (signed_take_bit 31 (sint n smod sint d)) :: u64) = word_of_int (sint n smod sint d)"
    using assms by (simp add: moddi3_def smod64_smod signed_of_int)
  moreover have "m mod 2 ^ 32 = m \<longleftrightarrow> m < 2 ^ 32" for m :: nat using mod_less_divisor [of "2 ^ 32" m] mod_less [of m "2 ^ 32"] by auto
  ultimately show ?thesis using smod_range [of n d] by (simp add: sign_extend_exact)
qed

theorem remainder_low_half_witness:
  "umoddi3 5000000000 10000000000 \<noteq> Some 5000000000 \<and> moddi3 (-7) 2 = Some (-1)"
  using remainder_low_half [of 10000000000 5000000000] remainder_low_half [of 2 "-7"] by (simp add: signed_modulo_int_def)

end
