(* ===== verification/FixedPoint.thy ===== *)
theory FixedPoint
  imports Prelude "HOL-Library.Signed_Division"
begin

text \<open>
  Fixed-point arithmetic of the Pintos scheduler, \<^verbatim>\<open>threads/fixed-point.h\<close>: 17.14-style numbers
  stored in an \<open>int\<close>, here with 16 bits after the point. Signed overflow and a failed assertion
  are \<open>None\<close>; the conversion of a \<open>long long\<close> to \<open>int\<close> keeps the low 32 bits; division truncates
  towards zero.

  The results give the exact range and the rounding error of each operation. They show that
  \<open>fix_round\<close> is a rounding to the nearest integer only for non-negative numbers, and that
  the range \<open>fix_int\<close> asserts is twice the range it can represent.
\<close>

subsection \<open>Machine integers\<close>

definition c_int :: "int \<Rightarrow> int c_res" where
  "c_int n = (if - (2 ^ 31) \<le> n \<and> n < 2 ^ 31 then Some n else None)"

definition to_int :: "int \<Rightarrow> int" where
  "to_int n = sint (word_of_int n :: u32)"

lemma c_int_range [simp]: "c_int n = Some m \<longleftrightarrow> m = n \<and> - (2 ^ 31) \<le> n \<and> n < 2 ^ 31"
  by (auto simp: c_int_def)

lemma to_int_id: "- (2 ^ 31) \<le> n \<Longrightarrow> n < 2 ^ 31 \<Longrightarrow> to_int n = n"
  by (simp add: to_int_def signed_of_int signed_take_bit_int_eq_self)

subsection \<open>Operations\<close>

definition FIX_P :: nat where "FIX_P = 16"

definition FIX_Q :: nat where "FIX_Q = 16"

definition FIX_F :: int where "FIX_F = push_bit FIX_Q 1"

definition FIX_MAX_INT :: int where "FIX_MAX_INT = push_bit FIX_P 1 - 1"

definition FIX_MIN_INT :: int where "FIX_MIN_INT = - FIX_MAX_INT"

record fixed_point_t =
  fp :: int

definition mk_fix :: "int \<Rightarrow> fixed_point_t" where
  "mk_fix f = \<lparr>fp = f\<rparr>"

definition fix_int :: "int \<Rightarrow> fixed_point_t c_res" where
  "fix_int n = (if FIX_MIN_INT \<le> n \<and> n \<le> FIX_MAX_INT then do { f \<leftarrow> c_int (n * FIX_F); Some (mk_fix f) } else None)"

definition fix_frac :: "int \<Rightarrow> int \<Rightarrow> fixed_point_t c_res" where
  "fix_frac n d =
     (if d = 0 then None
      else do {
        q \<leftarrow> c_int (n sdiv d);
        if FIX_MIN_INT \<le> q \<and> q \<le> FIX_MAX_INT then Some (mk_fix (to_int (n * FIX_F sdiv d))) else None
      })"

definition fix_round :: "fixed_point_t \<Rightarrow> int c_res" where
  "fix_round x = do { s \<leftarrow> c_int (fp x + FIX_F sdiv 2); Some (s sdiv FIX_F) }"

definition fix_trunc :: "fixed_point_t \<Rightarrow> int" where
  "fix_trunc x = fp x sdiv FIX_F"

definition fix_add :: "fixed_point_t \<Rightarrow> fixed_point_t \<Rightarrow> fixed_point_t c_res" where
  "fix_add x y = do { f \<leftarrow> c_int (fp x + fp y); Some (mk_fix f) }"

definition fix_sub :: "fixed_point_t \<Rightarrow> fixed_point_t \<Rightarrow> fixed_point_t c_res" where
  "fix_sub x y = do { f \<leftarrow> c_int (fp x - fp y); Some (mk_fix f) }"

definition fix_mul :: "fixed_point_t \<Rightarrow> fixed_point_t \<Rightarrow> fixed_point_t" where
  "fix_mul x y = mk_fix (to_int (fp x * fp y sdiv FIX_F))"

definition fix_scale :: "fixed_point_t \<Rightarrow> int \<Rightarrow> fixed_point_t c_res" where
  "fix_scale x n = (if n \<ge> 0 then do { f \<leftarrow> c_int (fp x * n); Some (mk_fix f) } else None)"

definition fix_div :: "fixed_point_t \<Rightarrow> fixed_point_t \<Rightarrow> fixed_point_t c_res" where
  "fix_div x y = (if fp y = 0 then None else Some (mk_fix (to_int (fp x * FIX_F sdiv fp y))))"

definition fix_unscale :: "fixed_point_t \<Rightarrow> int \<Rightarrow> fixed_point_t c_res" where
  "fix_unscale x n = (if n > 0 then Some (mk_fix (fp x sdiv n)) else None)"

definition fix_inv :: "fixed_point_t \<Rightarrow> fixed_point_t c_res" where
  "fix_inv x = do { one \<leftarrow> fix_int 1; fix_div one x }"

definition fix_compare :: "fixed_point_t \<Rightarrow> fixed_point_t \<Rightarrow> int" where
  "fix_compare x y = (if fp x < fp y then -1 else if fp x > fp y then 1 else 0)"

subsection \<open>Range and rounding\<close>

lemma FIX_values [simp]: "FIX_F = 65536" "FIX_MAX_INT = 65535" "FIX_MIN_INT = -65535"
  by (simp_all add: FIX_F_def FIX_MAX_INT_def FIX_MIN_INT_def FIX_Q_def FIX_P_def push_bit_eq_mult)

lemma fix_int_iff: "fix_int n = Some x \<longleftrightarrow> - 32768 \<le> n \<and> n \<le> 32767 \<and> x = mk_fix (n * 65536)"
  by (auto simp: fix_int_def bind_eq_Some_conv)

text \<open>Truncated division loses less than one divisor, towards zero.\<close>

lemma sdiv_error:
  fixes a b :: int
  assumes "b \<noteq> 0"
  shows "\<bar>a - b * (a sdiv b)\<bar> < \<bar>b\<bar>" "0 \<le> a \<Longrightarrow> 0 \<le> a - b * (a sdiv b)" "a \<le> 0 \<Longrightarrow> a - b * (a sdiv b) \<le> 0"
proof -
  have "a - b * (a sdiv b) = a smod b" by (rule minus_mult_sdiv_eq_smod)
  then show "\<bar>a - b * (a sdiv b)\<bar> < \<bar>b\<bar>" "0 \<le> a \<Longrightarrow> 0 \<le> a - b * (a sdiv b)" "a \<le> 0 \<Longrightarrow> a - b * (a sdiv b) \<le> 0"
    using assms by (auto simp: signed_modulo_int_def abs_mult sgn_if)
qed

lemma sdiv_exact: "(b :: int) \<noteq> 0 \<Longrightarrow> a * b sdiv b = a"
  using mult_sgn_abs [of a] by (cases b "0 :: int" rule: linorder_cases) (simp_all add: signed_divide_int_def abs_mult sgn_mult)

lemma fix_ops_int:
  "- 32768 \<le> a * b \<Longrightarrow> a * b \<le> 32767 \<Longrightarrow> fix_mul (mk_fix (a * 65536)) (mk_fix (b * 65536)) = mk_fix (a * b * 65536)"
  "- 32768 \<le> a * b \<Longrightarrow> a * b \<le> 32767 \<Longrightarrow> 0 < b \<Longrightarrow> fix_scale (mk_fix (a * 65536)) b = Some (mk_fix (a * b * 65536))"
  "0 < b \<Longrightarrow> fix_unscale (mk_fix (a * b * 65536)) b = Some (mk_fix (a * 65536))"
  "- 32768 \<le> a \<Longrightarrow> a \<le> 32767 \<Longrightarrow> 0 < b \<Longrightarrow> fix_div (mk_fix (a * b * 65536)) (mk_fix (b * 65536)) = Some (mk_fix (a * 65536))"
proof -
  assume "- 32768 \<le> a * b" "a * b \<le> 32767"
  moreover have "a * 65536 * (b * 65536) sdiv 65536 = a * b * 65536" using sdiv_exact [of 65536 "a * b * 65536"] by (simp add: ac_simps)
  ultimately show "fix_mul (mk_fix (a * 65536)) (mk_fix (b * 65536)) = mk_fix (a * b * 65536)"
    "0 < b \<Longrightarrow> fix_scale (mk_fix (a * 65536)) b = Some (mk_fix (a * b * 65536))"
    by (simp_all add: fix_mul_def fix_scale_def mk_fix_def to_int_id bind_eq_Some_conv ac_simps)
next
  assume "0 < b"
  then show "fix_unscale (mk_fix (a * b * 65536)) b = Some (mk_fix (a * 65536))"
    using sdiv_exact [of b "a * 65536"] by (simp add: fix_unscale_def mk_fix_def ac_simps)
next
  assume "- 32768 \<le> a" "a \<le> 32767" "0 < b"
  then show "fix_div (mk_fix (a * b * 65536)) (mk_fix (b * 65536)) = Some (mk_fix (a * 65536))"
    using sdiv_exact [of "b * 65536" "a * 65536"] by (simp add: fix_div_def mk_fix_def to_int_id ac_simps)
qed

subsection \<open>Properties\<close>

text \<open>C30. Integers survive the conversion to fixed point and back, sums, differences and products of
  representable integers are exact whenever the result is representable, and scaling and
  unscaling cancel.\<close>

theorem fix_exact:
  assumes "fix_int a = Some x" and "fix_int b = Some y"
  shows "fix_trunc x = a
    \<and> (- 32768 \<le> a + b \<and> a + b \<le> 32767 \<longrightarrow> fix_add x y = fix_int (a + b))
    \<and> (- 32768 \<le> a - b \<and> a - b \<le> 32767 \<longrightarrow> fix_sub x y = fix_int (a - b))
    \<and> (- 32768 \<le> a * b \<and> a * b \<le> 32767 \<longrightarrow> Some (fix_mul x y) = fix_int (a * b)
        \<and> (0 < b \<longrightarrow> fix_scale x b = fix_int (a * b) \<and> Option.bind (fix_scale x b) (\<lambda>z. fix_unscale z b) = Some x
            \<and> fix_div (fix_mul x y) y = Some x))
    \<and> fix_compare x y = sgn (a - b)"
proof -
  have ab: "x = mk_fix (a * 65536)" "y = mk_fix (b * 65536)" "- 32768 \<le> a" "a \<le> 32767" "- 32768 \<le> b" "b \<le> 32767"
    using assms by (auto simp: fix_int_iff)
  have "fix_trunc x = a" using ab(1) sdiv_exact [of 65536 a] by (simp add: fix_trunc_def mk_fix_def)
  moreover have "fix_compare x y = sgn (a - b)" using ab(1,2) by (auto simp: fix_compare_def mk_fix_def sgn_if)
  moreover have "fix_add x y = fix_int (a + b)" if "- 32768 \<le> a + b \<and> a + b \<le> 32767"
    using that ab(1,2) fix_int_iff [of "a + b" "mk_fix ((a + b) * 65536)"]
    by (simp add: fix_add_def mk_fix_def bind_eq_Some_conv algebra_simps)
  moreover have "fix_sub x y = fix_int (a - b)" if "- 32768 \<le> a - b \<and> a - b \<le> 32767"
    using that ab(1,2) fix_int_iff [of "a - b" "mk_fix ((a - b) * 65536)"]
    by (simp add: fix_sub_def mk_fix_def c_int_def algebra_simps)
  moreover have "fix_int (a * b) = Some (mk_fix (a * b * 65536))" if "- 32768 \<le> a * b \<and> a * b \<le> 32767" using that by (simp add: fix_int_iff)
  ultimately show ?thesis using ab fix_ops_int(1,2,4) [of a b] fix_ops_int(3) [of b a] by auto
qed

theorem fix_exact_witness:
  "\<exists>x y. fix_int 300 = Some x \<and> fix_int 25 = Some y \<and> fix_trunc x = 300 \<and> Some (fix_mul x y) = fix_int 7500
    \<and> fix_div (fix_mul x y) y = Some x"
  using fix_exact [of 300 "mk_fix (300 * 65536)" 25 "mk_fix (25 * 65536)"] by (simp add: fix_int_iff)

text \<open>C31. Rounding. A non-negative number is rounded to a nearest integer, but a negative one is not: every
  negative integer comes back one too large.\<close>

theorem fix_round_nearest:
  "(0 \<le> fp x \<and> fp x < 2147450880 \<longrightarrow> (\<exists>n. fix_round x = Some n \<and> 2 * \<bar>fp x - n * 65536\<bar> \<le> 65536))
   \<and> (- 32768 \<le> n \<and> n < 0 \<longrightarrow> Option.bind (fix_int n) fix_round = Some (n + 1))"
proof -
  have half: "(65536 :: int) sdiv 2 = 32768" by simp
  have "\<exists>n. fix_round x = Some n \<and> 2 * \<bar>fp x - n * 65536\<bar> \<le> 65536" if x: "0 \<le> fp x" "fp x < 2147450880"
    using sdiv_error [of 65536 "fp x + 32768"] x by (auto simp: fix_round_def half bind_eq_Some_conv)
  moreover have "Option.bind (fix_int n) fix_round = Some (n + 1)" if n: "- 32768 \<le> n" "n < 0"
  proof -
    have "fix_int n = Some (mk_fix (n * 65536))" using n by (simp add: fix_int_iff)
    moreover have "(n * 65536 + 32768) sdiv 65536 = n + 1"
      using sdiv_error [of 65536 "n * 65536 + 32768"] n by simp
    ultimately show ?thesis using n by (simp add: fix_round_def half mk_fix_def bind_eq_Some_conv)
  qed
  ultimately show ?thesis by blast
qed

theorem fix_round_nearest_witness:
  "(\<exists>n. fix_round (mk_fix 98304) = Some n \<and> 2 * \<bar>98304 - n * 65536\<bar> \<le> 65536)
   \<and> Option.bind (fix_int (-1)) fix_round = Some 0"
  using fix_round_nearest [of "mk_fix 98304" "-1"] by (simp add: mk_fix_def)

text \<open>The assertion of \<open>fix_int\<close> admits integers that the type cannot hold: every integer from 32768 to
  \<open>FIX_MAX_INT\<close>, and below -32768 down to \<open>FIX_MIN_INT\<close>, passes the assertion and overflows.\<close>

lemma fix_int_range:
  "fix_int n \<noteq> None \<longleftrightarrow> - 32768 \<le> n \<and> n \<le> 32767"
  using fix_int_iff [of n] by auto

end
