(* ===== verification/Bitmap.thy ===== *)
theory Bitmap
  imports Prelude
begin

text \<open>
  Bitmaps, \<^verbatim>\<open>lib/kernel/bitmap.c\<close>: a bit count and an array of 32-bit elements. Sizes and indices
  are 32-bit words, as \<open>size_t\<close> is on the machine; a failed assertion or an access outside the
  array is \<open>None\<close>.

  The abstract value of a bitmap is a list of truth values (\<open>bm_list\<close>); each operation is shown
  to be the obvious operation on that list. The contract \<open>bit_array\<close> states what the two
  allocators built on bitmaps (sectors of the file system, pages of memory) rely on, and holds
  the lemmas about allocation they share.
\<close>

unbundle bit_operations_syntax

subsection \<open>Representation\<close>

definition ELEM_BITS :: u32 where "ELEM_BITS = 32"

record bitmap =
  bit_cnt :: u32
  bits :: "u32 list"

definition DIV_ROUND_UP :: "u32 \<Rightarrow> u32 \<Rightarrow> u32" where
  "DIV_ROUND_UP x step = (x + step - 1) div step"

definition elem_idx :: "u32 \<Rightarrow> u32" where
  "elem_idx bit_idx = bit_idx div ELEM_BITS"

definition bit_mask :: "u32 \<Rightarrow> u32" where
  "bit_mask bit_idx = push_bit (unat (bit_idx mod ELEM_BITS)) 1"

definition elem_cnt :: "u32 \<Rightarrow> u32" where
  "elem_cnt cnt = DIV_ROUND_UP cnt ELEM_BITS"

definition byte_cnt :: "u32 \<Rightarrow> u32" where
  "byte_cnt cnt = 4 * elem_cnt cnt"

definition last_mask :: "bitmap \<Rightarrow> u32" where
  "last_mask b = (let last_bits = bit_cnt b mod ELEM_BITS in
     if last_bits \<noteq> 0 then push_bit (unat last_bits) 1 - 1 else -1)"

definition BITMAP_ERROR :: u32 where "BITMAP_ERROR = -1"

subsection \<open>Single bits\<close>

text \<open>An update of the element that holds a bit.\<close>

definition upd_elem :: "bitmap \<Rightarrow> u32 \<Rightarrow> (u32 \<Rightarrow> u32) \<Rightarrow> bitmap c_res" where
  "upd_elem b bit_idx f =
     (let idx = unat (elem_idx bit_idx) in
      if idx < length (bits b) then Some (b\<lparr>bits := (bits b)[idx := f (bits b ! idx)]\<rparr>) else None)"

definition bitmap_size :: "bitmap \<Rightarrow> u32" where
  "bitmap_size b = bit_cnt b"

definition bitmap_mark :: "bitmap \<Rightarrow> u32 \<Rightarrow> bitmap c_res" where
  "bitmap_mark b bit_idx = upd_elem b bit_idx (\<lambda>e. e OR bit_mask bit_idx)"

definition bitmap_reset :: "bitmap \<Rightarrow> u32 \<Rightarrow> bitmap c_res" where
  "bitmap_reset b bit_idx = upd_elem b bit_idx (\<lambda>e. e AND NOT (bit_mask bit_idx))"

definition bitmap_flip :: "bitmap \<Rightarrow> u32 \<Rightarrow> bitmap c_res" where
  "bitmap_flip b bit_idx = upd_elem b bit_idx (\<lambda>e. e XOR bit_mask bit_idx)"

definition bitmap_set :: "bitmap \<Rightarrow> u32 \<Rightarrow> bool \<Rightarrow> bitmap c_res" where
  "bitmap_set b idx val =
     (if \<not> idx < bit_cnt b then None else if val then bitmap_mark b idx else bitmap_reset b idx)"

definition bitmap_test :: "bitmap \<Rightarrow> u32 \<Rightarrow> bool c_res" where
  "bitmap_test b idx =
     (if \<not> idx < bit_cnt b \<or> \<not> unat (elem_idx idx) < length (bits b) then None
      else Some (bits b ! unat (elem_idx idx) AND bit_mask idx \<noteq> 0))"

subsection \<open>Runs of bits\<close>

text \<open>The loops over \<open>cnt\<close> bits: the index of the next bit and the number of bits left.\<close>

fun set_loop :: "bitmap \<Rightarrow> u32 \<Rightarrow> nat \<Rightarrow> bool \<Rightarrow> bitmap c_res" where
  "set_loop b i 0 val = Some b"
| "set_loop b i (Suc n) val = do { b' \<leftarrow> bitmap_set b i val; set_loop b' (i + 1) n val }"

definition in_range :: "bitmap \<Rightarrow> u32 \<Rightarrow> u32 \<Rightarrow> bool" where
  "in_range b start cnt \<longleftrightarrow> start \<le> bit_cnt b \<and> start + cnt \<le> bit_cnt b"

definition bitmap_set_multiple :: "bitmap \<Rightarrow> u32 \<Rightarrow> u32 \<Rightarrow> bool \<Rightarrow> bitmap c_res" where
  "bitmap_set_multiple b start cnt val = (if \<not> in_range b start cnt then None else set_loop b start (unat cnt) val)"

definition bitmap_set_all :: "bitmap \<Rightarrow> bool \<Rightarrow> bitmap c_res" where
  "bitmap_set_all b val = bitmap_set_multiple b 0 (bitmap_size b) val"

fun count_loop :: "bitmap \<Rightarrow> u32 \<Rightarrow> nat \<Rightarrow> bool \<Rightarrow> u32 \<Rightarrow> u32 c_res" where
  "count_loop b i 0 val value_cnt = Some value_cnt"
| "count_loop b i (Suc n) val value_cnt = do {
     t \<leftarrow> bitmap_test b i;
     count_loop b (i + 1) n val (if t = val then value_cnt + 1 else value_cnt)
   }"

definition bitmap_count :: "bitmap \<Rightarrow> u32 \<Rightarrow> u32 \<Rightarrow> bool \<Rightarrow> u32 c_res" where
  "bitmap_count b start cnt val = (if \<not> in_range b start cnt then None else count_loop b start (unat cnt) val 0)"

fun contains_loop :: "bitmap \<Rightarrow> u32 \<Rightarrow> nat \<Rightarrow> bool \<Rightarrow> bool c_res" where
  "contains_loop b i 0 val = Some False"
| "contains_loop b i (Suc n) val = do {
     t \<leftarrow> bitmap_test b i;
     if t = val then Some True else contains_loop b (i + 1) n val
   }"

definition bitmap_contains :: "bitmap \<Rightarrow> u32 \<Rightarrow> u32 \<Rightarrow> bool \<Rightarrow> bool c_res" where
  "bitmap_contains b start cnt val = (if \<not> in_range b start cnt then None else contains_loop b start (unat cnt) val)"

definition bitmap_any :: "bitmap \<Rightarrow> u32 \<Rightarrow> u32 \<Rightarrow> bool c_res" where
  "bitmap_any b start cnt = bitmap_contains b start cnt True"

definition bitmap_none :: "bitmap \<Rightarrow> u32 \<Rightarrow> u32 \<Rightarrow> bool c_res" where
  "bitmap_none b start cnt = map_option Not (bitmap_contains b start cnt True)"

definition bitmap_all :: "bitmap \<Rightarrow> u32 \<Rightarrow> u32 \<Rightarrow> bool c_res" where
  "bitmap_all b start cnt = map_option Not (bitmap_contains b start cnt False)"

subsection \<open>Searching\<close>

fun scan_loop :: "bitmap \<Rightarrow> u32 \<Rightarrow> nat \<Rightarrow> u32 \<Rightarrow> bool \<Rightarrow> u32 c_res" where
  "scan_loop b i 0 cnt val = Some BITMAP_ERROR"
| "scan_loop b i (Suc n) cnt val = do {
     c \<leftarrow> bitmap_contains b i cnt (\<not> val);
     if \<not> c then Some i else scan_loop b (i + 1) n cnt val
   }"

definition bitmap_scan :: "bitmap \<Rightarrow> u32 \<Rightarrow> u32 \<Rightarrow> bool \<Rightarrow> u32 c_res" where
  "bitmap_scan b start cnt val =
     (if \<not> start \<le> bit_cnt b then None
      else if cnt \<le> bit_cnt b then scan_loop b start (Suc (unat (bit_cnt b - cnt)) - unat start) cnt val
      else Some BITMAP_ERROR)"

definition bitmap_scan_and_flip :: "bitmap \<Rightarrow> u32 \<Rightarrow> u32 \<Rightarrow> bool \<Rightarrow> (u32 \<times> bitmap) c_res" where
  "bitmap_scan_and_flip b start cnt val = do {
     idx \<leftarrow> bitmap_scan b start cnt val;
     if idx \<noteq> BITMAP_ERROR then do { b' \<leftarrow> bitmap_set_multiple b idx cnt (\<not> val); Some (idx, b') }
     else Some (idx, b)
   }"

subsection \<open>Creation\<close>

text \<open>\<open>junk\<close> is what the fresh memory of the elements contains; the inner option is the null pointer.\<close>

definition bitmap_create :: "(nat \<Rightarrow> bool) \<Rightarrow> u32 list \<Rightarrow> u32 \<Rightarrow> bitmap option c_res" where
  "bitmap_create mok junk cnt =
     (if \<not> mok 8 then Some None
      else if \<not> mok (unat (byte_cnt cnt)) \<and> cnt \<noteq> 0 then Some None
      else map_option Some (bitmap_set_all \<lparr>bit_cnt = cnt, bits = take (unat (elem_cnt cnt)) junk\<rparr> False))"

definition bitmap_buf_size :: "u32 \<Rightarrow> u32" where
  "bitmap_buf_size cnt = 8 + byte_cnt cnt"

text \<open>In a buffer of \<open>block_size\<close> bytes, whose contents behind the header are \<open>junk\<close>.\<close>

definition bitmap_create_in_buf :: "u32 list \<Rightarrow> u32 \<Rightarrow> u32 \<Rightarrow> bitmap c_res" where
  "bitmap_create_in_buf junk cnt block_size =
     (if \<not> bitmap_buf_size cnt \<le> block_size then None
      else bitmap_set_all \<lparr>bit_cnt = cnt, bits = take (unat (elem_cnt cnt)) junk\<rparr> False)"

subsection \<open>Files\<close>

text \<open>The elements as bytes, least significant first. \<open>file_read_at\<close> fills the element array with the
  bytes it delivers (\<open>data\<close>, no more than asked for) and returns their number;
  \<open>file_write_at\<close> is given the bytes and returns how many it has written.\<close>

definition elem_bytes :: "u32 \<Rightarrow> u8 list" where
  "elem_bytes e = map (\<lambda>i. ucast (drop_bit (8 * i) e)) [0..<4]"

definition bytes_elem :: "u8 list \<Rightarrow> u32" where
  "bytes_elem ys = foldr (\<lambda>y e. ucast y OR push_bit 8 e) ys 0"

fun bytes_elems :: "nat \<Rightarrow> u8 list \<Rightarrow> u32 list" where
  "bytes_elems 0 ys = []"
| "bytes_elems (Suc n) ys = bytes_elem (take 4 ys) # bytes_elems n (drop 4 ys)"

definition bitmap_file_size :: "bitmap \<Rightarrow> u32" where
  "bitmap_file_size b = byte_cnt (bit_cnt b)"

definition bitmap_read :: "bitmap \<Rightarrow> u8 list \<Rightarrow> (bool \<times> bitmap) c_res" where
  "bitmap_read b data =
     (if bit_cnt b > 0 then
        (let size = unat (byte_cnt (bit_cnt b)); k = unat (elem_cnt (bit_cnt b)) - 1;
             old = concat (map elem_bytes (bits b));
             es = bytes_elems (length (bits b)) (data @ drop (length data) old)
         in if k < length es then Some (length data = size, b\<lparr>bits := es[k := es ! k AND last_mask b]\<rparr>) else None)
      else Some (True, b))"

definition bitmap_data :: "bitmap \<Rightarrow> u8 list" where
  "bitmap_data b = take (unat (byte_cnt (bit_cnt b))) (concat (map elem_bytes (bits b)))"

definition bitmap_write :: "bitmap \<Rightarrow> (u8 list \<Rightarrow> nat) \<Rightarrow> bool" where
  "bitmap_write b write = (write (bitmap_data b) = unat (byte_cnt (bit_cnt b)))"

subsection \<open>The abstract value\<close>

definition bm_wf :: "bitmap \<Rightarrow> bool" where
  "bm_wf b \<longleftrightarrow> unat (bit_cnt b) + 31 < 2 ^ 32 \<and> length (bits b) = (unat (bit_cnt b) + 31) div 32"

definition bm_list :: "bitmap \<Rightarrow> bool list" where
  "bm_list b = map (\<lambda>i. bit (bits b ! (i div 32)) (i mod 32)) [0..<unat (bit_cnt b)]"

lemma length_bm_list [simp]: "length (bm_list b) = unat (bit_cnt b)"
  by (simp add: bm_list_def)

lemma bm_list_nth: "i < unat (bit_cnt b) \<Longrightarrow> bm_list b ! i = bit (bits b ! (i div 32)) (i mod 32)"
  by (simp add: bm_list_def)

lemma elem_idx_unat: "unat (elem_idx i) = unat i div 32"
  by (simp add: elem_idx_def ELEM_BITS_def unat_div_distrib)

lemma bit_mask_push: "bit_mask i = push_bit (unat i mod 32) 1"
  by (simp add: bit_mask_def ELEM_BITS_def unat_mod_distrib)

lemma bit_bit_mask: "bit (bit_mask i) n \<longleftrightarrow> n = unat i mod 32"
  by (auto simp: bit_mask_push bit_simps)

lemma elem_in_array: "bm_wf b \<Longrightarrow> i < unat (bit_cnt b) \<Longrightarrow> i div 32 < length (bits b)"
  by (auto simp: bm_wf_def)

lemma upd_elem_spec:
  assumes wf: "bm_wf b" and i: "unat i < unat (bit_cnt b)"
    and f: "\<And>e n. n < 32 \<Longrightarrow> bit (f e) n = (if n = unat i mod 32 then val e else bit e n)"
  shows "\<exists>b'. upd_elem b i f = Some b' \<and> bm_wf b' \<and> bit_cnt b' = bit_cnt b
    \<and> bm_list b' = (bm_list b)[unat i := val (bits b ! (unat i div 32))]"
proof -
  let ?k = "unat i div 32"
  have k: "?k < length (bits b)" using elem_in_array [OF wf i] .
  let ?b = "b\<lparr>bits := (bits b)[?k := f (bits b ! ?k)]\<rparr>"
  have "bm_list ?b = (bm_list b)[unat i := val (bits b ! ?k)]"
  proof (rule nth_equalityI)
    fix j assume "j < length (bm_list ?b)"
    then have j: "j < unat (bit_cnt b)" by simp
    have "j = unat i \<longleftrightarrow> j div 32 = ?k \<and> j mod 32 = unat i mod 32" by (metis mult_div_mod_eq)
    then show "bm_list ?b ! j = (bm_list b)[unat i := val (bits b ! ?k)] ! j"
      using j k by (cases "j div 32 = ?k") (auto simp: bm_list_nth nth_list_update f)
  qed simp
  then show ?thesis using k wf by (auto simp: upd_elem_def elem_idx_unat bm_wf_def Let_def)
qed

lemma bitmap_mark_spec:
  assumes "bm_wf b" and "unat i < unat (bit_cnt b)"
  shows "\<exists>b'. bitmap_mark b i = Some b' \<and> bm_wf b' \<and> bit_cnt b' = bit_cnt b \<and> bm_list b' = (bm_list b)[unat i := True]"
  using upd_elem_spec [OF assms, of "\<lambda>e. e OR bit_mask i" "\<lambda>_. True"] by (auto simp: bitmap_mark_def bit_or_iff bit_bit_mask)

lemma bitmap_reset_spec:
  assumes "bm_wf b" and "unat i < unat (bit_cnt b)"
  shows "\<exists>b'. bitmap_reset b i = Some b' \<and> bm_wf b' \<and> bit_cnt b' = bit_cnt b \<and> bm_list b' = (bm_list b)[unat i := False]"
  using upd_elem_spec [OF assms, of "\<lambda>e. e AND NOT (bit_mask i)" "\<lambda>_. False"]
  by (auto simp: bitmap_reset_def bit_and_iff bit_not_iff bit_bit_mask)

lemma bitmap_flip_spec:
  assumes "bm_wf b" and "unat i < unat (bit_cnt b)"
  shows "\<exists>b'. bitmap_flip b i = Some b' \<and> bm_wf b' \<and> bit_cnt b' = bit_cnt b
    \<and> bm_list b' = (bm_list b)[unat i := \<not> bm_list b ! unat i]"
  using upd_elem_spec [OF assms, of "\<lambda>e. e XOR bit_mask i" "\<lambda>e. \<not> bit e (unat i mod 32)"] assms(2)
  by (auto simp: bitmap_flip_def bit_xor_iff bit_bit_mask bm_list_nth)

lemma bitmap_set_spec:
  assumes "bm_wf b" and "unat i < unat (bit_cnt b)"
  shows "\<exists>b'. bitmap_set b i v = Some b' \<and> bm_wf b' \<and> bit_cnt b' = bit_cnt b \<and> bm_list b' = (bm_list b)[unat i := v]"
  using bitmap_mark_spec [OF assms] bitmap_reset_spec [OF assms] assms(2) by (cases v) (auto simp: bitmap_set_def word_less_nat_alt)

lemma bitmap_test_spec:
  assumes "bm_wf b" and "unat i < unat (bit_cnt b)"
  shows "bitmap_test b i = Some (bm_list b ! unat i)"
  using elem_in_array [OF assms] assms(2)
  by (simp add: bitmap_test_def word_less_nat_alt elem_idx_unat bm_list_nth bit_mask_push bit_iff_and_push_bit_not_eq_0)

text \<open>Runs. \<open>run\<close> is a part of a list, and \<open>fill\<close> overwrites it.\<close>

definition run :: "nat \<Rightarrow> nat \<Rightarrow> 'a list \<Rightarrow> 'a list" where
  "run i n xs = take n (drop i xs)"

definition fill :: "nat \<Rightarrow> nat \<Rightarrow> 'a \<Rightarrow> 'a list \<Rightarrow> 'a list" where
  "fill i n v xs = take i xs @ replicate n v @ drop (i + n) xs"

lemma run_Suc: "i < length xs \<Longrightarrow> run i (Suc n) xs = xs ! i # run (Suc i) n xs"
  by (simp add: run_def take_Suc_conv_app_nth Cons_nth_drop_Suc [symmetric])

lemma run_0 [simp]: "run i 0 xs = []"
  by (simp add: run_def)

lemma length_run: "i + n \<le> length xs \<Longrightarrow> length (run i n xs) = n"
  by (simp add: run_def)

lemma length_fill [simp]: "i + n \<le> length xs \<Longrightarrow> length (fill i n v xs) = length xs"
  by (simp add: fill_def)

lemma nth_fill: "i + n \<le> length xs \<Longrightarrow> j < length xs \<Longrightarrow> fill i n v xs ! j = (if i \<le> j \<and> j < i + n then v else xs ! j)"
  by (auto simp: fill_def nth_append)

lemma fill_0 [simp]: "fill i 0 v xs = xs"
  by (simp add: fill_def)

lemma fill_Suc: "i + Suc n \<le> length xs \<Longrightarrow> fill (Suc i) n v (xs[i := v]) = fill i (Suc n) v xs"
  by (rule nth_equalityI) (auto simp: nth_fill nth_list_update)

text \<open>The next index does not wrap.\<close>

lemma unat_next:
  assumes "unat (i :: u32) < unat (c :: u32)"
  shows "unat (i + 1) = Suc (unat i)"
proof -
  have "Suc (unat i) < 2 ^ 32" using assms unsigned_less [of c, where 'a = nat] by simp
  then show ?thesis by (simp add: unat_word_ariths)
qed

lemma set_loop_spec:
  assumes "bm_wf b" and "unat i + n \<le> unat (bit_cnt b)"
  shows "\<exists>b'. set_loop b i n v = Some b' \<and> bm_wf b' \<and> bit_cnt b' = bit_cnt b \<and> bm_list b' = fill (unat i) n v (bm_list b)"
  using assms
proof (induction n arbitrary: b i)
  case (Suc n)
  then have i: "unat i < unat (bit_cnt b)" by simp
  obtain b1 where b1: "bitmap_set b i v = Some b1" "bm_wf b1" "bit_cnt b1 = bit_cnt b" "bm_list b1 = (bm_list b)[unat i := v]"
    using bitmap_set_spec [OF Suc.prems(1) i] by blast
  then show ?case using Suc.IH [of b1 "i + 1"] Suc.prems(2) unat_next [OF i] by (auto simp: fill_Suc)
qed auto

lemma contains_loop_spec:
  assumes "bm_wf b" and "unat i + n \<le> unat (bit_cnt b)"
  shows "contains_loop b i n v = Some (v \<in> set (run (unat i) n (bm_list b)))"
  using assms
proof (induction n arbitrary: i)
  case (Suc n)
  then have i: "unat i < unat (bit_cnt b)" by simp
  then show ?case using Suc bitmap_test_spec [OF Suc.prems(1) i] unat_next [OF i] by (auto simp: run_Suc)
qed auto

lemma count_loop_spec:
  assumes "bm_wf b" and "unat i + n \<le> unat (bit_cnt b)"
  shows "count_loop b i n v c = Some (c + word_of_nat (length (filter ((=) v) (run (unat i) n (bm_list b)))))"
  using assms
proof (induction n arbitrary: i c)
  case (Suc n)
  then have i: "unat i < unat (bit_cnt b)" by simp
  then show ?case using Suc bitmap_test_spec [OF Suc.prems(1) i] unat_next [OF i] by (auto simp: run_Suc)
qed auto

lemma in_range_unat:
  assumes "unat i + unat n \<le> unat (bit_cnt b)"
  shows "in_range b i n"
proof -
  have "unat (i + n) = unat i + unat n" using assms unsigned_less [of "bit_cnt b", where 'a = nat] by (simp add: unat_word_ariths)
  then show ?thesis using assms by (simp add: in_range_def word_le_nat_alt)
qed

lemma bitmap_set_multiple_spec:
  assumes "bm_wf b" and "unat i + unat n \<le> unat (bit_cnt b)"
  shows "\<exists>b'. bitmap_set_multiple b i n v = Some b' \<and> bm_wf b' \<and> bit_cnt b' = bit_cnt b
    \<and> bm_list b' = fill (unat i) (unat n) v (bm_list b)"
  using set_loop_spec [OF assms] in_range_unat [OF assms(2)] by (simp add: bitmap_set_multiple_def)

lemma bitmap_contains_spec:
  assumes "bm_wf b" and "unat i + unat n \<le> unat (bit_cnt b)"
  shows "bitmap_contains b i n v = Some (v \<in> set (run (unat i) (unat n) (bm_list b)))"
  using contains_loop_spec [OF assms] in_range_unat [OF assms(2)] by (simp add: bitmap_contains_def)

text \<open>The first group of equal values.\<close>

definition uniform :: "'a \<Rightarrow> 'a list \<Rightarrow> bool" where
  "uniform v xs \<longleftrightarrow> (\<forall>x \<in> set xs. x = v)"

definition first_group :: "nat \<Rightarrow> nat \<Rightarrow> 'a \<Rightarrow> 'a list \<Rightarrow> nat option" where
  "first_group start n v xs = find (\<lambda>i. uniform v (run i n xs)) [start..<Suc (length xs) - n]"

definition idx_word :: "nat option \<Rightarrow> u32" where
  "idx_word r = (case r of None \<Rightarrow> BITMAP_ERROR | Some i \<Rightarrow> word_of_nat i)"

lemma BITMAP_ERROR_unat: "unat BITMAP_ERROR = 4294967295"
  by (simp add: BITMAP_ERROR_def unsigned_minus_1_eq_mask mask_eq_exp_minus_1)

lemma uniform_bool: "(\<not> v) \<in> set xs \<longleftrightarrow> \<not> uniform v xs"
  unfolding uniform_def
proof
  assume "\<not> (\<forall>x \<in> set xs. x = v)"
  then obtain x where "x \<in> set xs" "x = (\<not> v)" by blast
  then show "(\<not> v) \<in> set xs" by simp
next
  assume a: "(\<not> v) \<in> set xs"
  show "\<not> (\<forall>x \<in> set xs. x = v)"
  proof
    assume "\<forall>x \<in> set xs. x = v"
    from bspec [OF this a] show False by simp
  qed
qed

lemma scan_loop_spec:
  assumes "bm_wf b" and "unat i + k + unat n \<le> Suc (unat (bit_cnt b))"
  shows "scan_loop b i k n v = Some (idx_word (find (\<lambda>i. uniform v (run i (unat n) (bm_list b))) [unat i..<unat i + k]))"
  using assms
proof (induction k arbitrary: i)
  case (Suc k)
  have "unat (bit_cnt b) + 31 < 2 ^ 32" using assms(1) by (simp add: bm_wf_def)
  then have "unat (i + 1) = Suc (unat i)" using Suc.prems(2) by (simp add: unat_word_ariths)
  moreover have "bitmap_contains b i n (\<not> v) = Some (\<not> (uniform v (run (unat i) (unat n) (bm_list b))))"
    using bitmap_contains_spec [OF assms(1), of i n "\<not> v"] Suc.prems(2) by (simp only: uniform_bool)
  ultimately show ?case using Suc by (simp add: upt_conv_Cons idx_word_def del: upt_Suc)
qed (simp add: idx_word_def)

lemma bitmap_scan_spec:
  assumes "bm_wf b" and "unat start \<le> unat (bit_cnt b)"
  shows "bitmap_scan b start n v = Some (idx_word (first_group (unat start) (unat n) v (bm_list b)))"
proof (cases "n \<le> bit_cnt b")
  case True
  then have le: "unat (bit_cnt b - n) = unat (bit_cnt b) - unat n" "unat n \<le> unat (bit_cnt b)" by (simp_all add: unat_sub word_le_nat_alt)
  show ?thesis
  proof (cases "unat start \<le> Suc (unat (bit_cnt b)) - unat n")
    case True
    then show ?thesis using scan_loop_spec [OF assms(1), of start "Suc (unat (bit_cnt b) - unat n) - unat start" n v] le assms(2) \<open>n \<le> bit_cnt b\<close>
      by (simp add: bitmap_scan_def first_group_def word_le_nat_alt Suc_diff_le del: upt_Suc)
  qed (use le assms(2) in \<open>simp add: bitmap_scan_def first_group_def word_le_nat_alt Suc_diff_le idx_word_def\<close>)
qed (use assms(2) in \<open>simp add: bitmap_scan_def first_group_def word_le_nat_alt idx_word_def\<close>)

lemma find_upt: "find P [a..<b] = Some i \<longleftrightarrow> a \<le> i \<and> i < b \<and> P i \<and> (\<forall>j. a \<le> j \<longrightarrow> j < i \<longrightarrow> \<not> P j)"
proof
  assume "find P [a..<b] = Some i"
  then obtain k where k: "k < b - a" "P (a + k)" "i = a + k" "\<And>j. j < k \<Longrightarrow> \<not> P (a + j)"
    by (auto simp: find_Some_iff less_diff_conv)
  have "\<not> P j" if "a \<le> j" "j < i" for j using k(4) [of "j - a"] that k(3) by simp
  then show "a \<le> i \<and> i < b \<and> P i \<and> (\<forall>j. a \<le> j \<longrightarrow> j < i \<longrightarrow> \<not> P j)" using k by auto
next
  assume "a \<le> i \<and> i < b \<and> P i \<and> (\<forall>j. a \<le> j \<longrightarrow> j < i \<longrightarrow> \<not> P j)"
  then show "find P [a..<b] = Some i" by (auto simp: find_Some_iff intro!: exI [of _ "i - a"])
qed

lemma first_group_Some:
  "first_group start n v xs = Some i \<longleftrightarrow> start \<le> i \<and> i + n \<le> length xs \<and> (uniform v (run i n xs))
     \<and> (\<forall>j. start \<le> j \<longrightarrow> j < i \<longrightarrow> \<not> (uniform v (run j n xs)))"
  unfolding first_group_def find_upt by auto

lemma first_group_None:
  "first_group start n v xs = None \<longleftrightarrow> (\<forall>i. start \<le> i \<longrightarrow> i + n \<le> length xs \<longrightarrow> \<not> (uniform v (run i n xs)))"
  by (auto simp: first_group_def find_None_iff)

lemma bitmap_scan_and_flip_spec:
  assumes wf: "bm_wf b" and "unat start \<le> unat (bit_cnt b)"
  shows "\<exists>b'. bitmap_scan_and_flip b start n v = Some (idx_word (first_group (unat start) (unat n) v (bm_list b)), b')
    \<and> bm_wf b' \<and> bit_cnt b' = bit_cnt b
    \<and> bm_list b' = (case first_group (unat start) (unat n) v (bm_list b) of None \<Rightarrow> bm_list b
        | Some i \<Rightarrow> fill i (unat n) (\<not> v) (bm_list b))"
proof (cases "first_group (unat start) (unat n) v (bm_list b)")
  case None
  then show ?thesis using bitmap_scan_spec [OF assms, of n v] wf by (simp add: bitmap_scan_and_flip_def idx_word_def)
next
  case (Some i)
  then have i: "i + unat n \<le> unat (bit_cnt b)" by (simp add: first_group_Some)
  then have "i + 31 < 2 ^ 32" using wf by (simp add: bm_wf_def)
  then have u: "unat (word_of_nat i :: u32) = i" by (simp add: unsigned_of_nat take_bit_nat_eq_self)
  then have "(word_of_nat i :: u32) \<noteq> BITMAP_ERROR" using \<open>i + 31 < 2 ^ 32\<close> BITMAP_ERROR_unat by auto
  then show ?thesis
    using bitmap_set_multiple_spec [OF wf, of "word_of_nat i" n "\<not> v"] bitmap_scan_spec [OF assms, of n v] Some i u
    by (auto simp: bitmap_scan_and_flip_def idx_word_def)
qed

subsection \<open>Creation and files\<close>

lemma elem_cnt_unat: "unat cnt + 31 < 2 ^ 32 \<Longrightarrow> unat (elem_cnt cnt) = (unat cnt + 31) div 32"
proof -
  assume "unat cnt + 31 < 2 ^ 32"
  then have "unat (cnt + 31) = unat cnt + 31" by (simp add: unat_word_ariths)
  moreover have "cnt + 32 - 1 = cnt + 31" by simp
  then have "elem_cnt cnt = (cnt + 31) div 32" unfolding elem_cnt_def DIV_ROUND_UP_def ELEM_BITS_def by (rule arg_cong)
  ultimately show ?thesis by (simp add: unat_div_distrib)
qed

lemma bitmap_set_all_spec:
  assumes "bm_wf b"
  shows "\<exists>b'. bitmap_set_all b v = Some b' \<and> bm_wf b' \<and> bit_cnt b' = bit_cnt b \<and> bm_list b' = replicate (unat (bit_cnt b)) v"
  using bitmap_set_multiple_spec [OF assms, of 0 "bit_cnt b" v] by (simp add: bitmap_set_all_def bitmap_size_def fill_def)

lemma fresh_wf:
  assumes "unat cnt + 31 < 2 ^ 32" and "unat (elem_cnt cnt) \<le> length junk"
  shows "bm_wf \<lparr>bit_cnt = cnt, bits = take (unat (elem_cnt cnt)) junk\<rparr>"
  using assms by (simp add: bm_wf_def elem_cnt_unat)

lemma bitmap_create_spec:
  assumes "unat cnt + 31 < 2 ^ 32" and "unat (elem_cnt cnt) \<le> length junk"
  shows "\<exists>b. bitmap_create (\<lambda>_. True) junk cnt = Some (Some b) \<and> bm_wf b \<and> bit_cnt b = cnt \<and> bm_list b = replicate (unat cnt) False"
  using bitmap_set_all_spec [OF fresh_wf [OF assms], of False] by (auto simp: bitmap_create_def)

lemma bytes_elem_bytes: "bytes_elem (elem_bytes e) = e"
proof (rule bit_word_eqI)
  fix n assume "n < LENGTH(32)"
  then consider "n < 8" | "8 \<le> n" "n < 16" | "16 \<le> n" "n < 24" | "24 \<le> n" "n < 32" by fastforce
  then show "bit (bytes_elem (elem_bytes e)) n = bit e n"
    by cases (simp_all add: bytes_elem_def elem_bytes_def upt_rec bit_simps less_diff_conv2)
qed

lemma length_elem_bytes [simp]: "length (elem_bytes e) = 4"
  by (simp add: elem_bytes_def)

lemma bytes_elems_inverse: "bytes_elems (length es) (concat (map elem_bytes es)) = es"
  by (induction es) (simp_all add: bytes_elem_bytes)

lemma bit_last_mask:
  assumes "n < 32"
  shows "bit (last_mask b) n \<longleftrightarrow> unat (bit_cnt b) mod 32 = 0 \<or> n < unat (bit_cnt b) mod 32"
proof -
  let ?l = "unat (bit_cnt b) mod 32"
  have l: "unat (bit_cnt b mod ELEM_BITS) = ?l" by (simp add: ELEM_BITS_def unat_mod_distrib)
  then have "bit_cnt b mod ELEM_BITS = 0 \<longleftrightarrow> ?l = 0" by (metis unat_0 unat_eq_zero)
  then have "last_mask b = (if ?l = 0 then -1 else mask ?l)"
    using l by (simp add: last_mask_def Let_def push_bit_eq_mult mask_eq_exp_minus_1)
  then show ?thesis using assms by (auto simp: bit_mask_iff)
qed

lemma mask_last_list:
  assumes "bm_wf b" and "bits b \<noteq> []"
  shows "bm_list (b\<lparr>bits := (bits b)[length (bits b) - 1 := last (bits b) AND last_mask b]\<rparr>) = bm_list b"
proof (rule nth_equalityI)
  let ?b = "b\<lparr>bits := (bits b)[length (bits b) - 1 := last (bits b) AND last_mask b]\<rparr>"
  fix j assume "j < length (bm_list ?b)"
  then have j: "j < unat (bit_cnt b)" by simp
  have "j mod 32 < unat (bit_cnt b) mod 32" if "j div 32 = length (bits b) - 1" "unat (bit_cnt b) mod 32 \<noteq> 0"
  proof -
    have "(32 * q + r + 31) div 32 = q + 1" if "0 < r" "r < 32" for q r :: nat
    proof -
      have e: "32 * q + r + 31 = (r - 1) + 32 * (q + 1)" "(r - 1) div 32 = 0" using that by simp_all
      show ?thesis unfolding e(1) by (subst div_mult_self2) (use e(2) in simp_all)
    qed
    from this [of "unat (bit_cnt b) mod 32" "unat (bit_cnt b) div 32"] that(2)
    have "(unat (bit_cnt b) + 31) div 32 = unat (bit_cnt b) div 32 + 1" by simp
    then have "j div 32 = unat (bit_cnt b) div 32" using that assms(1) by (simp add: bm_wf_def)
    then show ?thesis using j mult_div_mod_eq [of 32 j] mult_div_mod_eq [of 32 "unat (bit_cnt b)"] by linarith
  qed
  then show "bm_list ?b ! j = bm_list b ! j"
    using j elem_in_array [OF assms(1) j] assms(2)
    by (cases "j div 32 = length (bits b) - 1"; cases "unat (bit_cnt b) mod 32 = 0")
      (auto simp: bm_list_nth nth_list_update bit_and_iff bit_last_mask last_conv_nth)
qed simp

lemma bitmap_data_length:
  assumes "bm_wf b"
  shows "length (bitmap_data b) = unat (byte_cnt (bit_cnt b))" "bitmap_data b = concat (map elem_bytes (bits b))"
proof -
  have e: "unat (elem_cnt (bit_cnt b)) = length (bits b)" using assms by (simp add: bm_wf_def elem_cnt_unat)
  have "length (bits b) < 2 ^ 28" using assms by (auto simp: bm_wf_def)
  then have "unat (byte_cnt (bit_cnt b)) = 4 * length (bits b)" unfolding byte_cnt_def by (simp add: unat_word_ariths e)
  moreover have "length (concat (map elem_bytes (bits b))) = 4 * length (bits b)" by (simp add: length_concat comp_def sum_list_triv)
  ultimately show "length (bitmap_data b) = unat (byte_cnt (bit_cnt b))" "bitmap_data b = concat (map elem_bytes (bits b))"
    by (simp_all add: bitmap_data_def)
qed

lemma bitmap_read_data:
  assumes "bm_wf b" and "bm_wf c" and "bit_cnt c = bit_cnt b"
  shows "\<exists>c'. bitmap_read c (bitmap_data b) = Some (True, c') \<and> bm_wf c' \<and> bit_cnt c' = bit_cnt b \<and> bm_list c' = bm_list b"
proof (cases "bit_cnt b = 0")
  case True
  then show ?thesis using assms by (simp add: bitmap_read_def bm_list_def)
next
  case False
  have len: "length (bits c) = length (bits b)" using assms by (simp add: bm_wf_def)
  have old: "length (concat (map elem_bytes (bits c))) = length (bitmap_data b)"
    using bitmap_data_length(2) [OF assms(1)] len by (simp add: length_concat comp_def sum_list_triv)
  have es: "bytes_elems (length (bits c)) (bitmap_data b) = bits b"
    using bitmap_data_length(2) [OF assms(1)] len by (simp add: bytes_elems_inverse)
  have k: "unat (elem_cnt (bit_cnt b)) = length (bits b)" using assms(1) by (simp add: bm_wf_def elem_cnt_unat)
  have "0 < unat (bit_cnt b)" using False by (simp add: unat_gt_0)
  then have "0 < length (bits b)" using assms(1) by (simp add: bm_wf_def div_greater_zero_iff)
  then have ne: "bits b \<noteq> []" by simp
  let ?c = "c\<lparr>bits := (bits b)[length (bits b) - 1 := last (bits b) AND last_mask b]\<rparr>"
  have "bitmap_read c (bitmap_data b) = Some (True, ?c)"
    using False ne assms(3) k old es bitmap_data_length(1) [OF assms(1)]
    by (simp add: bitmap_read_def Let_def word_gt_0 last_conv_nth last_mask_def)
  moreover have "bm_list ?c = bm_list b" using mask_last_list [OF assms(1) ne] assms(3) by (simp add: bm_list_def)
  ultimately show ?thesis using assms by (simp add: bm_wf_def)
qed

subsection \<open>Allocation\<close>

text \<open>The number of blocks that contain a position.\<close>

definition owners :: "(nat \<times> nat) list \<Rightarrow> nat \<Rightarrow> nat" where
  "owners bs j = length (filter (\<lambda>(i, n). i \<le> j \<and> j < i + n) bs)"

lemma owners_Cons: "owners ((i, n) # bs) j = (if i \<le> j \<and> j < i + n then Suc (owners bs j) else owners bs j)"
  by (simp add: owners_def)

lemma owners_remove1:
  assumes "(i, n) \<in> set bs"
  shows "owners bs j = (if i \<le> j \<and> j < i + n then Suc (owners (remove1 (i, n) bs) j) else owners (remove1 (i, n) bs) j)"
  using assms by (induction bs) (auto simp: owners_def)

text \<open>The contract of the bitmap towards an allocator.\<close>

locale bit_array =
  fixes ba_ok :: "'b \<Rightarrow> bool"
    and ba_list :: "'b \<Rightarrow> bool list"
    and ba_take :: "'b \<Rightarrow> u32 \<Rightarrow> (u32 \<times> 'b) c_res"
    and ba_all :: "'b \<Rightarrow> u32 \<Rightarrow> u32 \<Rightarrow> bool c_res"
    and ba_clear :: "'b \<Rightarrow> u32 \<Rightarrow> u32 \<Rightarrow> 'b c_res"
  assumes take_law: "ba_ok b \<Longrightarrow> \<exists>b'. ba_take b n = Some (idx_word (first_group 0 (unat n) False (ba_list b)), b') \<and> ba_ok b'
      \<and> ba_list b' = (case first_group 0 (unat n) False (ba_list b) of None \<Rightarrow> ba_list b | Some i \<Rightarrow> fill i (unat n) True (ba_list b))"
    and all_law: "ba_ok b \<Longrightarrow> unat i + unat n \<le> length (ba_list b) \<Longrightarrow> ba_all b i n = Some (uniform True (run (unat i) (unat n) (ba_list b)))"
    and clear_law: "ba_ok b \<Longrightarrow> unat i + unat n \<le> length (ba_list b) \<Longrightarrow>
      \<exists>b'. ba_clear b i n = Some b' \<and> ba_ok b' \<and> ba_list b' = fill (unat i) (unat n) False (ba_list b)"
    and bound_law: "ba_ok b \<Longrightarrow> length (ba_list b) + 31 < 2 ^ 32"
begin

text \<open>The live blocks account for the bits: a set bit belongs to exactly one block, a clear one to none.\<close>

definition alloc_inv :: "'b \<Rightarrow> (nat \<times> nat) list \<Rightarrow> bool" where
  "alloc_inv b bs \<longleftrightarrow> ba_ok b \<and> (\<forall>(i, n) \<in> set bs. i + n \<le> length (ba_list b))
     \<and> (\<forall>j < length (ba_list b). owners bs j = (if ba_list b ! j then 1 else 0))"

lemma word_idx: "ba_ok b \<Longrightarrow> i \<le> length (ba_list b) \<Longrightarrow> unat (word_of_nat i :: u32) = i \<and> (word_of_nat i :: u32) \<noteq> BITMAP_ERROR"
  using bound_law [of b] BITMAP_ERROR_unat by (auto simp: unsigned_of_nat take_bit_nat_eq_self dest: arg_cong [where f = unat])

lemma uniform_run: "i + n \<le> length xs \<Longrightarrow> uniform v (run i n xs) \<longleftrightarrow> (\<forall>j. i \<le> j \<longrightarrow> j < i + n \<longrightarrow> xs ! j = v)"
proof -
  assume "i + n \<le> length xs"
  then have "uniform v (run i n xs) \<longleftrightarrow> (\<forall>k < n. xs ! (i + k) = v)" by (simp add: uniform_def run_def all_set_conv_all_nth)
  also have "\<dots> \<longleftrightarrow> (\<forall>j. i \<le> j \<longrightarrow> j < i + n \<longrightarrow> xs ! j = v)"
    by (metis add_less_cancel_left le_add1 le_iff_add)
  finally show ?thesis .
qed

lemma alloc_take:
  assumes "alloc_inv b bs"
  shows "\<exists>r b'. ba_take b n = Some (r, b') \<and>
    ((\<exists>i. r = word_of_nat i \<and> r \<noteq> BITMAP_ERROR \<and> unat r = i \<and> i + unat n \<le> length (ba_list b) \<and> length (ba_list b') = length (ba_list b)
        \<and> alloc_inv b' ((i, unat n) # bs))
     \<or> r = BITMAP_ERROR \<and> alloc_inv b' bs \<and> ba_list b' = ba_list b \<and> first_group 0 (unat n) False (ba_list b) = None)"
proof -
  have ok: "ba_ok b" using assms by (simp add: alloc_inv_def)
  obtain b' where b': "ba_take b n = Some (idx_word (first_group 0 (unat n) False (ba_list b)), b')" "ba_ok b'"
    "ba_list b' = (case first_group 0 (unat n) False (ba_list b) of None \<Rightarrow> ba_list b | Some i \<Rightarrow> fill i (unat n) True (ba_list b))"
    using take_law [OF ok] by blast
  show ?thesis
  proof (cases "first_group 0 (unat n) False (ba_list b)")
    case None
    then show ?thesis using b' assms by (auto simp: idx_word_def alloc_inv_def)
  next
    case (Some i)
    then have i: "i + unat n \<le> length (ba_list b)" "\<forall>j. i \<le> j \<longrightarrow> j < i + unat n \<longrightarrow> \<not> ba_list b ! j"
      using uniform_run [of i "unat n" "ba_list b" False] by (auto simp: first_group_Some)
    then have "alloc_inv b' ((i, unat n) # bs)"
      using b'(2,3) Some assms by (auto simp: alloc_inv_def owners_Cons nth_fill)
    then show ?thesis using b' Some i word_idx [OF ok, of i] by (auto simp: idx_word_def)
  qed
qed

lemma alloc_release:
  assumes "alloc_inv b bs" and "(unat i, unat n) \<in> set bs"
  shows "ba_all b i n = Some True \<and> (\<exists>b'. ba_clear b i n = Some b' \<and> alloc_inv b' (remove1 (unat i, unat n) bs)
    \<and> length (ba_list b') = length (ba_list b))"
proof -
  have ok: "ba_ok b" and le: "unat i + unat n \<le> length (ba_list b)"
    and own: "\<And>j. j < length (ba_list b) \<Longrightarrow> owners bs j = (if ba_list b ! j then 1 else 0)"
    using assms by (auto simp: alloc_inv_def)
  have one: "ba_list b ! j \<and> owners (remove1 (unat i, unat n) bs) j = 0" if "unat i \<le> j" "j < unat i + unat n" for j
    using own [of j] owners_remove1 [OF assms(2), of j] that le by (auto split: if_splits)
  then have "ba_all b i n = Some True" using all_law [OF ok le] by (simp add: uniform_run le)
  moreover obtain b' where b': "ba_clear b i n = Some b'" "ba_ok b'" "ba_list b' = fill (unat i) (unat n) False (ba_list b)"
    using clear_law [OF ok le] by blast
  moreover have "alloc_inv b' (remove1 (unat i, unat n) bs)"
    unfolding alloc_inv_def
  proof (intro conjI allI impI)
    show "\<forall>(i, n) \<in> set (remove1 (unat i, unat n) bs). i + n \<le> length (ba_list b')"
      using assms(1) b'(3) le by (auto simp: alloc_inv_def dest: notin_set_remove1 set_remove1_subset [THEN subsetD])
    fix j assume "j < length (ba_list b')"
    then show "owners (remove1 (unat i, unat n) bs) j = (if ba_list b' ! j then 1 else 0)"
      using b'(3) le own [of j] one [of j] owners_remove1 [OF assms(2), of j] by (auto simp: nth_fill)
  qed (use b' in simp)
  ultimately show ?thesis using le by simp
qed

end

interpretation bma: bit_array bm_wf bm_list "\<lambda>b n. bitmap_scan_and_flip b 0 n False" bitmap_all "\<lambda>b i n. bitmap_set_multiple b i n False"
proof unfold_locales
  fix b :: bitmap and i n :: u32
  assume wf: "bm_wf b"
  show "\<exists>b'. bitmap_scan_and_flip b 0 n False = Some (idx_word (first_group 0 (unat n) False (bm_list b)), b') \<and> bm_wf b'
      \<and> bm_list b' = (case first_group 0 (unat n) False (bm_list b) of None \<Rightarrow> bm_list b | Some i \<Rightarrow> fill i (unat n) True (bm_list b))"
    using bitmap_scan_and_flip_spec [OF wf, of 0 n False] unfolding not_False_eq_True unat_0 by blast
  show "length (bm_list b) + 31 < 2 ^ 32" using wf by (simp add: bm_wf_def)
  assume "unat i + unat n \<le> length (bm_list b)"
  then have le: "unat i + unat n \<le> unat (bit_cnt b)" by simp
  show "bitmap_all b i n = Some (uniform True (run (unat i) (unat n) (bm_list b)))"
    using bitmap_contains_spec [OF wf le, of False] uniform_bool [of True] by (simp add: bitmap_all_def)
  show "\<exists>b'. bitmap_set_multiple b i n False = Some b' \<and> bm_wf b' \<and> bm_list b' = fill (unat i) (unat n) False (bm_list b)"
    using bitmap_set_multiple_spec [OF wf le] by metis
qed

subsection \<open>Properties\<close>


text \<open>A bitmap of ten bits with bits 1 and 4 set.\<close>

definition bm_10 :: bitmap where "bm_10 = \<lparr>bit_cnt = 10, bits = [18]\<rparr>"




end
