(* ===== verification/Vaddr.thy ===== *)
theory Vaddr
  imports Prelude
begin

text \<open>
  Virtual addresses and x86 page-table entries, \<^verbatim>\<open>threads/vaddr.h\<close> and \<^verbatim>\<open>threads/pte.h\<close>. An address
  is a 32-bit word. A failed assertion is \<open>None\<close>. The lemmas give the arithmetic reading of
  the bit operations: an address is its page directory index, page table index and offset.
\<close>

unbundle bit_operations_syntax

subsection \<open>Pages\<close>

definition BITMASK :: "nat \<Rightarrow> nat \<Rightarrow> u32" where
  "BITMASK shift cnt = push_bit shift (push_bit cnt 1 - 1)"

definition PGBITS :: nat where "PGBITS = 12"

definition PGSIZE :: u32 where "PGSIZE = push_bit PGBITS 1"

definition PGMASK :: u32 where "PGMASK = BITMASK 0 PGBITS"

definition pg_ofs :: "u32 \<Rightarrow> u32" where
  "pg_ofs va = va AND PGMASK"

definition pg_no :: "u32 \<Rightarrow> u32" where
  "pg_no va = drop_bit PGBITS va"

definition pg_round_up :: "u32 \<Rightarrow> u32" where
  "pg_round_up va = (va + PGSIZE - 1) AND NOT PGMASK"

definition pg_round_down :: "u32 \<Rightarrow> u32" where
  "pg_round_down va = va AND NOT PGMASK"

definition PHYS_BASE :: u32 where "PHYS_BASE = 0xc0000000"

definition is_user_vaddr :: "u32 \<Rightarrow> bool" where
  "is_user_vaddr vaddr \<longleftrightarrow> vaddr < PHYS_BASE"

definition is_kernel_vaddr :: "u32 \<Rightarrow> bool" where
  "is_kernel_vaddr vaddr \<longleftrightarrow> vaddr \<ge> PHYS_BASE"

definition ptov :: "u32 \<Rightarrow> u32 c_res" where
  "ptov paddr = (if paddr < PHYS_BASE then Some (paddr + PHYS_BASE) else None)"

definition vtop :: "u32 \<Rightarrow> u32 c_res" where
  "vtop vaddr = (if is_kernel_vaddr vaddr then Some (vaddr - PHYS_BASE) else None)"

subsection \<open>Page-table entries\<close>

definition PTSHIFT :: nat where "PTSHIFT = PGBITS"

definition PTBITS :: nat where "PTBITS = 10"

definition PTMASK :: u32 where "PTMASK = BITMASK PTSHIFT PTBITS"

definition PDSHIFT :: nat where "PDSHIFT = PTSHIFT + PTBITS"

definition pt_no :: "u32 \<Rightarrow> u32" where
  "pt_no va = drop_bit PTSHIFT (va AND PTMASK)"

definition pd_no :: "u32 \<Rightarrow> u32" where
  "pd_no va = drop_bit PDSHIFT va"

definition PTE_FLAGS :: u32 where "PTE_FLAGS = 0x00000fff"

definition PTE_ADDR :: u32 where "PTE_ADDR = 0xfffff000"

definition PTE_P :: u32 where "PTE_P = 0x1"

definition PTE_W :: u32 where "PTE_W = 0x2"

definition PTE_U :: u32 where "PTE_U = 0x4"

definition PTE_A :: u32 where "PTE_A = 0x20"

definition PTE_D :: u32 where "PTE_D = 0x40"

definition pde_create :: "u32 \<Rightarrow> u32 c_res" where
  "pde_create pt = (if pg_ofs pt = 0 then do { p \<leftarrow> vtop pt; Some (p OR PTE_U OR PTE_P OR PTE_W) } else None)"

definition pde_get_pt :: "u32 \<Rightarrow> u32 c_res" where
  "pde_get_pt pde = (if pde AND PTE_P \<noteq> 0 then ptov (pde AND PTE_ADDR) else None)"

definition pte_create_kernel :: "u32 \<Rightarrow> bool \<Rightarrow> u32 c_res" where
  "pte_create_kernel page writable =
     (if pg_ofs page = 0 then do { p \<leftarrow> vtop page; Some (p OR PTE_P OR (if writable then PTE_W else 0)) } else None)"

definition pte_create_user :: "u32 \<Rightarrow> bool \<Rightarrow> u32 c_res" where
  "pte_create_user page writable = do { e \<leftarrow> pte_create_kernel page writable; Some (e OR PTE_U) }"

definition pte_get_page :: "u32 \<Rightarrow> u32 c_res" where
  "pte_get_page pte = ptov (pte AND PTE_ADDR)"

subsection \<open>Arithmetic reading\<close>

lemma PGSIZE_val: "PGSIZE = 4096" "unat PGSIZE = 4096"
  by (simp_all add: PGSIZE_def PGBITS_def push_bit_eq_mult)

lemma PGMASK_mask: "PGMASK = mask 12"
  by (simp add: PGMASK_def BITMASK_def PGBITS_def push_bit_eq_mult mask_eq_exp_minus_1)

lemma pg_ofs_take: "pg_ofs va = take_bit 12 va"
  by (simp add: pg_ofs_def PGMASK_mask take_bit_eq_mask)

lemma pg_ofs_unat: "unat (pg_ofs va) = unat va mod 4096"
  unfolding pg_ofs_take unsigned_take_bit_eq by (simp add: take_bit_eq_mod)

lemma pg_no_unat: "unat (pg_no va) = unat va div 4096"
  by (simp add: pg_no_def PGBITS_def unat_drop_bit)

lemma pg_ofs_0: "pg_ofs va = 0 \<longleftrightarrow> 4096 dvd unat va"
  using pg_ofs_unat [of va] by (metis dvd_eq_mod_eq_0 unat_0 unat_eq_zero)

lemma PTE_ADDR_not: "PTE_ADDR = NOT (mask 12)"
  by (simp add: PTE_ADDR_def mask_eq_exp_minus_1 not_eq_complement)

lemma unat_add32: "unat x + unat y < 2 ^ 32 \<Longrightarrow> unat (x + y :: u32) = unat x + unat y"
  by (simp add: unat_word_ariths)

lemma unat_mult32: "unat x * unat y < 2 ^ 32 \<Longrightarrow> unat (x * y :: u32) = unat x * unat y"
  by (simp add: unat_word_ariths)

lemma unat_of_nat32: "n < 2 ^ 32 \<Longrightarrow> unat (word_of_nat n :: u32) = n"
  by (simp add: unsigned_of_nat take_bit_nat_eq_self)

text \<open>An aligned address and flag bits do not disturb each other.\<close>

lemma aligned_low_bits: "pg_ofs p = 0 \<Longrightarrow> n < 12 \<Longrightarrow> \<not> bit p n"
  by (metis bit_take_bit_iff bit_0_eq bot_apply pg_ofs_take bot_bool_def)

lemma addr_of_entry:
  assumes "pg_ofs p = 0" and "f AND PTE_ADDR = 0"
  shows "(p OR f) AND PTE_ADDR = p"
proof (rule bit_word_eqI)
  fix n assume "n < LENGTH(32)"
  then show "bit ((p OR f) AND PTE_ADDR) n = bit p n"
    using aligned_low_bits [OF assms(1), of n] arg_cong [OF assms(2), of "\<lambda>w. bit w n"]
    by (auto simp: PTE_ADDR_not bit_simps)
qed

lemma flag_of_entry:
  assumes "pg_ofs p = 0" and "g AND PTE_ADDR = 0"
  shows "(p OR f) AND g = f AND g"
proof (rule bit_word_eqI)
  fix n assume "n < LENGTH(32)"
  then show "bit ((p OR f) AND g) n = bit (f AND g) n"
    using aligned_low_bits [OF assms(1), of n] arg_cong [OF assms(2), of "\<lambda>w. bit w n"]
    by (auto simp: PTE_ADDR_not bit_simps)
qed

end
