(* ===== verification/Palloc.thy ===== *)
theory Palloc
  imports Bitmap Vaddr "HOL-Library.Multiset"
begin

text \<open>
  The page allocator, \<^verbatim>\<open>threads/palloc.c\<close>: two pools of pages, each with a bitmap of the pages in
  use. Memory is the content of its 32-bit words, by their (aligned) addresses; the model
  keeps the bitmaps, which the code stores in the first pages of each pool, apart from it.
  A panic or failed assertion is \<open>None\<close>; the null pointer is the address 0. The locks are taken
  and released inside one operation and are left out.

  The allocator is a client of the contract \<open>bit_array\<close> of theory \<open>Bitmap\<close>.
\<close>

subsection \<open>The allocator\<close>

text \<open>The memory pools; \<open>struct pool\<close> of the source.\<close>

record mem_pool =
  used_map :: bitmap
  base :: u32

record palloc_state =
  kernel_pool :: mem_pool
  user_pool :: mem_pool
  pmem :: "u32 \<Rightarrow> u32"

definition PAL_ASSERT :: u32 where "PAL_ASSERT = 1"

definition PAL_ZERO :: u32 where "PAL_ZERO = 2"

definition PAL_USER :: u32 where "PAL_USER = 4"

text \<open>\<open>memset\<close> on whole words: \<open>v\<close> is the byte repeated four times.\<close>

definition fill_words :: "(u32 \<Rightarrow> u32) \<Rightarrow> u32 \<Rightarrow> u32 \<Rightarrow> u32 \<Rightarrow> u32 \<Rightarrow> u32" where
  "fill_words m dst v cnt = (\<lambda>a. if unat dst \<le> unat a \<and> unat a < unat dst + unat cnt then v else m a)"

definition init_pool :: "u32 list \<Rightarrow> u32 \<Rightarrow> u32 \<Rightarrow> mem_pool c_res" where
  "init_pool junk start page_cnt =
     (let bm_pages = DIV_ROUND_UP (bitmap_buf_size page_cnt) PGSIZE in
      if bm_pages > page_cnt then None
      else do {
        b \<leftarrow> bitmap_create_in_buf junk (page_cnt - bm_pages) (bm_pages * PGSIZE);
        Some \<lparr>used_map = b, base = start + bm_pages * PGSIZE\<rparr>
      })"

definition palloc_init :: "u32 list \<Rightarrow> (u32 \<Rightarrow> u32) \<Rightarrow> u32 \<Rightarrow> u32 \<Rightarrow> palloc_state c_res" where
  "palloc_init junk m init_ram_pages user_page_limit = do {
     free_start \<leftarrow> ptov (1024 * 1024);
     free_end \<leftarrow> ptov (init_ram_pages * PGSIZE);
     let free_pages = (free_end - free_start) div PGSIZE;
     let user_pages = (if free_pages div 2 > user_page_limit then user_page_limit else free_pages div 2);
     let kernel_pages = free_pages - user_pages;
     k \<leftarrow> init_pool junk free_start kernel_pages;
     u \<leftarrow> init_pool junk (free_start + kernel_pages * PGSIZE) user_pages;
     Some \<lparr>kernel_pool = k, user_pool = u, pmem = m\<rparr>
   }"

definition page_from_pool :: "mem_pool \<Rightarrow> u32 \<Rightarrow> bool" where
  "page_from_pool pool page =
     (let page_no = pg_no page; start_page = pg_no (base pool); end_page = start_page + bitmap_size (used_map pool)
      in page_no \<ge> start_page \<and> page_no < end_page)"

definition pool_of_flags :: "palloc_state \<Rightarrow> u32 \<Rightarrow> mem_pool" where
  "pool_of_flags st flags = (if flags AND PAL_USER \<noteq> 0 then user_pool st else kernel_pool st)"

definition set_pool_map :: "bool \<Rightarrow> bitmap \<Rightarrow> palloc_state \<Rightarrow> palloc_state" where
  "set_pool_map user b st = (if user then st\<lparr>user_pool := (user_pool st)\<lparr>used_map := b\<rparr>\<rparr>
     else st\<lparr>kernel_pool := (kernel_pool st)\<lparr>used_map := b\<rparr>\<rparr>)"

definition palloc_get_multiple :: "palloc_state \<Rightarrow> u32 \<Rightarrow> u32 \<Rightarrow> (u32 \<times> palloc_state) c_res" where
  "palloc_get_multiple st flags page_cnt =
     (let pool = pool_of_flags st flags in
      if page_cnt = 0 then Some (0, st)
      else do {
        (page_idx, b) \<leftarrow> bitmap_scan_and_flip (used_map pool) 0 page_cnt False;
        let st' = set_pool_map (flags AND PAL_USER \<noteq> 0) b st;
        let pages = (if page_idx \<noteq> BITMAP_ERROR then base pool + PGSIZE * page_idx else 0);
        if pages \<noteq> 0 then
          Some (pages, if flags AND PAL_ZERO \<noteq> 0 then st'\<lparr>pmem := fill_words (pmem st') pages 0 (PGSIZE * page_cnt)\<rparr> else st')
        else if flags AND PAL_ASSERT \<noteq> 0 then None
        else Some (pages, st')
      })"

definition palloc_get_page :: "palloc_state \<Rightarrow> u32 \<Rightarrow> (u32 \<times> palloc_state) c_res" where
  "palloc_get_page st flags = palloc_get_multiple st flags 1"

definition palloc_free_multiple :: "palloc_state \<Rightarrow> u32 \<Rightarrow> u32 \<Rightarrow> palloc_state c_res" where
  "palloc_free_multiple st pages page_cnt =
     (if pg_ofs pages \<noteq> 0 then None
      else if pages = 0 \<or> page_cnt = 0 then Some st
      else do {
        user \<leftarrow> (if page_from_pool (kernel_pool st) pages then Some False
                else if page_from_pool (user_pool st) pages then Some True else None);
        let pool = (if user then user_pool st else kernel_pool st);
        let page_idx = pg_no pages - pg_no (base pool);
        let m = fill_words (pmem st) pages 0xcccccccc (PGSIZE * page_cnt);
        a \<leftarrow> bitmap_all (used_map pool) page_idx page_cnt;
        if \<not> a then None
        else do {
          b \<leftarrow> bitmap_set_multiple (used_map pool) page_idx page_cnt False;
          Some (set_pool_map user b (st\<lparr>pmem := m\<rparr>))
        }
      })"

definition palloc_free_page :: "palloc_state \<Rightarrow> u32 \<Rightarrow> palloc_state c_res" where
  "palloc_free_page st page = palloc_free_multiple st page 1"

subsection \<open>Live blocks\<close>

text \<open>A pool lies in memory without wrapping, at page boundaries, above address 0.\<close>

definition pool_fits :: "mem_pool \<Rightarrow> bool" where
  "pool_fits p \<longleftrightarrow> pg_ofs (base p) = 0 \<and> base p \<noteq> 0 \<and> unat (base p) + 4096 * unat (bit_cnt (used_map p)) < 2 ^ 32"

text \<open>The pools are in order of address and the blocks handed out account for the bits set: \<open>ks\<close> are the live
  blocks of the kernel pool and \<open>us\<close> those of the user pool, by page index and length.\<close>

definition palloc_inv :: "palloc_state \<Rightarrow> (nat \<times> nat) list \<Rightarrow> (nat \<times> nat) list \<Rightarrow> bool" where
  "palloc_inv st ks us \<longleftrightarrow> pool_fits (kernel_pool st) \<and> pool_fits (user_pool st)
     \<and> unat (base (kernel_pool st)) + 4096 * unat (bit_cnt (used_map (kernel_pool st))) \<le> unat (base (user_pool st))
     \<and> bma.alloc_inv (used_map (kernel_pool st)) ks \<and> bma.alloc_inv (used_map (user_pool st)) us"

text \<open>The blocks as ranges of addresses.\<close>

definition live :: "palloc_state \<Rightarrow> (nat \<times> nat) list \<Rightarrow> (nat \<times> nat) list \<Rightarrow> (nat \<times> nat) list" where
  "live st ks us = map (\<lambda>(i, n). (unat (base (kernel_pool st)) + 4096 * i, 4096 * n)) ks
     @ map (\<lambda>(i, n). (unat (base (user_pool st)) + 4096 * i, 4096 * n)) us"

lemma block_page: "b + 4096 * i \<le> a \<and> a < b + 4096 * i + 4096 * n \<longleftrightarrow> b \<le> a \<and> i \<le> (a - b) div 4096 \<and> (a - b) div 4096 < i + n"
  for a b i n :: nat
proof -
  have "b + 4096 * i \<le> a \<longleftrightarrow> b \<le> a \<and> i \<le> (a - b) div 4096" by (auto simp: less_eq_div_iff_mult_less_eq)
  moreover have "a < b + 4096 * i + 4096 * n \<longleftrightarrow> (a - b) div 4096 < i + n" if "b \<le> a"
    using that by (auto simp: div_less_iff_less_mult)
  ultimately show ?thesis by auto
qed

lemma owners_pages:
  "owners (map (\<lambda>(i, n). (b + 4096 * i, 4096 * n)) bs) a = (if b \<le> a then owners bs ((a - b) div 4096) else 0)"
proof (induction bs)
  case (Cons x bs)
  then show ?case by (cases x) (simp add: owners_Cons block_page)
qed (simp add: owners_def)

lemma owners_append: "owners (xs @ ys) a = owners xs a + owners ys a"
  by (simp add: owners_def)

lemma owners_beyond:
  assumes "bma.alloc_inv b bs" and "unat (bit_cnt b) \<le> j"
  shows "owners bs j = 0"
  using assms by (force simp: owners_def bma.alloc_inv_def filter_empty_conv)

lemma owners_le_1: "bma.alloc_inv b bs \<Longrightarrow> owners bs j \<le> 1"
  using owners_beyond [of b bs j] by (cases "j < unat (bit_cnt b)") (auto simp: bma.alloc_inv_def)

lemma live_disjoint:
  assumes "palloc_inv st ks us"
  shows "owners (live st ks us) a \<le> 1"
proof -
  let ?k = "kernel_pool st" and ?u = "user_pool st"
  have inv: "bma.alloc_inv (used_map ?k) ks" "bma.alloc_inv (used_map ?u) us"
    "unat (base ?k) + 4096 * unat (bit_cnt (used_map ?k)) \<le> unat (base ?u)"
    using assms by (simp_all add: palloc_inv_def)
  have "owners ks ((a - unat (base ?k)) div 4096) = 0" if "unat (base ?u) \<le> a"
    using that inv(3) by (intro owners_beyond [OF inv(1)]) (simp add: less_eq_div_iff_mult_less_eq)
  then show ?thesis
    using owners_le_1 [OF inv(1)] owners_le_1 [OF inv(2)] by (simp add: live_def owners_append owners_pages)
qed

subsection \<open>Specifications\<close>

lemma page_addr:
  assumes "pool_fits p" and "i \<le> unat (bit_cnt (used_map p))"
  shows "unat (base p + PGSIZE * word_of_nat i) = unat (base p) + 4096 * i"
proof -
  have i: "unat (word_of_nat i :: u32) = i" using assms by (intro unat_of_nat32) (simp add: pool_fits_def)
  have "4096 * i \<le> 4096 * unat (bit_cnt (used_map p))" using assms(2) by simp
  then have le: "unat (base p) + 4096 * i < 2 ^ 32" using assms(1) by (simp add: pool_fits_def)
  then have "unat (PGSIZE * word_of_nat i) = 4096 * i" by (simp add: unat_mult32 PGSIZE_val i)
  then show ?thesis using le by (simp add: unat_add32)
qed

lemma page_len:
  assumes "pool_fits p" and "unat n \<le> unat (bit_cnt (used_map p))"
  shows "unat (PGSIZE * n) = 4096 * unat n"
  using assms by (intro trans [OF unat_mult32]) (simp_all add: PGSIZE_val pool_fits_def)

lemma set_pool_map_simps [simp]:
  "base (kernel_pool (set_pool_map user b st)) = base (kernel_pool st)" "base (user_pool (set_pool_map user b st)) = base (user_pool st)"
  "pmem (set_pool_map user b st) = pmem st"
  by (simp_all add: set_pool_map_def)

text \<open>A new map for one pool.\<close>

lemma palloc_inv_set:
  assumes "palloc_inv st ks us" and "bma.alloc_inv b bs"
    and "unat (bit_cnt b) = unat (bit_cnt (used_map (if user then user_pool st else kernel_pool st)))"
  shows "palloc_inv (set_pool_map user b st) (if user then ks else bs) (if user then bs else us)"
  using assms by (auto simp: palloc_inv_def set_pool_map_def pool_fits_def)

lemma palloc_inv_mem [simp]: "palloc_inv (st\<lparr>pmem := m\<rparr>) ks us = palloc_inv st ks us"
  by (simp add: palloc_inv_def)

lemma live_mem [simp]: "live (st\<lparr>pmem := m\<rparr>) ks us = live st ks us"
  by (simp add: live_def)

lemma live_set [simp]: "live (set_pool_map user b st) ks us = live st ks us"
  by (simp add: live_def)

lemma palloc_get_spec:
  fixes n flags :: u32
  assumes inv: "palloc_inv st ks us" and n: "n \<noteq> 0"
  defines "user \<equiv> flags AND PAL_USER \<noteq> 0"
  defines "pool \<equiv> pool_of_flags st flags"
  shows "(\<exists>p st' i. palloc_get_multiple st flags n = Some (p, st') \<and> unat p = unat (base pool) + 4096 * i \<and> i + unat n \<le> unat (bit_cnt (used_map pool))
      \<and> palloc_inv st' (if user then ks else (i, unat n) # ks) (if user then (i, unat n) # us else us)
      \<and> base (kernel_pool st') = base (kernel_pool st) \<and> base (user_pool st') = base (user_pool st)
      \<and> pmem st' = (if flags AND PAL_ZERO \<noteq> 0 then fill_words (pmem st) p 0 (PGSIZE * n) else pmem st))
    \<or> first_group 0 (unat n) False (bm_list (used_map pool)) = None
      \<and> (if flags AND PAL_ASSERT \<noteq> 0 then palloc_get_multiple st flags n = None
         else \<exists>st'. palloc_get_multiple st flags n = Some (0, st') \<and> palloc_inv st' ks us
            \<and> base (kernel_pool st') = base (kernel_pool st) \<and> base (user_pool st') = base (user_pool st) \<and> pmem st' = pmem st)"
proof -
  let ?bs = "if user then us else ks"
  have pool: "pool = (if user then user_pool st else kernel_pool st)" by (simp add: pool_def pool_of_flags_def user_def)
  have fits: "pool_fits pool" and a: "bma.alloc_inv (used_map pool) ?bs" using inv by (simp_all add: palloc_inv_def pool)
  obtain r b where rb: "bitmap_scan_and_flip (used_map pool) 0 n False = Some (r, b)" and
    cases: "(\<exists>i. r = word_of_nat i \<and> r \<noteq> BITMAP_ERROR \<and> unat r = i \<and> i + unat n \<le> length (bm_list (used_map pool)) \<and>
        length (bm_list b) = length (bm_list (used_map pool)) \<and> bma.alloc_inv b ((i, unat n) # ?bs)) \<or>
      r = BITMAP_ERROR \<and> bma.alloc_inv b ?bs \<and> bm_list b = bm_list (used_map pool)
        \<and> first_group 0 (unat n) False (bm_list (used_map pool)) = None"
    using bma.alloc_take [OF a] by blast
  from cases show ?thesis
  proof (elim disjE exE conjE)
    fix i assume i: "r = word_of_nat i" "r \<noteq> BITMAP_ERROR" "i + unat n \<le> length (bm_list (used_map pool))"
      "length (bm_list b) = length (bm_list (used_map pool))" "bma.alloc_inv b ((i, unat n) # ?bs)"
    let ?p = "base pool + PGSIZE * r"
    have p: "unat ?p = unat (base pool) + 4096 * i" using page_addr [OF fits, of i] i by simp
    moreover have "0 < unat (base pool)" using fits by (simp add: pool_fits_def unat_gt_0)
    ultimately have "?p \<noteq> 0" by (metis add_is_0 less_not_refl unat_0)
    moreover have "palloc_inv (set_pool_map user b st) (if user then ks else (i, unat n) # ks) (if user then (i, unat n) # us else us)"
      using palloc_inv_set [OF inv i(5), of user] i(4) by (cases user) (simp_all add: pool)
    ultimately show ?thesis using rb n i p
      by (intro disjI1) (auto simp: palloc_get_multiple_def pool_def [symmetric] user_def [symmetric] Let_def)
  next
    assume none: "r = BITMAP_ERROR" "bma.alloc_inv b ?bs" "bm_list b = bm_list (used_map pool)"
      "first_group 0 (unat n) False (bm_list (used_map pool)) = None"
    have "palloc_inv (set_pool_map user b st) ks us"
      using palloc_inv_set [OF inv none(2), of user] arg_cong [OF none(3), of length] by (cases user) (simp_all add: pool)
    then show ?thesis using rb n none
      by (intro disjI2) (auto simp: palloc_get_multiple_def pool_def [symmetric] user_def [symmetric] Let_def)
  qed
qed

text \<open>Freeing a live block: \<open>i\<close> is its page index in the pool that \<open>user\<close> selects.\<close>

lemma page_from_pool_block:
  assumes "pool_fits p" and "unat a = unat (base p) + 4096 * i" and "i < unat (bit_cnt (used_map p))"
  shows "page_from_pool p a" "unat (pg_no a - pg_no (base p)) = i"
proof -
  obtain k where k: "unat (base p) = 4096 * k" using assms(1) by (auto simp: pool_fits_def pg_ofs_0)
  have "unat a = 4096 * (k + i)" using assms(2) k by simp
  then have no: "unat (pg_no a) = k + i" "unat (pg_no (base p)) = k" using k by (simp_all only: pg_no_unat) simp_all
  have "unat (pg_no (base p) + bit_cnt (used_map p)) = k + unat (bit_cnt (used_map p))"
    using assms(1) k no by (simp add: unat_add32 pool_fits_def)
  then show "page_from_pool p a" using no assms(3) by (simp add: page_from_pool_def Let_def bitmap_size_def word_le_nat_alt word_less_nat_alt)
  show "unat (pg_no a - pg_no (base p)) = i" using no by (simp add: unat_sub word_le_nat_alt)
qed

lemma page_not_from_below:
  assumes "pool_fits p" and "pool_fits q" and "unat (base p) + 4096 * unat (bit_cnt (used_map p)) \<le> unat (base q)" and "unat (base q) \<le> unat a"
  shows "\<not> page_from_pool p a"
proof -
  obtain k where k: "unat (base p) = 4096 * k" using assms(1) by (auto simp: pool_fits_def pg_ofs_0)
  have "unat (pg_no (base p) + bit_cnt (used_map p)) = k + unat (bit_cnt (used_map p))"
    using assms(1) k by (simp add: unat_add32 pool_fits_def pg_no_unat)
  moreover have "k + unat (bit_cnt (used_map p)) \<le> unat a div 4096" using assms(3,4) k by (simp add: less_eq_div_iff_mult_less_eq)
  ultimately show ?thesis by (simp add: page_from_pool_def Let_def bitmap_size_def word_less_nat_alt pg_no_unat)
qed

lemma palloc_free_spec:
  fixes n a :: u32
  assumes inv: "palloc_inv st ks us" and n: "n \<noteq> 0" and mem: "(i, unat n) \<in> set (if user then us else ks)"
    and a: "unat a = unat (base (if user then user_pool st else kernel_pool st)) + 4096 * i"
  shows "\<exists>st'. palloc_free_multiple st a n = Some st'
    \<and> palloc_inv st' (if user then ks else remove1 (i, unat n) ks) (if user then remove1 (i, unat n) us else us)
    \<and> base (kernel_pool st') = base (kernel_pool st) \<and> base (user_pool st') = base (user_pool st)
    \<and> pmem st' = fill_words (pmem st) a 0xcccccccc (PGSIZE * n)"
proof -
  define pool where "pool = (if user then user_pool st else kernel_pool st)"
  have fits: "pool_fits (kernel_pool st)" "pool_fits (user_pool st)" "pool_fits pool" using inv by (simp_all add: palloc_inv_def pool_def)
  have al: "bma.alloc_inv (used_map pool) (if user then us else ks)" using inv by (simp add: palloc_inv_def pool_def)
  have "0 < unat n" using n by (simp add: unat_gt_0)
  moreover have in_pool: "i + unat n \<le> unat (bit_cnt (used_map pool))" using al mem by (force simp: bma.alloc_inv_def)
  ultimately have i: "i < unat (bit_cnt (used_map pool))" by simp
  note blk = page_from_pool_block [OF fits(3) a [folded pool_def] i]
  have "page_from_pool (kernel_pool st) a \<longleftrightarrow> \<not> user"
    using blk(1) page_not_from_below [OF fits(1,2), of a] a inv by (cases user) (auto simp: pool_def palloc_inv_def)
  then have pick: "(if page_from_pool (kernel_pool st) a then Some False else if page_from_pool (user_pool st) a then Some True else None) = Some user"
    using blk(1) by (cases user) (simp_all add: pool_def)
  have "4096 dvd unat a" using fits(3) a by (auto simp: pool_def [symmetric] pool_fits_def pg_ofs_0)
  then have ofs: "pg_ofs a = 0" by (simp add: pg_ofs_0)
  have "0 < unat (base pool)" using fits(3) by (simp add: pool_fits_def unat_gt_0)
  then have "a \<noteq> 0" using a by (auto simp: pool_def [symmetric])
  let ?i = "pg_no a - pg_no (base pool)"
  obtain b where b: "bitmap_all (used_map pool) ?i n = Some True" "bitmap_set_multiple (used_map pool) ?i n False = Some b"
    "bma.alloc_inv b (remove1 (i, unat n) (if user then us else ks))" "length (bm_list b) = length (bm_list (used_map pool))"
    using bma.alloc_release [OF al, of ?i n] blk(2) mem by auto
  let ?st = "st\<lparr>pmem := fill_words (pmem st) a 0xcccccccc (PGSIZE * n)\<rparr>"
  have "palloc_inv (set_pool_map user b ?st) (if user then ks else remove1 (i, unat n) ks) (if user then remove1 (i, unat n) us else us)"
    using palloc_inv_set [of ?st ks us, OF _ b(3), of user] inv b(4) by (cases user) (simp_all add: pool_def)
  moreover have "palloc_free_multiple st a n = Some (set_pool_map user b ?st)"
    using ofs \<open>a \<noteq> 0\<close> n pick b(1,2) by (simp add: palloc_free_multiple_def Let_def pool_def)
  ultimately show ?thesis by simp
qed

subsection \<open>Initialisation\<close>

lemma round_up_pages:
  assumes "unat x + 4095 < 2 ^ 32"
  shows "unat (DIV_ROUND_UP x PGSIZE) = (unat x + 4095) div 4096"
proof -
  have "x + 4096 - 1 = x + 4095" by simp
  moreover have "unat (x + 4095) = unat x + 4095" using assms by (simp add: unat_add32)
  ultimately show ?thesis by (simp only: DIV_ROUND_UP_def unat_div_distrib PGSIZE_val(1)) simp
qed

lemma init_pool_spec:
  fixes start cnt :: u32
  assumes "pg_ofs start = 0" and "start \<noteq> 0" and "unat start + 4096 * unat cnt < 2 ^ 32" and "cnt \<noteq> 0" and "2 ^ 20 \<le> length junk"
  shows "\<exists>p. init_pool junk start cnt = Some p \<and> pool_fits p \<and> bma.alloc_inv (used_map p) []
    \<and> unat start \<le> unat (base p) \<and> unat (base p) + 4096 * unat (bit_cnt (used_map p)) = unat start + 4096 * unat cnt"
proof -
  define c where "c = unat cnt"
  have c: "c < 2 ^ 20" "0 < c" using assms(3,4) by (simp_all add: c_def unat_gt_0)
  define e where "e = (c + 31) div 32"
  have e: "unat (elem_cnt cnt) = e" "32 * e \<le> c + 31" using c by (simp_all add: elem_cnt_unat c_def [symmetric] e_def)
  have bytes: "unat (bitmap_buf_size cnt) = 8 + 4 * e"
    using e c by (simp add: bitmap_buf_size_def byte_cnt_def unat_add32 unat_mult32)
  define k where "k = (8 + 4 * e + 4095) div 4096"
  have k: "unat (DIV_ROUND_UP (bitmap_buf_size cnt) PGSIZE) = k" using bytes e c by (simp add: round_up_pages k_def)
  have "8 + 4 * e + 4095 < 4096 * (c + 1)" using e(2) c(2) by simp
  then have kc: "k \<le> c" unfolding k_def by (metis Suc_eq_plus1 less_Suc_eq_le less_mult_imp_div_less mult.commute)
  have "8 + 4 * e + 4095 < 4096 * k + 4096" unfolding k_def using dividend_less_div_times [of 4096 "8 + 4 * e + 4095"] by simp
  then have big: "8 + 4 * e \<le> 4096 * k" by simp
  let ?k = "DIV_ROUND_UP (bitmap_buf_size cnt) PGSIZE"
  have m: "unat (cnt - ?k) = c - k" "?k \<le> cnt" using kc k by (simp_all add: unat_sub word_le_nat_alt c_def)
  have kb: "unat (?k * PGSIZE) = 4096 * k" using k kc c by (simp add: unat_mult32 PGSIZE_val)
  have "unat (elem_cnt (cnt - ?k)) = (c - k + 31) div 32" using c by (simp add: elem_cnt_unat m)
  also have "\<dots> \<le> e" unfolding e_def by (intro div_le_mono) simp
  finally have el: "unat (elem_cnt (cnt - ?k)) \<le> e" .
  then have "unat (bitmap_buf_size (cnt - ?k)) \<le> 4096 * k"
    using e c big by (simp add: bitmap_buf_size_def byte_cnt_def unat_add32 unat_mult32)
  then have room: "bitmap_buf_size (cnt - ?k) \<le> ?k * PGSIZE" by (simp add: word_le_nat_alt kb)
  have "bm_wf \<lparr>bit_cnt = cnt - ?k, bits = take (unat (elem_cnt (cnt - ?k))) junk\<rparr>"
    using c m(1) el e assms(5) by (intro fresh_wf) simp_all
  then obtain b where b: "bitmap_create_in_buf junk (cnt - ?k) (?k * PGSIZE) = Some b" "bm_wf b" "bit_cnt b = cnt - ?k"
    "bm_list b = replicate (c - k) False"
    using bitmap_set_all_spec [of "\<lparr>bit_cnt = cnt - ?k, bits = take (unat (elem_cnt (cnt - ?k))) junk\<rparr>" False] room m(1)
    by (auto simp: bitmap_create_in_buf_def)
  let ?p = "\<lparr>used_map = b, base = start + ?k * PGSIZE\<rparr>"
  have base: "unat (start + ?k * PGSIZE) = unat start + 4096 * k" using assms(3) kb kc by (simp add: unat_add32 c_def)
  have "4096 dvd unat start" using assms(1) by (simp add: pg_ofs_0)
  then have "pg_ofs (base ?p) = 0" by (simp add: pg_ofs_0 base)
  moreover have "0 < unat start" using assms(2) by (simp add: unat_gt_0)
  then have "base ?p \<noteq> 0" using base by auto
  ultimately have "pool_fits ?p" using base b(3) m(1) kc assms(3) by (simp add: pool_fits_def c_def diff_mult_distrib2)
  moreover have "bma.alloc_inv b []" using b(2,4) by (simp add: bma.alloc_inv_def owners_def)
  moreover have "init_pool junk start cnt = Some ?p" using m(2) b(1) by (simp add: init_pool_def Let_def)
  ultimately show ?thesis using base b(3) m(1) kc by (auto simp: c_def diff_mult_distrib2)
qed

lemma palloc_init_spec:
  assumes "258 \<le> unat ram" and "unat ram < 2 ^ 18" and "limit \<noteq> 0" and "2 ^ 20 \<le> length junk"
  shows "\<exists>st. palloc_init junk m ram limit = Some st \<and> palloc_inv st [] [] \<and> pmem st = m"
proof -
  have R: "unat (ram * PGSIZE) = 4096 * unat ram" using assms(2) by (simp add: unat_mult32 PGSIZE_val)
  have "unat (ram * PGSIZE + PHYS_BASE) = 4096 * unat ram + 0xc0000000"
    using assms(2) by (simp add: unat_add32 R PHYS_BASE_def)
  then have fe: "ptov (ram * PGSIZE) = Some (ram * PGSIZE + PHYS_BASE)" "unat (ram * PGSIZE + PHYS_BASE) = 4096 * unat ram + 0xc0000000"
    using R assms(2) by (simp_all add: ptov_def word_less_nat_alt PHYS_BASE_def)
  have fs: "ptov (1024 * 1024) = Some 0xc0100000" by (simp add: ptov_def PHYS_BASE_def)
  define free where "free = (ram * PGSIZE + PHYS_BASE - 0xc0100000) div PGSIZE"
  have "unat (ram * PGSIZE + PHYS_BASE - 0xc0100000) = 4096 * (unat ram - 256)"
    using fe(2) assms(1) by (simp add: unat_sub word_le_nat_alt diff_mult_distrib2)
  then have free: "unat free = unat ram - 256" by (simp add: free_def unat_div_distrib PGSIZE_val)
  define user where "user = (if free div 2 > limit then limit else free div 2)"
  have half: "unat (free div 2) = (unat ram - 256) div 2" by (simp add: free unat_div_distrib)
  have "0 < unat limit" using assms(3) by (simp add: unat_gt_0)
  then have u: "unat user \<le> (unat ram - 256) div 2" "0 < unat user"
    using half assms(1) by (auto simp: user_def word_less_nat_alt)
  then have "user \<noteq> 0" by auto
  have kp: "unat (free - user) = unat ram - 256 - unat user" using u(1) free by (simp add: unat_sub word_le_nat_alt)
  then have "0 < unat (free - user)" using u(1) assms(1) by linarith
  then have "free - user \<noteq> 0" by auto
  have "unat ram < 262144" using assms(2) by simp
  then have small: "unat (free - user) < 261888" using kp assms(1) u by linarith
  then have lt: "unat (0xc0100000 :: u32) + 4096 * unat (free - user) < 2 ^ 32" by simp
  obtain k where k: "init_pool junk 0xc0100000 (free - user) = Some k" "pool_fits k" "bma.alloc_inv (used_map k) []"
    "unat (base k) + 4096 * unat (bit_cnt (used_map k)) = 0xc0100000 + 4096 * unat (free - user)"
    using init_pool_spec [OF _ _ lt \<open>free - user \<noteq> 0\<close> assms(4)] by (auto simp: pg_ofs_0)
  let ?us = "0xc0100000 + (free - user) * PGSIZE"
  have "unat (0xc0100000 + w * PGSIZE) = 0xc0100000 + 4096 * unat w" if "unat w < 261888" for w :: u32
    using that by (simp add: unat_add32 unat_mult32 PGSIZE_val)
  from this [OF small] have us: "unat ?us = 0xc0100000 + 4096 * unat (free - user)" .
  then have "pg_ofs ?us = 0" "?us \<noteq> 0" by (auto simp: pg_ofs_0)
  moreover have "unat ?us + 4096 * unat user < 2 ^ 32" using us kp u(1) assms(1,2) by simp
  ultimately obtain p where p: "init_pool junk ?us user = Some p" "pool_fits p" "bma.alloc_inv (used_map p) []" "unat ?us \<le> unat (base p)"
    using init_pool_spec [OF _ _ _ \<open>user \<noteq> 0\<close> assms(4)] by blast
  have "palloc_init junk m ram limit = Some \<lparr>kernel_pool = k, user_pool = p, pmem = m\<rparr>"
    by (simp only: palloc_init_def Let_def fs fe(1) Option.bind.bind_lunit free_def [symmetric] user_def [symmetric] k(1) p(1))
  then show ?thesis using k p us by (simp add: palloc_inv_def)
qed

subsection \<open>Runs\<close>

text \<open>Requests of the kernel: pages are obtained, and blocks obtained earlier are freed, by their position in
  the list of blocks still held.\<close>

datatype page_req = GetPages u32 u32 | FreePages nat

text \<open>Requests that accept the null pointer as an answer.\<close>

fun may_fail :: "page_req \<Rightarrow> bool" where
  "may_fail (GetPages flags n) = (flags AND PAL_ASSERT = 0)"
| "may_fail (FreePages k) = True"

fun run_palloc :: "palloc_state \<Rightarrow> (u32 \<times> u32) list \<Rightarrow> page_req list \<Rightarrow> (palloc_state \<times> (u32 \<times> u32) list) c_res" where
  "run_palloc st held [] = Some (st, held)"
| "run_palloc st held (GetPages flags n # rs) = do {
     (p, st') \<leftarrow> palloc_get_multiple st flags n;
     run_palloc st' (if p \<noteq> 0 then (p, n) # held else held) rs
   }"
| "run_palloc st held (FreePages k # rs) =
     (if k < length held then do {
        st' \<leftarrow> palloc_free_multiple st (fst (held ! k)) (snd (held ! k));
        run_palloc st' (take k held @ drop (Suc k) held) rs
      }
      else run_palloc st held rs)"

definition spans :: "(u32 \<times> u32) list \<Rightarrow> (nat \<times> nat) list" where
  "spans held = map (\<lambda>(p, n). (unat p, 4096 * unat n)) held"

definition holds :: "palloc_state \<Rightarrow> (u32 \<times> u32) list \<Rightarrow> bool" where
  "holds st held \<longleftrightarrow> (\<forall>(p, n) \<in> set held. n \<noteq> 0)
     \<and> (\<exists>ks us. palloc_inv st ks us \<and> mset (spans held) = mset (live st ks us))"

lemma owners_mset: "mset xs = mset ys \<Longrightarrow> owners xs a = owners ys a"
  unfolding owners_def size_mset [symmetric] mset_filter by simp

lemma mset_delete:
  assumes "k < length xs"
  shows "mset (take k xs @ drop (Suc k) xs) = mset xs - {#xs ! k#}"
proof -
  have "mset xs = add_mset (xs ! k) (mset (take k xs @ drop (Suc k) xs))"
    by (subst id_take_nth_drop [OF assms]) simp
  then show ?thesis by simp
qed

lemma live_add:
  "base (kernel_pool st') = base (kernel_pool st) \<Longrightarrow> base (user_pool st') = base (user_pool st) \<Longrightarrow>
   mset (live st' (if user then ks else (i, n) # ks) (if user then (i, n) # us else us)) =
     add_mset (unat (base (if user then user_pool st else kernel_pool st)) + 4096 * i, 4096 * n) (mset (live st ks us))"
  by (simp add: live_def)

lemma holds_get:
  assumes h: "holds st held" and no: "flags AND PAL_ASSERT = 0"
  shows "\<exists>p st'. palloc_get_multiple st flags n = Some (p, st') \<and> holds st' (if p \<noteq> 0 then (p, n) # held else held)"
proof (cases "n = 0")
  case True
  then show ?thesis using h by (simp add: palloc_get_multiple_def Let_def)
next
  case False
  obtain ks us where ku: "palloc_inv st ks us" "mset (spans held) = mset (live st ks us)" "\<forall>(p, n) \<in> set held. n \<noteq> 0"
    using h by (auto simp: holds_def)
  define user where "user = (flags AND PAL_USER \<noteq> 0)"
  have pool: "pool_of_flags st flags = (if user then user_pool st else kernel_pool st)" by (simp add: pool_of_flags_def user_def)
  from palloc_get_spec [OF ku(1) False, of flags] no show ?thesis
  proof (elim disjE exE conjE, goal_cases)
    case (1 p st' i)
    let ?ks = "if user then ks else (i, unat n) # ks" and ?us = "if user then (i, unat n) # us else us"
    have "mset (spans ((p, n) # held)) = mset (live st' ?ks ?us)"
      using 1 ku(2) live_add [of st' st user ks i "unat n" us] pool by (simp add: spans_def)
    moreover have "palloc_inv st' ?ks ?us" using 1 by (simp add: user_def)
    ultimately have "holds st' ((p, n) # held)" using ku(3) False unfolding holds_def
      by (intro conjI exI [of _ ?ks] exI [of _ ?us]) simp_all
    moreover have "pool_fits (pool_of_flags st flags)" using ku(1) by (simp add: pool palloc_inv_def)
    then have "0 < unat (base (pool_of_flags st flags))" by (simp add: pool_fits_def unat_gt_0)
    then have "p \<noteq> 0" using 1 by auto
    ultimately show ?thesis using 1 by auto
  next
    case 2
    then obtain st' where st': "palloc_get_multiple st flags n = Some (0, st')" "palloc_inv st' ks us"
      "base (kernel_pool st') = base (kernel_pool st)" "base (user_pool st') = base (user_pool st)" by auto
    then show ?thesis using ku by (auto simp: holds_def live_def)
  qed
qed

lemma mset_map_remove1: "x \<in> set xs \<Longrightarrow> mset (map f (remove1 x xs)) = mset (map f xs) - {#f x#}"
  by (metis image_mset_add_mset insert_DiffM mset_map mset_remove1 set_mset_mset add_mset_remove_trivial)

lemma live_remove:
  assumes "base (kernel_pool st') = base (kernel_pool st)" and "base (user_pool st') = base (user_pool st)"
    and "(i, n) \<in> set (if user then us else ks)"
  shows "mset (live st' (if user then ks else remove1 (i, n) ks) (if user then remove1 (i, n) us else us)) =
    mset (live st ks us) - {#(unat (base (if user then user_pool st else kernel_pool st)) + 4096 * i, 4096 * n)#}"
proof -
  define f :: "nat \<Rightarrow> nat \<times> nat \<Rightarrow> nat \<times> nat" where "f b = (\<lambda>(i, n). (b + 4096 * i, 4096 * n))" for b
  have l: "live s ks us = map (f (unat (base (kernel_pool s)))) ks @ map (f (unat (base (user_pool s)))) us" for s ks us
    by (simp add: live_def f_def)
  show ?thesis
  proof (cases user)
    case True
    then have "(i, n) \<in> set us" using assms(3) by simp
    moreover from this have "f (unat (base (user_pool st))) (i, n) \<in># mset (map (f (unat (base (user_pool st)))) us)" by simp
    ultimately show ?thesis using assms(1,2) True
      by (simp only: l mset_append mset_map_remove1 diff_union_single_conv if_True) (simp add: f_def)
  next
    case False
    then have "(i, n) \<in> set ks" using assms(3) by simp
    moreover from this have "f (unat (base (kernel_pool st))) (i, n) \<in># mset (map (f (unat (base (kernel_pool st)))) ks)" by simp
    from diff_union_single_conv [OF this] have "mset (map (f (unat (base (kernel_pool st)))) ks) - {#f (unat (base (kernel_pool st))) (i, n)#} + M =
        mset (map (f (unat (base (kernel_pool st)))) ks) + M - {#f (unat (base (kernel_pool st))) (i, n)#}" for M
      by (simp only: add.commute)
    ultimately show ?thesis using assms(1,2) False by (simp only: l mset_append mset_map_remove1 if_False) (simp add: f_def)
  qed
qed

lemma holds_free:
  assumes h: "holds st held" and k: "k < length held"
  shows "\<exists>st'. palloc_free_multiple st (fst (held ! k)) (snd (held ! k)) = Some st' \<and> holds st' (take k held @ drop (Suc k) held)"
proof -
  obtain ks us where ku: "palloc_inv st ks us" "mset (spans held) = mset (live st ks us)" "\<forall>(p, n) \<in> set held. n \<noteq> 0"
    using h by (auto simp: holds_def)
  obtain p n where pn: "held ! k = (p, n)" by (cases "held ! k")
  then have in_held: "(p, n) \<in> set held" using k by (metis nth_mem)
  then have n: "n \<noteq> 0" using ku(3) by auto
  have "(unat p, 4096 * unat n) \<in> set (spans held)" using in_held by (force simp: spans_def)
  then have "(unat p, 4096 * unat n) \<in> set (live st ks us)" using ku(2) by (metis set_mset_mset)
  then obtain user i where i: "(i, unat n) \<in> set (if user then us else ks)"
    "unat p = unat (base (if user then user_pool st else kernel_pool st)) + 4096 * i"
  proof -
    assume a: "\<And>i user. (i, unat n) \<in> set (if user then us else ks) \<Longrightarrow>
      unat p = unat (base (if user then user_pool st else kernel_pool st)) + 4096 * i \<Longrightarrow> thesis"
    assume "(unat p, 4096 * unat n) \<in> set (live st ks us)"
    then show thesis using a [of _ False] a [of _ True] by (auto simp: live_def)
  qed
  obtain st' where st': "palloc_free_multiple st p n = Some st'"
    "palloc_inv st' (if user then ks else remove1 (i, unat n) ks) (if user then remove1 (i, unat n) us else us)"
    "base (kernel_pool st') = base (kernel_pool st)" "base (user_pool st') = base (user_pool st)"
    using palloc_free_spec [OF ku(1) n i] by blast
  have "mset (spans (take k held @ drop (Suc k) held)) = mset (spans held) - {#(unat p, 4096 * unat n)#}"
    using mset_delete [of k "spans held"] k pn by (simp add: spans_def take_map drop_map)
  also have "\<dots> = mset (live st' (if user then ks else remove1 (i, unat n) ks) (if user then remove1 (i, unat n) us else us))"
    using live_remove [OF st'(3,4) i(1)] ku(2) i(2) by simp
  finally have "holds st' (take k held @ drop (Suc k) held)"
    unfolding holds_def using st'(2) ku(3)
    by (intro conjI exI [of _ "if user then ks else remove1 (i, unat n) ks"] exI [of _ "if user then remove1 (i, unat n) us else us"])
      (auto dest: in_set_takeD in_set_dropD)
  then show ?thesis using st'(1) pn by simp
qed

lemma run_palloc_holds:
  assumes "holds st held" and "list_all may_fail rs"
  shows "\<exists>st' held'. run_palloc st held rs = Some (st', held') \<and> holds st' held'"
  using assms
proof (induction rs arbitrary: st held)
  case (Cons r rs)
  show ?case
  proof (cases r)
    case (GetPages flags n)
    then obtain p st' where "palloc_get_multiple st flags n = Some (p, st')" "holds st' (if p \<noteq> 0 then (p, n) # held else held)"
      using holds_get [OF Cons.prems(1), of flags n] Cons.prems(2) by auto
    then show ?thesis using Cons.IH [of st' "if p \<noteq> 0 then (p, n) # held else held"] Cons.prems(2) GetPages by auto
  next
    case (FreePages k)
    show ?thesis
    proof (cases "k < length held")
      case True
      then obtain st' where "palloc_free_multiple st (fst (held ! k)) (snd (held ! k)) = Some st'" "holds st' (take k held @ drop (Suc k) held)"
        using holds_free [OF Cons.prems(1)] by blast
      then show ?thesis using Cons.IH [of st' "take k held @ drop (Suc k) held"] Cons.prems(2) FreePages True by auto
    qed (use Cons FreePages in auto)
  qed
qed auto

subsection \<open>Properties\<close>

text \<open>C7. No page is handed out twice. From the initial state, for every machine of at least 258 and less than 2 ^ 18
  pages and every non-zero limit on the user pool, any sequence of requests that do not ask for a panic runs to its
  end without a panic or failed assertion, and at its end no byte of memory belongs to two of the
  blocks still held.\<close>

theorem palloc_no_overlap:
  assumes "258 \<le> unat ram" and "unat ram < 2 ^ 18" and "limit \<noteq> 0" and "2 ^ 20 \<le> length junk"
    and "list_all may_fail rs"
  shows "\<exists>st st' held. palloc_init junk m ram limit = Some st \<and> run_palloc st [] rs = Some (st', held)
    \<and> (\<forall>a. length (filter (\<lambda>(p, n). unat p \<le> a \<and> a < unat p + 4096 * unat n) held) \<le> 1)"
proof -
  obtain st where st: "palloc_init junk m ram limit = Some st" "palloc_inv st [] []"
    using palloc_init_spec [OF assms(1-4)] by blast
  then have "holds st []" by (auto simp: holds_def spans_def live_def intro!: exI [of _ "[]"])
  then obtain st' held where run: "run_palloc st [] rs = Some (st', held)" "holds st' held"
    using run_palloc_holds [OF _ assms(5)] by blast
  then obtain ks us where ku: "palloc_inv st' ks us" "mset (spans held) = mset (live st' ks us)" by (auto simp: holds_def)
  have "owners (spans held) a \<le> 1" for a using owners_mset [OF ku(2)] live_disjoint [OF ku(1)] by simp
  then have "length (filter (\<lambda>(p, n). unat p \<le> a \<and> a < unat p + 4096 * unat n) held) \<le> 1" for a
    by (simp add: owners_def spans_def filter_map comp_def case_prod_unfold)
  then show ?thesis using st run by blast
qed

theorem palloc_no_overlap_witness:
  "\<exists>st st' held. palloc_init (replicate (2 ^ 20) 0) (\<lambda>_. 0) 1024 100 = Some st
    \<and> run_palloc st [] [GetPages 0 2, GetPages 6 1, FreePages 1, GetPages 2 1] = Some (st', held)
    \<and> (\<forall>a. length (filter (\<lambda>(p, n). unat p \<le> a \<and> a < unat p + 4096 * unat n) held) \<le> 1)"
  using palloc_no_overlap [of 1024 100 "replicate (2 ^ 20) 0" "[GetPages 0 2, GetPages 6 1, FreePages 1, GetPages 2 1]" "\<lambda>_. 0"]
  by (simp add: PAL_ASSERT_def del: run_palloc.simps)

text \<open>C32. What one call gives: with pages to spare in the pool the flag selects, \<open>palloc_get_multiple\<close> returns a
  page-aligned block of that pool which overlaps no block in use; with \<open>PAL_ZERO\<close> its words
  are zero, and all other memory is as before. Otherwise the result is the null pointer, or a panic if
  \<open>PAL_ASSERT\<close> asks for one, and only if there is no run of free pages that long.\<close>

theorem palloc_get_fresh:
  assumes inv: "palloc_inv st ks us" and n: "n \<noteq> 0"
  shows "case palloc_get_multiple st flags n of
      None \<Rightarrow> flags AND PAL_ASSERT \<noteq> 0 \<and> first_group 0 (unat n) False (bm_list (used_map (pool_of_flags st flags))) = None
    | Some (p, st') \<Rightarrow>
       (if p = 0 then pmem st' = pmem st \<and> first_group 0 (unat n) False (bm_list (used_map (pool_of_flags st flags))) = None
        else pg_ofs p = 0 \<and> unat (base (pool_of_flags st flags)) \<le> unat p
          \<and> unat p + 4096 * unat n \<le> unat (base (pool_of_flags st flags)) + 4096 * unat (bit_cnt (used_map (pool_of_flags st flags)))
          \<and> (\<forall>a. unat p \<le> a \<longrightarrow> a < unat p + 4096 * unat n \<longrightarrow> owners (live st ks us) a = 0)
          \<and> (\<forall>a. pmem st' a = (if flags AND PAL_ZERO \<noteq> 0 \<and> unat p \<le> unat a \<and> unat a < unat p + 4096 * unat n then 0 else pmem st a)))"
proof -
  define user where "user = (flags AND PAL_USER \<noteq> 0)"
  define pool where "pool = pool_of_flags st flags"
  have pool: "pool = (if user then user_pool st else kernel_pool st)" by (simp add: pool_def pool_of_flags_def user_def)
  have fits: "pool_fits pool" using inv by (simp add: palloc_inv_def pool)
  then have "0 < unat (base pool)" "4096 dvd unat (base pool)" by (simp_all add: pool_fits_def unat_gt_0 pg_ofs_0)
  from palloc_get_spec [OF inv n, of flags, folded user_def pool_def] show ?thesis
  proof (elim disjE exE conjE, goal_cases)
    case (1 p st' i)
    let ?ks = "if user then ks else (i, unat n) # ks" and ?us = "if user then (i, unat n) # us else us"
    have own: "owners (live st ks us) a = 0" if "unat p \<le> a" "a < unat p + 4096 * unat n" for a
    proof -
      have "owners (live st' ?ks ?us) a = owners ((unat (base pool) + 4096 * i, 4096 * unat n) # live st ks us) a"
        using 1 by (intro owners_mset) (simp add: live_add pool)
      then show ?thesis using live_disjoint [of st' ?ks ?us a] 1 that by (simp add: owners_Cons)
    qed
    have len: "unat (PGSIZE * n) = 4096 * unat n" using 1 by (intro page_len [OF fits]) simp
    have "p \<noteq> 0" "pg_ofs p = 0" using 1 \<open>0 < unat (base pool)\<close> \<open>4096 dvd unat (base pool)\<close> by (auto simp: pg_ofs_0)
    then show ?thesis using 1 own len by (auto simp: fill_words_def pool_def [symmetric])
  next
    case 2
    then show ?thesis by (auto simp: pool_def [symmetric] split: if_splits)
  qed
qed

text \<open>A kernel pool of ten pages at the start of kernel memory and an empty user pool above it.\<close>

definition pools_d :: palloc_state where
  "pools_d = \<lparr>kernel_pool = \<lparr>used_map = \<lparr>bit_cnt = 10, bits = [0]\<rparr>, base = 0xc0101000\<rparr>,
     user_pool = \<lparr>used_map = \<lparr>bit_cnt = 0, bits = []\<rparr>, base = 0xc0200000\<rparr>, pmem = (\<lambda>_. 7)\<rparr>"

lemma pools_d_inv: "palloc_inv pools_d [] []"
  by (simp add: palloc_inv_def pools_d_def pool_fits_def pg_ofs_0 bma.alloc_inv_def bm_wf_def owners_def bm_list_nth)

theorem palloc_get_fresh_witness:
  "\<exists>st'. palloc_get_multiple pools_d 2 3 = Some (0xc0101000, st') \<and> pg_ofs 0xc0101000 = 0 \<and> pmem st' 0xc0101004 = 0 \<and> pmem st' 0xc0104000 = 7"
proof -
  have "bitmap_scan_and_flip \<lparr>bit_cnt = 10, bits = [0]\<rparr> 0 3 False = Some (0, \<lparr>bit_cnt = 10, bits = [7]\<rparr>)" by code_simp
  moreover have "(0 :: u32) \<noteq> BITMAP_ERROR" by (simp add: BITMAP_ERROR_def)
  ultimately have "\<exists>st'. palloc_get_multiple pools_d 2 3 = Some (0xc0101000, st')"
    by (simp add: palloc_get_multiple_def pool_of_flags_def pools_d_def PAL_USER_def PAL_ZERO_def Let_def)
  then show ?thesis using palloc_get_fresh [OF pools_d_inv, of 3 2] by (auto simp: PAL_ZERO_def pools_d_def)
qed

end
