(* ===== verification/Pagedir.thy ===== *)
theory Pagedir
  imports Palloc
begin

text \<open>
  Page directories of user processes, \<^verbatim>\<open>userprog/pagedir.c\<close>, on the memory of the page allocator:
  a page directory is a page of 1024 entries, each of which is zero or points to a page table
  of 1024 entries. The machine has in addition the page directory base register \<open>cr3\<close>; \<open>cr3_loads\<close>
  counts its loads, each of which empties the translation lookaside buffer.

  The main result is that a page directory is a partial map from user pages to frames:
  \<open>pagedir_set_page\<close> is an update of that map, with page tables allocated on demand, and
  \<open>pagedir_get_page\<close> a lookup.
\<close>

unbundle bit_operations_syntax

subsection \<open>Operations\<close>

record machine =
  pal :: palloc_state
  cr3 :: u32
  cr3_loads :: nat
  init_page_dir :: u32
  init_ram_pages :: u32

definition read_word :: "machine \<Rightarrow> u32 \<Rightarrow> u32" where
  "read_word s a = pmem (pal s) a"

definition write_word :: "machine \<Rightarrow> u32 \<Rightarrow> u32 \<Rightarrow> machine" where
  "write_word s a v = s\<lparr>pal := (pal s)\<lparr>pmem := (pmem (pal s))(a := v)\<rparr>\<rparr>"

text \<open>The address of entry \<open>i\<close> of an array of words.\<close>

definition entry_at :: "u32 \<Rightarrow> u32 \<Rightarrow> u32" where
  "entry_at p i = p + 4 * i"

definition pagedir_create :: "machine \<Rightarrow> (u32 \<times> machine) c_res" where
  "pagedir_create s = do {
     (pd, p) \<leftarrow> palloc_get_page (pal s) 0;
     let s' = s\<lparr>pal := p\<rparr>;
     Some (pd, if pd \<noteq> 0 then s'\<lparr>pal := p\<lparr>pmem := (\<lambda>a. if unat pd \<le> unat a \<and> unat a < unat pd + 4096
       then pmem p (init_page_dir s + (a - pd)) else pmem p a)\<rparr>\<rparr> else s')
   }"

definition pagedir_activate :: "machine \<Rightarrow> u32 \<Rightarrow> machine c_res" where
  "pagedir_activate s pd0 = do {
     let pd = (if pd0 = 0 then init_page_dir s else pd0);
     p \<leftarrow> vtop pd;
     Some (s\<lparr>cr3 := p, cr3_loads := Suc (cr3_loads s)\<rparr>)
   }"

definition active_pd :: "machine \<Rightarrow> u32 c_res" where
  "active_pd s = ptov (cr3 s)"

definition invalidate_pagedir :: "machine \<Rightarrow> u32 \<Rightarrow> machine c_res" where
  "invalidate_pagedir s pd = do { a \<leftarrow> active_pd s; if a = pd then pagedir_activate s pd else Some s }"

definition lookup_page :: "machine \<Rightarrow> u32 \<Rightarrow> u32 \<Rightarrow> bool \<Rightarrow> (u32 \<times> machine) c_res" where
  "lookup_page s pd vaddr create =
     (if pd = 0 \<or> create \<and> \<not> is_user_vaddr vaddr then None
      else do {
        let pde = entry_at pd (pd_no vaddr);
        s1 \<leftarrow> (if read_word s pde = 0 then
                (if create then do {
                   (pt, p) \<leftarrow> palloc_get_page (pal s) PAL_ZERO;
                   if pt = 0 then Some (Inl (s\<lparr>pal := p\<rparr>))
                   else do { e \<leftarrow> pde_create pt; Some (Inr (write_word (s\<lparr>pal := p\<rparr>) pde e)) }
                 }
                 else Some (Inl s))
              else Some (Inr s));
        (case s1 of
           Inl s' \<Rightarrow> Some (0, s')
         | Inr s' \<Rightarrow> do { pt \<leftarrow> pde_get_pt (read_word s' pde); Some (entry_at pt (pt_no vaddr), s') })
      })"

definition pagedir_set_page :: "machine \<Rightarrow> u32 \<Rightarrow> u32 \<Rightarrow> u32 \<Rightarrow> bool \<Rightarrow> (bool \<times> machine) c_res" where
  "pagedir_set_page s pd upage kpage writable =
     (if pg_ofs upage \<noteq> 0 \<or> pg_ofs kpage \<noteq> 0 \<or> \<not> is_user_vaddr upage then None
      else do {
        kp \<leftarrow> vtop kpage;
        if \<not> drop_bit PTSHIFT kp < init_ram_pages s \<or> pd = init_page_dir s then None
        else do {
          (pte, s') \<leftarrow> lookup_page s pd upage True;
          if pte \<noteq> 0 then
            if read_word s' pte AND PTE_P \<noteq> 0 then None
            else do { e \<leftarrow> pte_create_user kpage writable; Some (True, write_word s' pte e) }
          else Some (False, s')
        }
      })"

definition pagedir_get_page :: "machine \<Rightarrow> u32 \<Rightarrow> u32 \<Rightarrow> u32 c_res" where
  "pagedir_get_page s pd uaddr =
     (if \<not> is_user_vaddr uaddr then None
      else do {
        (pte, s') \<leftarrow> lookup_page s pd uaddr False;
        if pte \<noteq> 0 \<and> read_word s' pte AND PTE_P \<noteq> 0
        then do { page \<leftarrow> pte_get_page (read_word s' pte); Some (page + pg_ofs uaddr) }
        else Some 0
      })"

definition pagedir_clear_page :: "machine \<Rightarrow> u32 \<Rightarrow> u32 \<Rightarrow> machine c_res" where
  "pagedir_clear_page s pd upage =
     (if pg_ofs upage \<noteq> 0 \<or> \<not> is_user_vaddr upage then None
      else do {
        (pte, s') \<leftarrow> lookup_page s pd upage False;
        if pte \<noteq> 0 \<and> read_word s' pte AND PTE_P \<noteq> 0
        then invalidate_pagedir (write_word s' pte (read_word s' pte AND NOT PTE_P)) pd
        else Some s'
      })"

text \<open>Reading and setting a flag bit of the entry of a page.\<close>

definition is_flag :: "u32 \<Rightarrow> machine \<Rightarrow> u32 \<Rightarrow> u32 \<Rightarrow> bool c_res" where
  "is_flag flag s pd vpage = do {
     (pte, s') \<leftarrow> lookup_page s pd vpage False;
     Some (pte \<noteq> 0 \<and> read_word s' pte AND flag \<noteq> 0)
   }"

definition set_flag :: "u32 \<Rightarrow> machine \<Rightarrow> u32 \<Rightarrow> u32 \<Rightarrow> bool \<Rightarrow> machine c_res" where
  "set_flag flag s pd vpage on = do {
     (pte, s') \<leftarrow> lookup_page s pd vpage False;
     if pte \<noteq> 0 then
       if on then Some (write_word s' pte (read_word s' pte OR flag))
       else invalidate_pagedir (write_word s' pte (read_word s' pte AND NOT flag)) pd
     else Some s'
   }"

definition pagedir_is_dirty :: "machine \<Rightarrow> u32 \<Rightarrow> u32 \<Rightarrow> bool c_res" where
  "pagedir_is_dirty = is_flag PTE_D"

definition pagedir_set_dirty :: "machine \<Rightarrow> u32 \<Rightarrow> u32 \<Rightarrow> bool \<Rightarrow> machine c_res" where
  "pagedir_set_dirty = set_flag PTE_D"

definition pagedir_is_accessed :: "machine \<Rightarrow> u32 \<Rightarrow> u32 \<Rightarrow> bool c_res" where
  "pagedir_is_accessed = is_flag PTE_A"

definition pagedir_set_accessed :: "machine \<Rightarrow> u32 \<Rightarrow> u32 \<Rightarrow> bool \<Rightarrow> machine c_res" where
  "pagedir_set_accessed = set_flag PTE_A"

text \<open>\<open>install_page\<close> of \<^verbatim>\<open>userprog/process.c\<close>, for the current process with page directory \<open>pd\<close>.\<close>

definition install_page :: "machine \<Rightarrow> u32 \<Rightarrow> u32 \<Rightarrow> u32 \<Rightarrow> bool \<Rightarrow> (bool \<times> machine) c_res" where
  "install_page s pd upage kpage writable = do {
     k \<leftarrow> pagedir_get_page s pd upage;
     if k = 0 then pagedir_set_page s pd upage kpage writable else Some (False, s)
   }"

text \<open>Destruction: \<open>n\<close> entries from \<open>i\<close> on.\<close>

fun free_ptes :: "machine \<Rightarrow> u32 \<Rightarrow> u32 \<Rightarrow> nat \<Rightarrow> machine c_res" where
  "free_ptes s pt i 0 = Some s"
| "free_ptes s pt i (Suc n) = do {
     let pte = read_word s (entry_at pt i);
     s' \<leftarrow> (if pte AND PTE_P \<noteq> 0 then do {
             page \<leftarrow> pte_get_page pte;
             p \<leftarrow> palloc_free_page (pal s) page;
             Some (s\<lparr>pal := p\<rparr>)
           } else Some s);
     free_ptes s' pt (i + 1) n
   }"

fun free_pdes :: "machine \<Rightarrow> u32 \<Rightarrow> u32 \<Rightarrow> nat \<Rightarrow> machine c_res" where
  "free_pdes s pd i 0 = Some s"
| "free_pdes s pd i (Suc n) = do {
     let pde = read_word s (entry_at pd i);
     s' \<leftarrow> (if pde AND PTE_P \<noteq> 0 then do {
             pt \<leftarrow> pde_get_pt pde;
             s1 \<leftarrow> free_ptes s pt 0 1024;
             p \<leftarrow> palloc_free_page (pal s1) pt;
             Some (s1\<lparr>pal := p\<rparr>)
           } else Some s);
     free_pdes s' pd (i + 1) n
   }"

definition pagedir_destroy :: "machine \<Rightarrow> u32 \<Rightarrow> machine c_res" where
  "pagedir_destroy s pd =
     (if pd = 0 then Some s
      else if pd = init_page_dir s then None
      else do {
        s' \<leftarrow> free_pdes s pd 0 (unat (pd_no PHYS_BASE));
        p \<leftarrow> palloc_free_page (pal s') pd;
        Some (s'\<lparr>pal := p\<rparr>)
      })"

subsection \<open>Addresses and entries\<close>

lemma pd_no_unat: "unat (pd_no va) = unat va div 2 ^ 22"
  by (simp add: pd_no_def PDSHIFT_def PTSHIFT_def PGBITS_def PTBITS_def unat_drop_bit)

lemma pt_no_unat: "unat (pt_no va) = unat va div 2 ^ 12 mod 2 ^ 10"
proof -
  have m: "PTMASK = push_bit 12 (mask 10)"
    by (simp add: PTMASK_def BITMASK_def PTSHIFT_def PTBITS_def PGBITS_def push_bit_eq_mult mask_eq_exp_minus_1)
  have "pt_no va = take_bit 10 (drop_bit 12 va)"
    by (rule bit_word_eqI) (auto simp: pt_no_def PTSHIFT_def PGBITS_def m bit_simps)
  then show ?thesis by (simp only: unsigned_take_bit_eq unat_drop_bit) (simp add: take_bit_eq_mod)
qed

lemma index_bounds [simp]: "unat (pd_no va) < 1024" "unat (pt_no va) < 1024"
  using unsigned_less [of va, where 'a = nat] by (simp_all add: pd_no_unat pt_no_unat div_less_iff_less_mult)

lemma user_index: "is_user_vaddr va \<longleftrightarrow> unat (pd_no va) < 768"
  by (simp add: is_user_vaddr_def PHYS_BASE_def pd_no_unat word_less_nat_alt div_less_iff_less_mult)

lemma same_page: "pd_no a = pd_no b \<and> pt_no a = pt_no b \<longleftrightarrow> pg_no a = pg_no b"
proof -
  have "unat x div 2 ^ 22 = unat x div 2 ^ 12 div 2 ^ 10" for x :: u32 by (simp add: div_mult2_eq [symmetric])
  then show ?thesis by (simp add: word_unat_eq_iff pd_no_unat pt_no_unat pg_no_unat) (metis div_mult_mod_eq)
qed

lemma round_down_page: "pg_ofs u = 0 \<Longrightarrow> pg_round_down va = u \<longleftrightarrow> pg_no va = pg_no u"
proof -
  assume u: "pg_ofs u = 0"
  have "pg_round_down va = push_bit 12 (pg_no va)" for va
    by (rule bit_word_eqI) (auto simp: pg_round_down_def PGMASK_mask pg_no_def PGBITS_def bit_simps)
  moreover have "push_bit 12 (pg_no u) = u"
  proof (rule bit_word_eqI)
    show "bit (push_bit 12 (pg_no u)) n = bit u n" if "n < LENGTH(32)" for n
      using that aligned_low_bits [OF u, of n] by (cases "n < 12") (simp_all add: pg_no_def PGBITS_def bit_simps)
  qed
  moreover have "pg_no (push_bit 12 (pg_no va)) = pg_no va" for va :: u32
    by (rule bit_word_eqI) (auto simp: pg_no_def PGBITS_def bit_simps dest: bit_imp_le_length)
  ultimately show ?thesis by metis
qed

lemma entry_at_unat:
  assumes "pg_ofs p = 0" and "unat i < 1024"
  shows "unat (entry_at p i) = unat p + 4 * unat i"
proof -
  have "4096 dvd unat p" using assms(1) by (simp add: pg_ofs_0)
  moreover have "unat p < 2 ^ 32" using unsigned_less [of p, where 'a = nat] by simp
  ultimately have "unat p \<le> 2 ^ 32 - 4096" by (auto elim!: dvdE)
  then show ?thesis using assms(2) by (simp add: entry_at_def unat_add32 unat_mult32)
qed

lemma entry_at_inj:
  assumes "pg_ofs p = 0" "pg_ofs q = 0" and "unat i < 1024" "unat j < 1024"
  shows "entry_at p i = entry_at q j \<longleftrightarrow> p = q \<and> i = j"
proof -
  obtain k l where "unat p = 4096 * k" "unat q = 4096 * l" using assms(1,2) unfolding pg_ofs_0 by (elim dvdE)
  moreover have "4096 * k + 4 * unat i = 4096 * l + 4 * unat j \<longleftrightarrow> k = l \<and> unat i = unat j"
    using assms(3,4) by (cases "k < l"; cases "l < k"; simp)
  ultimately show ?thesis using assms by (auto simp: word_unat_eq_iff entry_at_unat)
qed

lemma vtop_kernel: "is_kernel_vaddr p \<Longrightarrow> vtop p = Some (p - PHYS_BASE) \<and> ptov (p - PHYS_BASE) = Some p"
  by (auto simp: vtop_def ptov_def is_kernel_vaddr_def PHYS_BASE_def word_less_nat_alt word_le_nat_alt unat_sub)
    (use unsigned_less [of p, where 'a = nat] in simp)

lemma aligned_phys: "pg_ofs p = 0 \<Longrightarrow> is_kernel_vaddr p \<Longrightarrow> pg_ofs (p - PHYS_BASE) = 0"
  by (auto simp: pg_ofs_0 is_kernel_vaddr_def unat_sub PHYS_BASE_def)

lemma pde_create_spec:
  assumes "pg_ofs pt = 0" and "is_kernel_vaddr pt"
  shows "\<exists>e. pde_create pt = Some e \<and> e \<noteq> 0 \<and> e AND PTE_P \<noteq> 0 \<and> pde_get_pt e = Some pt"
proof -
  let ?f = "PTE_U OR PTE_P OR PTE_W"
  have f: "?f AND PTE_ADDR = 0" "?f AND PTE_P \<noteq> 0" "PTE_P AND PTE_ADDR = 0"
    by (simp_all add: PTE_U_def PTE_P_def PTE_W_def PTE_ADDR_def)
  note al = aligned_phys [OF assms]
  have "((pt - PHYS_BASE) OR ?f) AND PTE_P \<noteq> 0" using f flag_of_entry [OF al f(3)] by simp
  moreover from this have "(pt - PHYS_BASE) OR ?f \<noteq> 0" by auto
  ultimately show ?thesis
    using addr_of_entry [OF al f(1)] vtop_kernel [OF assms(2)] assms(1) by (simp add: pde_create_def pde_get_pt_def)
qed

lemma pte_create_spec:
  assumes "pg_ofs k = 0" and "is_kernel_vaddr k"
  shows "\<exists>e. pte_create_user k w = Some e \<and> e AND PTE_P \<noteq> 0 \<and> pte_get_page e = Some k \<and> (e AND PTE_W \<noteq> 0) = w \<and> e AND PTE_U \<noteq> 0"
proof -
  let ?f = "PTE_P OR (if w then PTE_W else 0) OR PTE_U"
  have f: "?f AND PTE_ADDR = 0" "?f AND PTE_P \<noteq> 0" "PTE_P AND PTE_ADDR = 0" "(?f AND PTE_W \<noteq> 0) = w" "PTE_W AND PTE_ADDR = 0"
    "?f AND PTE_U \<noteq> 0" "PTE_U AND PTE_ADDR = 0"
    by (simp_all add: PTE_U_def PTE_P_def PTE_W_def PTE_ADDR_def)
  note al = aligned_phys [OF assms]
  show ?thesis
    using f flag_of_entry [OF al, of _ ?f] addr_of_entry [OF al f(1)] vtop_kernel [OF assms(2)] assms(1)
    by (simp add: pte_create_user_def pte_create_kernel_def pte_get_page_def or.assoc)
qed

subsection \<open>The invariant\<close>

text \<open>The page directory \<open>pd\<close> and its page tables are pages that the allocator has handed out; \<open>pts\<close> is the table behind
  each entry for user space, and different entries have different tables.\<close>

definition pd_wf :: "machine \<Rightarrow> (u32 \<times> u32) list \<Rightarrow> u32 \<Rightarrow> (u32 \<Rightarrow> u32 option) \<Rightarrow> bool" where
  "pd_wf s held pd pts \<longleftrightarrow> holds (pal s) held \<and> PHYS_BASE \<le> base (kernel_pool (pal s)) \<and> (pd, 1) \<in> set held
     \<and> (\<forall>j. unat j < 768 \<longrightarrow> (case pts j of None \<Rightarrow> read_word s (entry_at pd j) = 0
          | Some pt \<Rightarrow> (pt, 1) \<in> set held \<and> pt \<noteq> pd \<and> pde_create pt = Some (read_word s (entry_at pd j))))
     \<and> (\<forall>i j pt. unat i < 768 \<longrightarrow> unat j < 768 \<longrightarrow> pts i = Some pt \<longrightarrow> pts j = Some pt \<longrightarrow> i = j)"

text \<open>The entry of the page of an address, if there is a page table for it.\<close>

definition pte_of :: "machine \<Rightarrow> (u32 \<Rightarrow> u32 option) \<Rightarrow> u32 \<Rightarrow> u32 option" where
  "pte_of s pts va = map_option (\<lambda>pt. read_word s (entry_at pt (pt_no va))) (pts (pd_no va))"

lemma pte_of_page: "pg_no a = pg_no b \<Longrightarrow> pte_of s pts a = pte_of s pts b"
  using same_page [of a b] by (simp add: pte_of_def)

lemma read_write: "read_word (write_word s a v) b = (if b = a then v else read_word s b)"
  by (simp add: read_word_def write_word_def)

lemma write_word_simps [simp]: "cr3 (write_word s a v) = cr3 s" "cr3_loads (write_word s a v) = cr3_loads s"
  "init_page_dir (write_word s a v) = init_page_dir s" "init_ram_pages (write_word s a v) = init_ram_pages s"
  "kernel_pool (pal (write_word s a v)) = kernel_pool (pal s)"
  by (simp_all add: write_word_def)

lemma holds_mem: "holds (st\<lparr>pmem := m\<rparr>) held = holds st held"
  by (simp add: holds_def)

lemma holds_write [simp]: "holds (pal (write_word s a v)) held = holds (pal s) held"
  by (simp add: write_word_def holds_mem)

lemma holds_page:
  assumes "holds st held" and "(p, 1) \<in> set held"
  shows "pg_ofs p = 0" "base (kernel_pool st) \<le> p"
proof -
  obtain ks us where ku: "palloc_inv st ks us" "mset (spans held) = mset (live st ks us)" using assms(1) by (auto simp: holds_def)
  have "(unat p, 4096) \<in> set (spans held)" using assms(2) by (force simp: spans_def)
  then have "(unat p, 4096) \<in> set (live st ks us)" using mset_eq_setD [OF ku(2)] by simp
  then obtain i b where b: "unat p = unat (base b) + 4096 * i" "b \<in> {kernel_pool st, user_pool st}" by (auto simp: live_def)
  moreover have "4096 dvd unat (base b)" "base (kernel_pool st) \<le> base b"
    using b(2) ku(1) by (auto simp: palloc_inv_def pool_fits_def pg_ofs_0 word_le_nat_alt)
  ultimately show "pg_ofs p = 0" "base (kernel_pool st) \<le> p" by (simp_all add: pg_ofs_0 word_le_nat_alt)
qed

lemma holds_fresh:
  assumes "holds st ((p, 1) # held)"
  shows "(p, 1) \<notin> set held"
proof
  assume "(p, 1) \<in> set held"
  then obtain xs ys where h: "held = xs @ (p, 1) # ys" by (meson split_list)
  obtain ks us where ku: "palloc_inv st ks us" "mset (spans ((p, 1) # held)) = mset (live st ks us)"
    using assms by (auto simp: holds_def)
  have "owners (spans ((p, 1) # held)) (unat p) \<le> 1" using live_disjoint [OF ku(1)] owners_mset [OF ku(2)] by simp
  then show False by (simp add: h spans_def owners_Cons owners_append)
qed

lemma get_zero_page:
  assumes "holds st held"
  shows "\<exists>p st'. palloc_get_page st PAL_ZERO = Some (p, st') \<and> base (kernel_pool st') = base (kernel_pool st)
    \<and> (if p = 0 then holds st' held \<and> pmem st' = pmem st \<and> first_group 0 1 False (bm_list (used_map (kernel_pool st))) = None
       else holds st' ((p, 1) # held) \<and> pmem st' = fill_words (pmem st) p 0 4096)"
proof -
  have flags: "PAL_ZERO AND PAL_ASSERT = 0" "PAL_ZERO AND PAL_USER = 0" "PAL_ZERO AND PAL_ZERO \<noteq> 0"
    by (simp_all add: PAL_ZERO_def PAL_ASSERT_def PAL_USER_def)
  obtain p st' where g: "palloc_get_multiple st PAL_ZERO 1 = Some (p, st')" "holds st' (if p \<noteq> 0 then (p, 1) # held else held)"
    using holds_get [OF assms flags(1), of 1] by blast
  obtain ks us where ku: "palloc_inv st ks us" using assms by (auto simp: holds_def)
  have "0 < unat (base (kernel_pool st))" using ku by (simp add: palloc_inv_def pool_fits_def unat_gt_0)
  then show ?thesis
    using palloc_get_spec [OF ku, of 1 PAL_ZERO] g flags
    by (auto simp: palloc_get_page_def pool_of_flags_def PGSIZE_val)
qed

lemma pd_wf_page:
  assumes "pd_wf s held pd pts" and "(p, 1) \<in> set held"
  shows "pg_ofs p = 0" "is_kernel_vaddr p" "p \<noteq> 0"
proof -
  show "pg_ofs p = 0" "is_kernel_vaddr p"
    using holds_page [of "pal s" held p] assms by (auto simp: pd_wf_def is_kernel_vaddr_def intro: order_trans)
  then show "p \<noteq> 0" by (auto simp: is_kernel_vaddr_def PHYS_BASE_def)
qed

lemma pd_wf_pd: "pd_wf s held pd pts \<Longrightarrow> pg_ofs pd = 0 \<and> pd \<noteq> 0"
  using pd_wf_page [of s held pd pts pd] by (simp add: pd_wf_def)

lemma pd_wf_table:
  assumes "pd_wf s held pd pts" and "unat j < 768" and "pts j = Some pt"
  shows "(pt, 1) \<in> set held" "pt \<noteq> pd" "pg_ofs pt = 0" "read_word s (entry_at pd j) \<noteq> 0"
    "pde_get_pt (read_word s (entry_at pd j)) = Some pt"
proof -
  show pt: "(pt, 1) \<in> set held" and "pt \<noteq> pd" using assms by (auto simp: pd_wf_def split: option.splits)
  note pg = pd_wf_page [OF assms(1) pt]
  have "pde_create pt = Some (read_word s (entry_at pd j))" using assms by (auto simp: pd_wf_def split: option.splits)
  then show "pg_ofs pt = 0" "read_word s (entry_at pd j) \<noteq> 0" "pde_get_pt (read_word s (entry_at pd j)) = Some pt"
    using pde_create_spec [OF pg(1,2)] pg(1) by auto
qed

lemma pd_wf_cong:
  assumes "pd_wf s held pd pts" and "holds (pal s') held" and "base (kernel_pool (pal s')) = base (kernel_pool (pal s))"
    and "\<And>j. unat j < 768 \<Longrightarrow> read_word s' (entry_at pd j) = read_word s (entry_at pd j)"
  shows "pd_wf s' held pd pts"
  using assms(1-3) unfolding pd_wf_def by (simp add: assms(4) cong: conj_cong option.case_cong imp_cong)

lemma entry_not_null: "pg_ofs p = 0 \<Longrightarrow> is_kernel_vaddr p \<Longrightarrow> unat i < 1024 \<Longrightarrow> entry_at p i \<noteq> 0"
  by (auto simp: word_unat_eq_iff entry_at_unat is_kernel_vaddr_def PHYS_BASE_def word_le_nat_alt)

text \<open>A lookup without creation.\<close>

lemma lookup_spec:
  assumes wf: "pd_wf s held pd pts" and va: "is_user_vaddr va"
  shows "lookup_page s pd va False =
    Some (case pts (pd_no va) of None \<Rightarrow> 0 | Some pt \<Rightarrow> entry_at pt (pt_no va), s)"
proof (cases "pts (pd_no va)")
  case None
  have "read_word s (entry_at pd (pd_no va)) = 0" using wf va None by (force simp: pd_wf_def user_index split: option.splits)
  then show ?thesis using pd_wf_pd [OF wf] None by (simp add: lookup_page_def Let_def)
next
  case (Some pt)
  then show ?thesis using pd_wf_table [OF wf _ Some] pd_wf_pd [OF wf] va by (simp add: lookup_page_def Let_def user_index)
qed

lemma lookup_entry:
  assumes "pd_wf s held pd pts" and "is_user_vaddr va"
  shows "lookup_page s pd va False = Some (a, s') \<Longrightarrow>
    s' = s \<and> (if a = 0 then pte_of s pts va = None else pte_of s pts va = Some (read_word s a))"
  using lookup_spec [OF assms] pd_wf_table(1,3) [OF assms(1), of "pd_no va"] assms(2)
    entry_not_null [OF pd_wf_page(1,2) [OF assms(1)], of _ "pt_no va"]
  by (fastforce simp: pte_of_def user_index split: option.splits)

text \<open>Writing the entry of a page changes the entry of this page only.\<close>

lemma write_pte:
  fixes e vb :: u32
  assumes wf: "pd_wf s held pd pts" and va: "is_user_vaddr va" and pt: "pts (pd_no va) = Some pt"
  defines "s' \<equiv> write_word s (entry_at pt (pt_no va)) e"
  shows "pd_wf s' held pd pts"
    and "is_user_vaddr vb \<Longrightarrow> pte_of s' pts vb = (if pg_no vb = pg_no va then Some e else pte_of s pts vb)"
proof -
  have j: "unat (pd_no va) < 768" using va by (simp add: user_index)
  note tab = pd_wf_table [OF wf j pt]
  show "pd_wf s' held pd pts"
  proof (rule pd_wf_cong [OF wf])
    show "read_word s' (entry_at pd i) = read_word s (entry_at pd i)" if "unat i < 768" for i
      using that tab pd_wf_pd [OF wf] by (simp add: s'_def read_write entry_at_inj)
  qed (use wf in \<open>simp_all add: pd_wf_def s'_def\<close>)
  assume vb: "is_user_vaddr vb"
  show "pte_of s' pts vb = (if pg_no vb = pg_no va then Some e else pte_of s pts vb)"
  proof (cases "pts (pd_no vb)")
    case (Some q)
    then have "entry_at q (pt_no vb) = entry_at pt (pt_no va) \<longleftrightarrow> q = pt \<and> pt_no vb = pt_no va"
      using tab(3) pd_wf_table(3) [OF wf _ Some] vb by (simp add: entry_at_inj user_index)
    moreover have "q = pt \<longleftrightarrow> pd_no vb = pd_no va"
      using Some pt wf j vb by (auto simp: pd_wf_def user_index)
    ultimately show ?thesis using Some same_page [of vb va] by (simp add: pte_of_def s'_def read_write)
  next
    case None
    then show ?thesis using pt same_page [of vb va] by (auto simp: pte_of_def)
  qed
qed

text \<open>A new page table: it is zero, and it is none of the pages held before.\<close>

lemma add_table:
  assumes wf: "pd_wf s held pd pts" and j: "unat j < 768" and none: "pts j = None"
    and st: "holds st ((p, 1) # held)" "base (kernel_pool st) = base (kernel_pool (pal s))" "pmem st = fill_words (pmem (pal s)) p 0 4096"
    and e: "pde_create p = Some e"
  defines "s' \<equiv> write_word (s\<lparr>pal := st\<rparr>) (entry_at pd j) e" and "pts' \<equiv> pts(j \<mapsto> p)"
  shows "pd_wf s' ((p, 1) # held) pd pts'"
    and "is_user_vaddr va \<Longrightarrow> pte_of s' pts' va = (if pd_no va = j then Some 0 else pte_of s pts va)"
proof -
  have p: "pg_ofs p = 0" using holds_page(1) [OF st(1)] by simp
  have pd: "pg_ofs pd = 0" "(pd, 1) \<in> set held" using wf pd_wf_pd by (auto simp: pd_wf_def)
  have fresh: "(p, 1) \<notin> set held" by (rule holds_fresh [OF st(1)])
  have inside: "read_word (s\<lparr>pal := st\<rparr>) (entry_at p i) = 0" if "unat i < 1024" for i
    using that p by (simp add: read_word_def st(3) fill_words_def entry_at_unat)
  have outside: "read_word (s\<lparr>pal := st\<rparr>) (entry_at q i) = read_word s (entry_at q i)" if q: "(q, 1) \<in> set held" and i: "unat i < 1024" for q i
  proof -
    obtain k l where kl: "unat p = 4096 * k" "unat q = 4096 * l" using p pd_wf_page(1) [OF wf q] unfolding pg_ofs_0 by (elim dvdE)
    have "unat p \<noteq> unat q" using fresh q by (auto simp: word_unat_eq_iff [symmetric])
    then have "k \<noteq> l" using kl by simp
    then have "\<not> (4096 * k \<le> 4096 * l + 4 * unat i \<and> 4096 * l + 4 * unat i < 4096 * k + 4096)" using i by (cases "k < l") simp_all
    then show ?thesis using kl pd_wf_page(1) [OF wf q] i by (auto simp: read_word_def st(3) fill_words_def entry_at_unat)
  qed
  have dir: "read_word s' (entry_at pd i) = (if i = j then e else read_word s (entry_at pd i))" if "unat i < 768" for i
    using that j pd outside [OF pd(2), of i] by (simp add: s'_def read_write entry_at_inj)
  have np: "p \<noteq> pd" "pts i = Some p \<Longrightarrow> unat i < 768 \<Longrightarrow> False" for i using fresh pd(2) pd_wf_table(1) [OF wf] by auto
  show "pd_wf s' ((p, 1) # held) pd pts'" unfolding pd_wf_def
  proof (intro conjI allI impI)
    show "case pts' i of None \<Rightarrow> read_word s' (entry_at pd i) = 0
      | Some pt \<Rightarrow> (pt, 1) \<in> set ((p, 1) # held) \<and> pt \<noteq> pd \<and> pde_create pt = Some (read_word s' (entry_at pd i))" if "unat i < 768" for i
      using that wf e np(1) by (auto simp: dir pts'_def pd_wf_def split: option.splits)
    show "i = i'" if "unat i < 768" "unat i' < 768" "pts' i = Some pt" "pts' i' = Some pt" for i i' pt
      using that wf np(2) by (auto simp: pts'_def pd_wf_def split: if_splits)
  qed (use wf st pd in \<open>simp_all add: s'_def pd_wf_def\<close>)
  assume va: "is_user_vaddr va"
  have sep: "entry_at q (pt_no va) \<noteq> entry_at pd j" if "pg_ofs q = 0" "q \<noteq> pd" for q
    using that pd(1) j by (simp add: entry_at_inj)
  have other: "pts (pd_no va) = Some q \<Longrightarrow> (q, 1) \<in> set held \<and> q \<noteq> pd \<and> pg_ofs q = 0" for q
    using pd_wf_table(1,2,3) [OF wf, of "pd_no va" q] va by (simp add: user_index)
  show "pte_of s' pts' va = (if pd_no va = j then Some 0 else pte_of s pts va)"
    using other sep sep [OF p np(1)] inside outside
    by (cases "pts (pd_no va)") (auto simp: pte_of_def pts'_def s'_def read_write)
qed

text \<open>The kernel pool has a free page.\<close>

definition kernel_room :: "machine \<Rightarrow> bool" where
  "kernel_room s \<longleftrightarrow> first_group 0 1 False (bm_list (used_map (kernel_pool (pal s)))) \<noteq> None"

lemma lookup_create:
  assumes wf: "pd_wf s held pd pts" and va: "is_user_vaddr va"
  shows "\<exists>a s'. lookup_page s pd va True = Some (a, s') \<and> init_page_dir s' = init_page_dir s \<and> init_ram_pages s' = init_ram_pages s
    \<and> cr3 s' = cr3 s
    \<and> (if a = 0 then pd_wf s' held pd pts \<and> pte_of s' pts = pte_of s pts \<and> pts (pd_no va) = None \<and> \<not> kernel_room s
       else \<exists>held' pts' pt. pd_wf s' held' pd pts' \<and> set held \<subseteq> set held' \<and> pts' (pd_no va) = Some pt \<and> a = entry_at pt (pt_no va)
         \<and> (\<forall>vb. is_user_vaddr vb \<longrightarrow>
              pte_of s' pts' vb = (if pts (pd_no va) = None \<and> pd_no vb = pd_no va then Some 0 else pte_of s pts vb)))"
proof (cases "pts (pd_no va)")
  case (Some pt)
  have j: "unat (pd_no va) < 768" using va by (simp add: user_index)
  note tab = pd_wf_table [OF wf j Some]
  have "lookup_page s pd va True = Some (entry_at pt (pt_no va), s)"
    using tab pd_wf_pd [OF wf] va by (simp add: lookup_page_def Let_def)
  moreover have "entry_at pt (pt_no va) \<noteq> 0" using pd_wf_page [OF wf tab(1)] by (intro entry_not_null) simp_all
  ultimately show ?thesis using Some wf by auto
next
  case None
  have j: "unat (pd_no va) < 768" using va by (simp add: user_index)
  then have zero: "read_word s (entry_at pd (pd_no va)) = 0" using wf None by (force simp: pd_wf_def split: option.splits)
  have "holds (pal s) held" using wf by (simp add: pd_wf_def)
  then obtain p st where g: "palloc_get_page (pal s) PAL_ZERO = Some (p, st)" "base (kernel_pool st) = base (kernel_pool (pal s))"
    "if p = 0 then holds st held \<and> pmem st = pmem (pal s) \<and> \<not> kernel_room s else holds st ((p, 1) # held) \<and> pmem st = fill_words (pmem (pal s)) p 0 4096"
    using get_zero_page [of "pal s" held] by (auto simp: kernel_room_def split: if_splits)
  show ?thesis
  proof (cases "p = 0")
    case True
    have r: "read_word (s\<lparr>pal := st\<rparr>) = read_word s" using g True by (auto simp: read_word_def)
    then have "pd_wf (s\<lparr>pal := st\<rparr>) held pd pts" using g True by (intro pd_wf_cong [OF wf]) simp_all
    moreover have "lookup_page s pd va True = Some (0, s\<lparr>pal := st\<rparr>)"
      using g True zero va pd_wf_pd [OF wf] by (simp add: lookup_page_def Let_def)
    ultimately show ?thesis using None r g(3) True by (auto simp: pte_of_def fun_eq_iff)
  next
    case False
    then have h: "holds st ((p, 1) # held)" "pmem st = fill_words (pmem (pal s)) p 0 4096" using g(3) by simp_all
    have p: "pg_ofs p = 0" "is_kernel_vaddr p"
      using holds_page [OF h(1), of p] wf g(2) by (auto simp: pd_wf_def is_kernel_vaddr_def)
    obtain e where e: "pde_create p = Some e" "pde_get_pt e = Some p" using pde_create_spec [OF p] by blast
    let ?s = "write_word (s\<lparr>pal := st\<rparr>) (entry_at pd (pd_no va)) e"
    have "lookup_page s pd va True = Some (entry_at p (pt_no va), ?s)"
      using zero va pd_wf_pd [OF wf] g(1) False e by (simp add: lookup_page_def Let_def read_write)
    moreover note add_table [OF wf j None h(1) g(2) h(2) e(1)]
    moreover have "entry_at p (pt_no va) \<noteq> 0" using p by (intro entry_not_null) simp_all
    ultimately show ?thesis using None
      by (intro exI [of _ "entry_at p (pt_no va)"] exI [of _ ?s]) (auto intro!: exI [of _ "(p, 1) # held"] exI [of _ "pts(pd_no va \<mapsto> p)"])
  qed
qed

subsection \<open>The page map\<close>

text \<open>What an entry means: no frame, or a frame with its write permission.\<close>

fun pte_means :: "u32 option \<Rightarrow> (u32 \<times> bool) option \<Rightarrow> bool" where
  "pte_means None v = (v = None)"
| "pte_means (Some e) None = (e AND PTE_P = 0)"
| "pte_means (Some e) (Some (k, w)) = (pg_ofs k = 0 \<and> is_kernel_vaddr k \<and> e AND PTE_P \<noteq> 0 \<and> pte_get_page e = Some k
     \<and> (e AND PTE_W \<noteq> 0) = w)"

text \<open>The page directory represents the map \<open>M\<close> from page numbers to frames.\<close>

definition pd_rel :: "machine \<Rightarrow> (u32 \<times> u32) list \<Rightarrow> u32 \<Rightarrow> (u32 \<Rightarrow> u32 option) \<Rightarrow> (u32 \<Rightarrow> (u32 \<times> bool) option) \<Rightarrow> bool" where
  "pd_rel s held pd pts M \<longleftrightarrow> pd_wf s held pd pts \<and> pd \<noteq> init_page_dir s \<and> cr3 s < PHYS_BASE
     \<and> (\<forall>va. is_user_vaddr va \<longrightarrow> pte_means (pte_of s pts va) (M (pg_no va)))"

lemma pd_relD: "pd_rel s held pd pts M \<Longrightarrow> is_user_vaddr va \<Longrightarrow> pte_means (pte_of s pts va) (M (pg_no va))"
  by (simp add: pd_rel_def)

lemma kernel_page_ofs: "pg_ofs k = 0 \<Longrightarrow> is_kernel_vaddr k \<Longrightarrow> k + pg_ofs va \<noteq> 0"
proof -
  assume k: "pg_ofs k = 0" "is_kernel_vaddr k"
  obtain l where l: "unat k = 4096 * l" using k(1) unfolding pg_ofs_0 by (elim dvdE)
  moreover have "unat k < 2 ^ 32" using unsigned_less [of k, where 'a = nat] by simp
  ultimately have "unat k + unat (pg_ofs va) < 2 ^ 32" using mod_less_divisor [of 4096 "unat va"] by (simp add: pg_ofs_unat)
  then have "unat (k + pg_ofs va) = unat k + unat (pg_ofs va)" by (rule unat_add32)
  then show ?thesis using k(2) by (auto simp: is_kernel_vaddr_def PHYS_BASE_def word_le_nat_alt)
qed

lemma pagedir_get_page_spec:
  assumes rel: "pd_rel s held pd pts M" and va: "is_user_vaddr va"
  shows "pagedir_get_page s pd va = Some (case M (pg_no va) of None \<Rightarrow> 0 | Some (k, w) \<Rightarrow> k + pg_ofs va)"
proof -
  have wf: "pd_wf s held pd pts" using rel by (simp add: pd_rel_def)
  obtain a where a: "lookup_page s pd va False = Some (a, s)" using lookup_spec [OF wf va] by blast
  show ?thesis using lookup_entry [OF wf va a] pd_relD [OF rel va] va a
    by (cases "M (pg_no va)") (auto simp: pagedir_get_page_def split: if_splits)
qed

text \<open>Changing the entry of one page changes the map at this page.\<close>

lemma pd_rel_write:
  assumes rel: "pd_rel s held pd pts M" and va: "is_user_vaddr va" and pt: "pts (pd_no va) = Some pt" and v: "pte_means (Some e) v"
  shows "pd_rel (write_word s (entry_at pt (pt_no va)) e) held pd pts (M(pg_no va := v))"
proof -
  have wf: "pd_wf s held pd pts" using rel by (simp add: pd_rel_def)
  note wr = write_pte [OF wf va pt, where e = e]
  have "pte_means (pte_of (write_word s (entry_at pt (pt_no va)) e) pts vb) ((M(pg_no va := v)) (pg_no vb))" if "is_user_vaddr vb" for vb
    using pd_relD [OF rel that] v by (simp add: wr(2) [OF that])
  then show ?thesis using rel wr(1) by (simp add: pd_rel_def)
qed

lemma pagedir_set_page_spec:
  assumes rel: "pd_rel s held pd pts M" and u: "pg_ofs u = 0" "is_user_vaddr u" and k: "pg_ofs k = 0" "is_kernel_vaddr k"
    "drop_bit PTSHIFT (k - PHYS_BASE) < init_ram_pages s" and free: "M (pg_no u) = None"
  shows "\<exists>b s' held' pts'. pagedir_set_page s pd u k w = Some (b, s') \<and> set held \<subseteq> set held'
    \<and> init_ram_pages s' = init_ram_pages s \<and> pd_rel s' held' pd pts' (if b then M(pg_no u \<mapsto> (k, w)) else M) \<and> (b \<or> \<not> kernel_room s)"
proof -
  have wf: "pd_wf s held pd pts" and ne: "pd \<noteq> init_page_dir s" using rel by (simp_all add: pd_rel_def)
  have "vtop k = Some (k - PHYS_BASE)" using vtop_kernel [OF k(2)] by simp
  note pre = u k(1,3) this ne
  obtain a s1 where l: "lookup_page s pd u True = Some (a, s1)" "init_page_dir s1 = init_page_dir s" "init_ram_pages s1 = init_ram_pages s"
    "cr3 s1 = cr3 s" "if a = 0 then pd_wf s1 held pd pts \<and> pte_of s1 pts = pte_of s pts \<and> pts (pd_no u) = None \<and> \<not> kernel_room s
     else \<exists>held' pts' pt. pd_wf s1 held' pd pts' \<and> set held \<subseteq> set held' \<and> pts' (pd_no u) = Some pt \<and> a = entry_at pt (pt_no u)
       \<and> (\<forall>vb. is_user_vaddr vb \<longrightarrow> pte_of s1 pts' vb = (if pts (pd_no u) = None \<and> pd_no vb = pd_no u then Some 0 else pte_of s pts vb))"
    using lookup_create [OF wf u(2)] by blast
  show ?thesis
  proof (cases "a = 0")
    case True
    then have "pd_rel s1 held pd pts M" using l rel by (simp add: pd_rel_def)
    then show ?thesis using True l pre by (auto simp: pagedir_set_page_def)
  next
    case False
    then obtain held' pts' pt where t: "pd_wf s1 held' pd pts'" "set held \<subseteq> set held'" "pts' (pd_no u) = Some pt" "a = entry_at pt (pt_no u)"
      and pte: "\<And>vb. is_user_vaddr vb \<Longrightarrow> pte_of s1 pts' vb = (if pts (pd_no u) = None \<and> pd_no vb = pd_no u then Some 0 else pte_of s pts vb)"
      using l(5) by auto
    have "pte_means (pte_of s1 pts' vb) (M (pg_no vb))" if "is_user_vaddr vb" for vb
      using pd_relD [OF rel that] pte [OF that] by (auto simp: pte_of_def split: if_splits)
    then have rel1: "pd_rel s1 held' pd pts' M" using rel t(1) l by (simp add: pd_rel_def)
    have "read_word s1 a AND PTE_P = 0" using pd_relD [OF rel1 u(2)] free t(3,4) by (simp add: pte_of_def)
    moreover obtain e where e: "pte_create_user k w = Some e" "e AND PTE_P \<noteq> 0" "pte_get_page e = Some k" "(e AND PTE_W \<noteq> 0) = w"
      using pte_create_spec [OF k(1,2)] by blast
    ultimately have "pagedir_set_page s pd u k w = Some (True, write_word s1 a e)" using l(1) pre False by (simp add: pagedir_set_page_def)
    then show ?thesis using pd_rel_write [OF rel1 u(2) t(3), of e "Some (k, w)"] e k t l(3) by auto
  qed
qed

lemma read_loads [simp]: "read_word (s\<lparr>cr3_loads := n\<rparr>) = read_word s"
  by (simp add: read_word_def fun_eq_iff)

lemma pd_rel_loads [simp]: "pd_rel (s\<lparr>cr3_loads := n\<rparr>) held pd pts M = pd_rel s held pd pts M"
  by (simp add: pd_rel_def pd_wf_def pte_of_def cong: option.case_cong)

text \<open>The page directory base register is loaded again exactly if the directory is the active one.\<close>

lemma invalidate_spec:
  assumes "is_kernel_vaddr pd" and "cr3 s < PHYS_BASE" and "pd \<noteq> 0"
  shows "invalidate_pagedir s pd = Some (s\<lparr>cr3_loads := (if ptov (cr3 s) = Some pd then Suc (cr3_loads s) else cr3_loads s)\<rparr>)"
  using assms vtop_kernel [OF assms(1)]
  by (auto simp: invalidate_pagedir_def active_pd_def ptov_def pagedir_activate_def Let_def)

lemma pd_rel_page: "pd_rel s held pd pts M \<Longrightarrow> is_kernel_vaddr pd \<and> pd \<noteq> 0 \<and> cr3 s < PHYS_BASE"
  using pd_wf_page [of s held pd pts pd] by (auto simp: pd_rel_def pd_wf_def)

text \<open>The operations that rewrite an entry in place.\<close>

lemma rewrite_pte:
  assumes rel: "pd_rel s held pd pts M" and u: "is_user_vaddr u" and l: "lookup_page s pd u False = Some (a, s')" and a: "a \<noteq> 0"
    and e: "pte_means (Some e) v"
  shows "pd_rel (write_word s a e) held pd pts (M(pg_no u := v))"
proof -
  have wf: "pd_wf s held pd pts" using rel by (simp add: pd_rel_def)
  obtain pt where "pts (pd_no u) = Some pt" "a = entry_at pt (pt_no u)"
    using lookup_spec [OF wf u] l a by (auto split: option.splits)
  then show ?thesis using pd_rel_write [OF rel u _ e] by simp
qed

lemma pagedir_clear_page_spec:
  assumes rel: "pd_rel s held pd pts M" and u: "pg_ofs u = 0" "is_user_vaddr u"
  shows "\<exists>s'. pagedir_clear_page s pd u = Some s' \<and> init_ram_pages s' = init_ram_pages s \<and> pd_rel s' held pd pts (M(pg_no u := None))
    \<and> (M (pg_no u) \<noteq> None \<longrightarrow> ptov (cr3 s) = Some pd \<longrightarrow> cr3_loads s' = Suc (cr3_loads s))"
proof -
  have wf: "pd_wf s held pd pts" using rel by (simp add: pd_rel_def)
  obtain a where a: "lookup_page s pd u False = Some (a, s)" using lookup_spec [OF wf u(2)] by blast
  note e = lookup_entry [OF wf u(2) a] pd_relD [OF rel u(2)]
  show ?thesis
  proof (cases "a \<noteq> 0 \<and> read_word s a AND PTE_P \<noteq> 0")
    case True
    have "(read_word s a AND NOT PTE_P) AND PTE_P = 0" by (simp add: and.assoc)
    then have "pd_rel (write_word s a (read_word s a AND NOT PTE_P)) held pd pts (M(pg_no u := None))"
      using True by (intro rewrite_pte [OF rel u(2) a]) simp_all
    then show ?thesis using True a u pd_rel_page [OF rel] by (auto simp: pagedir_clear_page_def invalidate_spec)
  next
    case False
    then have "M (pg_no u) = None" using e by (cases "M (pg_no u)") (auto split: if_splits)
    then show ?thesis using False a u rel by (auto simp: pagedir_clear_page_def fun_upd_idem)
  qed
qed

lemma flag_means:
  assumes "f = PTE_D \<or> f = PTE_A"
  shows "pte_means (Some (e OR f)) v = pte_means (Some e) v" "pte_means (Some (e AND NOT f)) v = pte_means (Some e) v"
proof -
  have "f AND g = 0 \<and> NOT f AND g = g" if "g = PTE_P \<or> g = PTE_W \<or> g = PTE_ADDR" for g
    using assms that by (auto simp: PTE_D_def PTE_A_def PTE_P_def PTE_W_def PTE_ADDR_def)
  then have "(e OR f) AND g = e AND g \<and> (e AND NOT f) AND g = e AND g" if "g = PTE_P \<or> g = PTE_W \<or> g = PTE_ADDR" for g
    using that by (simp add: bit.conj_disj_distrib2 and.assoc)
  then show "pte_means (Some (e OR f)) v = pte_means (Some e) v" "pte_means (Some (e AND NOT f)) v = pte_means (Some e) v"
    by (cases v; auto simp: pte_get_page_def)+
qed

lemma set_flag_spec:
  assumes rel: "pd_rel s held pd pts M" and u: "is_user_vaddr u" and f: "f = PTE_D \<or> f = PTE_A"
  shows "\<exists>s'. set_flag f s pd u on = Some s' \<and> init_ram_pages s' = init_ram_pages s \<and> pd_rel s' held pd pts M"
proof -
  have wf: "pd_wf s held pd pts" using rel by (simp add: pd_rel_def)
  obtain a where a: "lookup_page s pd u False = Some (a, s)" using lookup_spec [OF wf u] by blast
  show ?thesis
  proof (cases "a = 0")
    case False
    then have "pte_means (Some (read_word s a)) (M (pg_no u))" using lookup_entry [OF wf u a] pd_relD [OF rel u] by simp
    then have "pd_rel (write_word s a (read_word s a OR f)) held pd pts M" "pd_rel (write_word s a (read_word s a AND NOT f)) held pd pts M"
      using rewrite_pte [OF rel u a False, of _ "M (pg_no u)"] flag_means [OF f] by simp_all
    then show ?thesis using False a pd_rel_page [OF rel] by (auto simp: set_flag_def invalidate_spec)
  qed (use a rel in \<open>simp add: set_flag_def\<close>)
qed

text \<open>A flag that was set is read back, until it is cleared.\<close>

lemma flag_roundtrip:
  assumes rel: "pd_rel s held pd pts M" and u: "is_user_vaddr u" and f: "f = PTE_D \<or> f = PTE_A" and m: "pts (pd_no u) \<noteq> None"
  shows "\<exists>s'. set_flag f s pd u on = Some s' \<and> is_flag f s' pd u = Some on"
proof -
  have wf: "pd_wf s held pd pts" using rel by (simp add: pd_rel_def)
  obtain s' where s': "set_flag f s pd u on = Some s'" "pd_rel s' held pd pts M" using set_flag_spec [OF rel u f] by blast
  obtain a where a: "lookup_page s pd u False = Some (a, s)" "lookup_page s' pd u False = Some (a, s')"
    using lookup_spec [OF wf u] lookup_spec [of s' held pd pts u] s'(2) u by (simp add: pd_rel_def)
  have "a \<noteq> 0" using lookup_entry [OF wf u a(1)] m by (auto simp: pte_of_def split: if_splits)
  moreover from this have "read_word s' a = (if on then read_word s a OR f else read_word s a AND NOT f)"
    using s'(1) a(1) pd_rel_page [OF rel] by (auto simp: set_flag_def invalidate_spec read_write)
  moreover have "(x OR f) AND f = f" "(x AND NOT f) AND f = 0" for x :: u32
    by (rule bit_word_eqI, auto simp: bit_simps)+
  moreover have "f \<noteq> 0" using f by (auto simp: PTE_D_def PTE_A_def)
  ultimately show ?thesis using s'(1) a by (auto simp: is_flag_def)
qed

subsection \<open>Runs\<close>

lemma pagedir_create_spec:
  assumes h: "holds (pal s) held" and base: "PHYS_BASE \<le> base (kernel_pool (pal s))" and cr3: "cr3 s < PHYS_BASE"
    and ini: "(init_page_dir s, 1) \<in> set held" "\<And>j. unat j < 768 \<Longrightarrow> read_word s (entry_at (init_page_dir s) j) = 0"
  shows "\<exists>pd s'. pagedir_create s = Some (pd, s') \<and> init_ram_pages s' = init_ram_pages s
    \<and> (pd \<noteq> 0 \<longrightarrow> pd_rel s' ((pd, 1) # held) pd Map.empty Map.empty)"
proof -
  obtain pd st where g: "palloc_get_multiple (pal s) 0 1 = Some (pd, st)" "holds st (if pd \<noteq> 0 then (pd, 1) # held else held)"
    using holds_get [OF h, of 0 1] by auto
  obtain ks us where "palloc_inv (pal s) ks us" using h by (auto simp: holds_def)
  from palloc_get_spec [OF this, of 1 0] g have st: "pmem st = pmem (pal s)" "base (kernel_pool st) = base (kernel_pool (pal s))" by auto
  let ?m = "\<lambda>a. if unat pd \<le> unat a \<and> unat a < unat pd + 4096 then pmem st (init_page_dir s + (a - pd)) else pmem st a"
  let ?s = "s\<lparr>pal := st\<lparr>pmem := ?m\<rparr>\<rparr>"
  have "pd_rel ?s ((pd, 1) # held) pd Map.empty Map.empty" if pd: "pd \<noteq> 0"
  proof -
    have hold: "holds st ((pd, 1) # held)" using g(2) pd by simp
    have "pd \<noteq> init_page_dir s" using holds_fresh [OF hold] ini(1) by auto
    moreover have "pg_ofs pd = 0" using holds_page [OF hold] by simp
    then have "read_word ?s (entry_at pd j) = 0" if "unat j < 768" for j
      using that ini(2) [of j] by (simp add: read_word_def entry_at_unat st(1)) (simp add: entry_at_def)
    ultimately show ?thesis using base cr3 hold st(2) by (simp add: pd_rel_def pd_wf_def holds_mem pte_of_def)
  qed
  then show ?thesis using g(1) by (auto simp: pagedir_create_def palloc_get_page_def Let_def)
qed

datatype pd_op = Install u32 u32 bool | Clear u32 | SetDirty u32 bool | SetAccessed u32 bool

text \<open>Arguments as the operations require them: page addresses, and frames in physical memory.\<close>

fun op_ok :: "u32 \<Rightarrow> pd_op \<Rightarrow> bool" where
  "op_ok ram (Install u k w) = (pg_ofs u = 0 \<and> is_user_vaddr u \<and> pg_ofs k = 0 \<and> is_kernel_vaddr k \<and> drop_bit PTSHIFT (k - PHYS_BASE) < ram)"
| "op_ok ram (Clear u) = (pg_ofs u = 0 \<and> is_user_vaddr u)"
| "op_ok ram (SetDirty u b) = is_user_vaddr u"
| "op_ok ram (SetAccessed u b) = is_user_vaddr u"

fun do_op :: "machine \<Rightarrow> u32 \<Rightarrow> pd_op \<Rightarrow> (bool \<times> machine) c_res" where
  "do_op s pd (Install u k w) = install_page s pd u k w"
| "do_op s pd (Clear u) = do { s' \<leftarrow> pagedir_clear_page s pd u; Some (True, s') }"
| "do_op s pd (SetDirty u b) = do { s' \<leftarrow> pagedir_set_dirty s pd u b; Some (True, s') }"
| "do_op s pd (SetAccessed u b) = do { s' \<leftarrow> pagedir_set_accessed s pd u b; Some (True, s') }"

text \<open>A run gives the answer of every operation, and whether the kernel pool had a free page before it.\<close>

fun run_pd :: "machine \<Rightarrow> u32 \<Rightarrow> pd_op list \<Rightarrow> ((bool \<times> bool) list \<times> machine) c_res" where
  "run_pd s pd [] = Some ([], s)"
| "run_pd s pd (x # xs) = do { (b, s') \<leftarrow> do_op s pd x; (bs, s'') \<leftarrow> run_pd s' pd xs; Some ((b, kernel_room s) # bs, s'') }"

text \<open>The same on a map of pages. An installation answers no on a mapped page, and otherwise yes if there is room.\<close>

fun map_op :: "(u32 \<Rightarrow> (u32 \<times> bool) option) \<Rightarrow> pd_op \<Rightarrow> bool \<Rightarrow> u32 \<Rightarrow> (u32 \<times> bool) option" where
  "map_op M (Install u k w) b = (if b then M(pg_no u \<mapsto> (k, w)) else M)"
| "map_op M (Clear u) b = M(pg_no u := None)"
| "map_op M _ b = M"

fun answer_ok :: "(u32 \<Rightarrow> (u32 \<times> bool) option) \<Rightarrow> pd_op \<Rightarrow> bool \<Rightarrow> bool \<Rightarrow> bool" where
  "answer_ok M (Install u k w) b room = (if M (pg_no u) = None then b \<or> \<not> room else \<not> b)"
| "answer_ok M _ b room = b"

fun map_run :: "(u32 \<Rightarrow> (u32 \<times> bool) option) \<Rightarrow> pd_op list \<Rightarrow> (bool \<times> bool) list \<Rightarrow> (u32 \<Rightarrow> (u32 \<times> bool) option) option" where
  "map_run M [] [] = Some M"
| "map_run M (x # xs) ((b, room) # bs) = (if answer_ok M x b room then map_run (map_op M x b) xs bs else None)"
| "map_run M _ _ = None"

lemma do_op_spec:
  assumes rel: "pd_rel s held pd pts M" and ok: "op_ok (init_ram_pages s) x"
  shows "\<exists>b s' held' pts'. do_op s pd x = Some (b, s') \<and> answer_ok M x b (kernel_room s) \<and> init_ram_pages s' = init_ram_pages s
    \<and> pd_rel s' held' pd pts' (map_op M x b)"
proof (cases x)
  case (Install u k w)
  then have a: "pg_ofs u = 0" "is_user_vaddr u" "pg_ofs k = 0" "is_kernel_vaddr k" "drop_bit PTSHIFT (k - PHYS_BASE) < init_ram_pages s"
    using ok by simp_all
  note g = pagedir_get_page_spec [OF rel a(2)]
  show ?thesis
  proof (cases "M (pg_no u)")
    case None
    obtain b s' held' pts' where r: "pagedir_set_page s pd u k w = Some (b, s')" "init_ram_pages s' = init_ram_pages s"
      "pd_rel s' held' pd pts' (if b then M(pg_no u \<mapsto> (k, w)) else M)" "b \<or> \<not> kernel_room s"
      using pagedir_set_page_spec [OF rel a None, of w] by blast
    then have "do_op s pd x = Some (b, s')" using g None Install by (simp add: install_page_def)
    then show ?thesis using r Install None by (intro exI [of _ b] exI [of _ s'] exI [of _ held'] exI [of _ pts']) simp
  next
    case (Some v)
    obtain k' w' where v: "v = (k', w')" by (cases v)
    have "pg_ofs k' = 0" "is_kernel_vaddr k'" using pd_relD [OF rel a(2)] Some v by (cases "pte_of s pts u"; simp)+
    then have "k' + pg_ofs u \<noteq> 0" by (rule kernel_page_ofs)
    then have "do_op s pd x = Some (False, s)" using g Some v Install by (simp add: install_page_def)
    then show ?thesis using Some Install rel by (intro exI [of _ False] exI [of _ s] exI [of _ held] exI [of _ pts]) simp
  qed
next
  case (Clear u)
  obtain s' where "pagedir_clear_page s pd u = Some s'" "init_ram_pages s' = init_ram_pages s" "pd_rel s' held pd pts (M(pg_no u := None))"
    using pagedir_clear_page_spec [OF rel, of u] ok Clear by auto
  then show ?thesis using Clear by (intro exI [of _ True] exI [of _ s'] exI [of _ held] exI [of _ pts]) simp
next
  case (SetDirty u b)
  obtain s' where "set_flag PTE_D s pd u b = Some s'" "init_ram_pages s' = init_ram_pages s" "pd_rel s' held pd pts M"
    using set_flag_spec [OF rel, of u PTE_D b] ok SetDirty by auto
  then show ?thesis using SetDirty
    by (intro exI [of _ True] exI [of _ s'] exI [of _ held] exI [of _ pts]) (simp add: pagedir_set_dirty_def)
next
  case (SetAccessed u b)
  obtain s' where "set_flag PTE_A s pd u b = Some s'" "init_ram_pages s' = init_ram_pages s" "pd_rel s' held pd pts M"
    using set_flag_spec [OF rel, of u PTE_A b] ok SetAccessed by auto
  then show ?thesis using SetAccessed
    by (intro exI [of _ True] exI [of _ s'] exI [of _ held] exI [of _ pts]) (simp add: pagedir_set_accessed_def)
qed

lemma run_pd_spec:
  assumes "pd_rel s held pd pts M" and "list_all (op_ok (init_ram_pages s)) xs"
  shows "\<exists>bs s' held' pts' M'. run_pd s pd xs = Some (bs, s') \<and> map_run M xs bs = Some M' \<and> pd_rel s' held' pd pts' M'"
  using assms
proof (induction xs arbitrary: s held pts M)
  case (Cons x xs)
  have "op_ok (init_ram_pages s) x" and xs: "list_all (op_ok (init_ram_pages s)) xs" using Cons.prems(2) by simp_all
  from do_op_spec [OF Cons.prems(1) this(1)] obtain b s1 held1 pts1 where x: "do_op s pd x = Some (b, s1)" "answer_ok M x b (kernel_room s)" "init_ram_pages s1 = init_ram_pages s"
    "pd_rel s1 held1 pd pts1 (map_op M x b)"
    by blast
  moreover obtain bs s' held' pts' M' where "run_pd s1 pd xs = Some (bs, s')" "map_run (map_op M x b) xs bs = Some M'"
    "pd_rel s' held' pd pts' M'"
    using Cons.IH [OF x(4)] xs x(3) by auto
  ultimately show ?case
    by (intro exI [of _ "(b, kernel_room s) # bs"] exI [of _ s'] exI [of _ held'] exI [of _ pts'] exI [of _ M']) simp
qed auto

text \<open>C6. The memory management of processes is a map. In a kernel whose own page directory maps no user page, a new page
  directory followed by any sequence of installing and clearing pages and setting their dirty and accessed bits runs
  without a failed assertion; each answer is the one a finite map of pages gives, except
  that an installation may be refused when the kernel pool has no free page left; and at the end every
  user address, whatever page tables were allocated on the way, is translated as this map says.\<close>

theorem pagedir_refines_map:
  assumes "holds (pal s) held" and "PHYS_BASE \<le> base (kernel_pool (pal s))" and "cr3 s < PHYS_BASE"
    and "(init_page_dir s, 1) \<in> set held" and "\<And>j. unat j < 768 \<Longrightarrow> read_word s (entry_at (init_page_dir s) j) = 0"
    and ops: "list_all (op_ok (init_ram_pages s)) xs"
  shows "\<exists>pd s0. pagedir_create s = Some (pd, s0) \<and> (pd \<noteq> 0 \<longrightarrow>
    (\<exists>bs s' M. run_pd s0 pd xs = Some (bs, s') \<and> map_run Map.empty xs bs = Some M
      \<and> (\<forall>va. is_user_vaddr va \<longrightarrow>
          pagedir_get_page s' pd va = Some (case M (pg_no va) of None \<Rightarrow> 0 | Some (k, w) \<Rightarrow> k + pg_ofs va))))"
proof -
  obtain pd s0 where c: "pagedir_create s = Some (pd, s0)" "init_ram_pages s0 = init_ram_pages s"
    "pd \<noteq> 0 \<longrightarrow> pd_rel s0 ((pd, 1) # held) pd Map.empty Map.empty"
    using pagedir_create_spec [OF assms(1-5)] by blast
  show ?thesis
  proof (intro exI [of _ pd] exI [of _ s0] conjI impI c(1))
    assume "pd \<noteq> 0"
    then obtain bs s' held' pts' M where r: "run_pd s0 pd xs = Some (bs, s')" "map_run Map.empty xs bs = Some M" "pd_rel s' held' pd pts' M"
      using run_pd_spec [of s0 "(pd, 1) # held" pd Map.empty Map.empty xs] c(2,3) ops by auto
    then show "\<exists>bs s' M. run_pd s0 pd xs = Some (bs, s') \<and> map_run Map.empty xs bs = Some M
      \<and> (\<forall>va. is_user_vaddr va \<longrightarrow> pagedir_get_page s' pd va = Some (case M (pg_no va) of None \<Rightarrow> 0 | Some (k, w) \<Rightarrow> k + pg_ofs va))"
      using pagedir_get_page_spec [OF r(3)] by (intro exI [of _ bs] exI [of _ s'] exI [of _ M]) simp
  qed
qed

text \<open>A machine whose kernel page directory is the first page of the pool.\<close>

definition machine_d :: machine where
  "machine_d = \<lparr>pal = \<lparr>kernel_pool = \<lparr>used_map = \<lparr>bit_cnt = 10, bits = [1]\<rparr>, base = 0xc0101000\<rparr>,
     user_pool = \<lparr>used_map = \<lparr>bit_cnt = 0, bits = []\<rparr>, base = 0xc0200000\<rparr>, pmem = (\<lambda>_. 0)\<rparr>,
     cr3 = 0x101000, cr3_loads = 0, init_page_dir = 0xc0101000, init_ram_pages = 1024\<rparr>"

lemma machine_d_holds: "holds (pal machine_d) [(0xc0101000, 1)]"
proof -
  have "palloc_inv (pal machine_d) [(0, 1)] []"
    by (simp add: palloc_inv_def machine_d_def pool_fits_def pg_ofs_0 bma.alloc_inv_def bm_wf_def owners_def bm_list_nth)
       (auto simp: less_Suc_eq numeral_eq_Suc)
  moreover have "mset (spans [(0xc0101000, 1)]) = mset (live (pal machine_d) [(0, 1)] [])"
    by (simp add: spans_def live_def machine_d_def)
  ultimately show ?thesis by (auto simp: holds_def)
qed

lemma machine_d_create:
  "\<exists>s0. pagedir_create machine_d = Some (0xc0102000, s0) \<and> kernel_room s0"
proof -
  have "bitmap_scan_and_flip \<lparr>bit_cnt = 10, bits = [1]\<rparr> 0 1 False = Some (1, \<lparr>bit_cnt = 10, bits = [3]\<rparr>)" by code_simp
  moreover have "(1 :: u32) \<noteq> BITMAP_ERROR" by (simp add: BITMAP_ERROR_def)
  moreover have "first_group 0 1 False (bm_list \<lparr>bit_cnt = 10, bits = [3]\<rparr>) = Some 2" by code_simp
  ultimately show ?thesis
    by (simp add: pagedir_create_def palloc_get_page_def palloc_get_multiple_def pool_of_flags_def set_pool_map_def machine_d_def
      kernel_room_def Let_def PGSIZE_val)
qed

theorem pagedir_refines_map_witness:
  "\<exists>s0 s'. pagedir_create machine_d = Some (0xc0102000, s0)
    \<and> run_pd s0 0xc0102000 [Install 0x8048000 0xc0108000 True] = Some ([(True, True)], s')
    \<and> pagedir_get_page s' 0xc0102000 0x8048123 = Some 0xc0108123 \<and> pagedir_get_page s' 0xc0102000 0x8049000 = Some 0"
proof -
  obtain s0 where s0: "pagedir_create machine_d = Some (0xc0102000, s0)" "kernel_room s0" using machine_d_create by blast
  let ?xs = "[Install 0x8048000 0xc0108000 True]"
  have "list_all (op_ok (init_ram_pages machine_d)) ?xs"
    by (simp add: machine_d_def pg_ofs_0 is_user_vaddr_def is_kernel_vaddr_def PHYS_BASE_def PTSHIFT_def PGBITS_def drop_bit_eq_div)
  then obtain bs s' M where r: "run_pd s0 0xc0102000 ?xs = Some (bs, s')" "map_run Map.empty ?xs bs = Some M"
    "\<forall>va. is_user_vaddr va \<longrightarrow>
      pagedir_get_page s' 0xc0102000 va = Some (case M (pg_no va) of None \<Rightarrow> 0 | Some (k, w) \<Rightarrow> k + pg_ofs va)"
    using pagedir_refines_map [OF machine_d_holds, of ?xs] s0
    by (simp add: machine_d_def read_word_def PHYS_BASE_def) metis
  then obtain b where bs: "bs = [(b, True)]" using s0(2) by (auto split: Option.bind_split_asm)
  then have "b" "M = Map.empty(pg_no 0x8048000 \<mapsto> (0xc0108000, True))" using r(2) by (auto split: if_splits)
  moreover have "is_user_vaddr 0x8048123" "is_user_vaddr 0x8049000" by (simp_all add: is_user_vaddr_def PHYS_BASE_def)
  moreover have "pg_no 0x8048123 = pg_no 0x8048000" "pg_no 0x8049000 \<noteq> pg_no 0x8048000" "pg_ofs 0x8048123 = 0x123"
    by (simp_all add: word_unat_eq_iff pg_no_unat pg_ofs_unat)
  ultimately show ?thesis using s0(1) r(1,3) bs by auto
qed

end
