(* ===== verification/CString.thy ===== *)
theory CString
  imports Prelude "HOL-Library.Sublist"
begin

text \<open>
  The string and memory functions of \<^verbatim>\<open>lib/string.c\<close>. Memory is the content of each byte by its
  address, a pointer is an address and the null pointer is 0; a failed assertion is \<open>None\<close>. Loops over a
  counted block recurse on the count. Loops that run to a terminator are partial functions, whose result is
  \<open>None\<close> if there is none; the specifications show that they return for every string.
\<close>

subsection \<open>Blocks\<close>

type_synonym mem = "u32 \<Rightarrow> u8"

fun copy_up :: "mem \<Rightarrow> u32 \<Rightarrow> u32 \<Rightarrow> nat \<Rightarrow> mem" where
  "copy_up m dst src 0 = m"
| "copy_up m dst src (Suc n) = copy_up (m(dst := m src)) (dst + 1) (src + 1) n"

fun copy_down :: "mem \<Rightarrow> u32 \<Rightarrow> u32 \<Rightarrow> nat \<Rightarrow> mem \<times> u32" where
  "copy_down m dst src 0 = (m, dst)"
| "copy_down m dst src (Suc n) = copy_down (m(dst - 1 := m (src - 1))) (dst - 1) (src - 1) n"

text \<open>The functions that write return the pointer and the memory.\<close>

definition memcpy :: "mem \<Rightarrow> u32 \<Rightarrow> u32 \<Rightarrow> u32 \<Rightarrow> (u32 \<times> mem) c_res" where
  "memcpy m dst src n =
     (if (dst = 0 \<or> src = 0) \<and> n \<noteq> 0 then None else Some (dst, copy_up m dst src (unat n)))"

definition memmove :: "mem \<Rightarrow> u32 \<Rightarrow> u32 \<Rightarrow> u32 \<Rightarrow> (u32 \<times> mem) c_res" where
  "memmove m dst src n =
     (if (dst = 0 \<or> src = 0) \<and> n \<noteq> 0 then None
      else if dst < src then Some (dst + n, copy_up m dst src (unat n))
      else (let (m', d) = copy_down m (dst + n) (src + n) (unat n) in Some (d, m')))"

fun compare_bytes :: "mem \<Rightarrow> u32 \<Rightarrow> u32 \<Rightarrow> nat \<Rightarrow> int" where
  "compare_bytes m a b 0 = 0"
| "compare_bytes m a b (Suc n) =
     (if m a \<noteq> m b then (if m a > m b then 1 else -1) else compare_bytes m (a + 1) (b + 1) n)"

definition memcmp :: "mem \<Rightarrow> u32 \<Rightarrow> u32 \<Rightarrow> u32 \<Rightarrow> int c_res" where
  "memcmp m a b n = (if (a = 0 \<or> b = 0) \<and> n \<noteq> 0 then None else Some (compare_bytes m a b (unat n)))"

fun find_byte :: "mem \<Rightarrow> u32 \<Rightarrow> u8 \<Rightarrow> nat \<Rightarrow> u32" where
  "find_byte m p c 0 = 0"
| "find_byte m p c (Suc n) = (if m p = c then p else find_byte m (p + 1) c n)"

definition memchr :: "mem \<Rightarrow> u32 \<Rightarrow> u32 \<Rightarrow> u32 \<Rightarrow> u32 c_res" where
  "memchr m p ch n = (if p = 0 \<and> n \<noteq> 0 then None else Some (find_byte m p (ucast ch) (unat n)))"

fun set_bytes :: "mem \<Rightarrow> u32 \<Rightarrow> u8 \<Rightarrow> nat \<Rightarrow> mem" where
  "set_bytes m p v 0 = m"
| "set_bytes m p v (Suc n) = set_bytes (m(p := v)) (p + 1) v n"

definition memset :: "mem \<Rightarrow> u32 \<Rightarrow> u32 \<Rightarrow> u32 \<Rightarrow> (u32 \<times> mem) c_res" where
  "memset m dst v n = (if dst = 0 \<and> n \<noteq> 0 then None else Some (dst, set_bytes m dst (ucast v) (unat n)))"

subsection \<open>Strings\<close>

partial_function (option) strcmp_loop :: "mem \<Rightarrow> u32 \<Rightarrow> u32 \<Rightarrow> int option" where
  [code]: "strcmp_loop m a b =
     (if m a \<noteq> 0 \<and> m a = m b then strcmp_loop m (a + 1) (b + 1)
      else Some (if m a < m b then -1 else if m a > m b then 1 else 0))"

definition strcmp :: "mem \<Rightarrow> u32 \<Rightarrow> u32 \<Rightarrow> int c_res" where
  "strcmp m a b = (if a = 0 \<or> b = 0 then None else strcmp_loop m a b)"

partial_function (option) strchr_loop :: "mem \<Rightarrow> u32 \<Rightarrow> u8 \<Rightarrow> u32 option" where
  [code]: "strchr_loop m p c = (if m p = c then Some p else if m p = 0 then Some 0 else strchr_loop m (p + 1) c)"

definition strchr :: "mem \<Rightarrow> u32 \<Rightarrow> u32 \<Rightarrow> u32 c_res" where
  "strchr m p c = (if p = 0 then None else strchr_loop m p (ucast c))"

text \<open>The length of the initial part of a string whose bytes occur (\<open>want\<close>) or do not occur in \<open>chars\<close>.\<close>

partial_function (option) span_loop :: "mem \<Rightarrow> bool \<Rightarrow> u32 \<Rightarrow> u32 \<Rightarrow> u32 \<Rightarrow> u32 option" where
  [code]: "span_loop m want p chars n =
     (if m (p + n) \<noteq> 0 then do {
        q \<leftarrow> strchr m chars (ucast (m (p + n)));
        if (q \<noteq> 0) = want then span_loop m want p chars (n + 1) else Some n
      } else Some n)"

definition strcspn :: "mem \<Rightarrow> u32 \<Rightarrow> u32 \<Rightarrow> u32 c_res" where
  "strcspn m p stop = span_loop m False p stop 0"

definition strspn :: "mem \<Rightarrow> u32 \<Rightarrow> u32 \<Rightarrow> u32 c_res" where
  "strspn m p skip = span_loop m True p skip 0"

partial_function (option) strpbrk :: "mem \<Rightarrow> u32 \<Rightarrow> u32 \<Rightarrow> u32 option" where
  [code]: "strpbrk m p stop =
     (if m p \<noteq> 0 then do { q \<leftarrow> strchr m stop (ucast (m p)); if q \<noteq> 0 then Some p else strpbrk m (p + 1) stop }
      else Some 0)"

partial_function (option) strrchr_loop :: "mem \<Rightarrow> u32 \<Rightarrow> u8 \<Rightarrow> u32 \<Rightarrow> u32 option" where
  [code]: "strrchr_loop m s c p = (if m s \<noteq> 0 then strrchr_loop m (s + 1) c (if m s = c then s else p) else Some p)"

definition strrchr :: "mem \<Rightarrow> u32 \<Rightarrow> u32 \<Rightarrow> u32 c_res" where
  "strrchr m s c = strrchr_loop m s (ucast c) 0"

partial_function (option) strlen_loop :: "mem \<Rightarrow> u32 \<Rightarrow> u32 option" where
  [code]: "strlen_loop m p = (if m p \<noteq> 0 then strlen_loop m (p + 1) else Some p)"

definition strlen :: "mem \<Rightarrow> u32 \<Rightarrow> u32 c_res" where
  "strlen m s = (if s = 0 then None else do { p \<leftarrow> strlen_loop m s; Some (p - s) })"

text \<open>The byte at \<open>maxlen\<close> is read before the bound is tested.\<close>

partial_function (option) strnlen_loop :: "mem \<Rightarrow> u32 \<Rightarrow> u32 \<Rightarrow> u32 \<Rightarrow> u32 option" where
  [code]: "strnlen_loop m s maxlen n = (if m (s + n) \<noteq> 0 \<and> n < maxlen then strnlen_loop m s maxlen (n + 1) else Some n)"

definition strnlen :: "mem \<Rightarrow> u32 \<Rightarrow> u32 \<Rightarrow> u32 c_res" where
  "strnlen m s maxlen = strnlen_loop m s maxlen 0"

text \<open>The search of \<open>strstr\<close>: \<open>k\<close> positions from \<open>i\<close> on.\<close>

fun strstr_loop :: "mem \<Rightarrow> u32 \<Rightarrow> u32 \<Rightarrow> u32 \<Rightarrow> u32 \<Rightarrow> nat \<Rightarrow> u32 c_res" where
  "strstr_loop m hay needle needle_len i 0 = Some 0"
| "strstr_loop m hay needle needle_len i (Suc k) = do {
     c \<leftarrow> memcmp m (hay + i) needle needle_len;
     if c = 0 then Some (hay + i) else strstr_loop m hay needle needle_len (i + 1) k
   }"

definition strstr :: "mem \<Rightarrow> u32 \<Rightarrow> u32 \<Rightarrow> u32 c_res" where
  "strstr m hay needle = do {
     haystack_len \<leftarrow> strlen m hay;
     needle_len \<leftarrow> strlen m needle;
     if haystack_len \<ge> needle_len
     then strstr_loop m hay needle needle_len 0 (Suc (unat (haystack_len - needle_len)))
     else Some 0
   }"

text \<open>The two loops of \<open>strtok_r\<close>: the first stops with the end of the string, or at a token; the second at its end.\<close>

partial_function (option) skip_delims :: "mem \<Rightarrow> u32 \<Rightarrow> u32 \<Rightarrow> (u32 + u32) option" where
  [code]: "skip_delims m s delims = do {
     q \<leftarrow> strchr m delims (ucast (m s));
     if q \<noteq> 0 then if m s = 0 then Some (Inl s) else skip_delims m (s + 1) delims else Some (Inr s)
   }"

partial_function (option) skip_token :: "mem \<Rightarrow> u32 \<Rightarrow> u32 \<Rightarrow> u32 option" where
  [code]: "skip_token m s delims = do { q \<leftarrow> strchr m delims (ucast (m s)); if q = 0 then skip_token m (s + 1) delims else Some s }"

text \<open>\<open>save\<close> is the variable behind \<open>save_ptr\<close>; the result is the token, its new value and the memory.\<close>

definition strtok_r :: "mem \<Rightarrow> u32 \<Rightarrow> u32 \<Rightarrow> u32 \<Rightarrow> (u32 \<times> u32 \<times> mem) c_res" where
  "strtok_r m s0 delims save =
     (let s = (if s0 = 0 then save else s0) in
      if delims = 0 \<or> s = 0 then None
      else do {
        r \<leftarrow> skip_delims m s delims;
        (case r of
           Inl e \<Rightarrow> Some (0, e, m)
         | Inr token \<Rightarrow> do {
             e \<leftarrow> skip_token m token delims;
             if m e \<noteq> 0 then Some (token, e + 1, m(e := 0)) else Some (token, e, m)
           })
      })"

definition strlcpy :: "mem \<Rightarrow> u32 \<Rightarrow> u32 \<Rightarrow> u32 \<Rightarrow> (u32 \<times> mem) c_res" where
  "strlcpy m dst src n =
     (if dst = 0 \<or> src = 0 then None
      else do {
        src_len \<leftarrow> strlen m src;
        if n > 0 then do {
          let dst_len = (if src_len < n - 1 then src_len else n - 1);
          (_, m') \<leftarrow> memcpy m dst src dst_len;
          Some (src_len, m'(dst + dst_len := 0))
        } else Some (src_len, m)
      })"

definition strlcat :: "mem \<Rightarrow> u32 \<Rightarrow> u32 \<Rightarrow> u32 \<Rightarrow> (u32 \<times> mem) c_res" where
  "strlcat m dst src n =
     (if dst = 0 \<or> src = 0 then None
      else do {
        src_len \<leftarrow> strlen m src;
        dst_len \<leftarrow> strlen m dst;
        if n > 0 \<and> dst_len < n then do {
          let copy_cnt = (if src_len < n - dst_len - 1 then src_len else n - dst_len - 1);
          (_, m') \<leftarrow> memcpy m (dst + dst_len) src copy_cnt;
          Some (src_len + dst_len, m'(dst + dst_len + copy_cnt := 0))
        } else Some (src_len + dst_len, m)
      })"

subsection \<open>Addresses of a block\<close>

text \<open>Whether \<open>a\<close> is one of the \<open>n\<close> addresses from \<open>p\<close> on.\<close>

definition in_block :: "u32 \<Rightarrow> u32 \<Rightarrow> nat \<Rightarrow> bool" where
  "in_block a p n \<longleftrightarrow> unat (a - p) < n"

fun block :: "mem \<Rightarrow> u32 \<Rightarrow> nat \<Rightarrow> u8 list" where
  "block m p 0 = []"
| "block m p (Suc n) = m p # block m (p + 1) n"

lemma block_numeral [simp]: "block m p (numeral k) = m p # block m (p + 1) (pred_numeral k)"
  by (simp add: numeral_eq_Suc)

lemma length_block [simp]: "length (block m p n) = n"
  by (induction n arbitrary: p) simp_all

lemma block_nth: "i < n \<Longrightarrow> block m p n ! i = m (p + word_of_nat i)"
proof (induction n arbitrary: p i)
  case (Suc n)
  then show ?case by (cases i) (simp_all add: algebra_simps)
qed simp

lemma unat_of_nat_le: "i < 2 ^ 32 \<Longrightarrow> unat (word_of_nat i :: u32) = i"
  by (simp add: unsigned_of_nat take_bit_nat_eq_self)

lemma in_block_iff: "n \<le> 2 ^ 32 \<Longrightarrow> in_block a p n \<longleftrightarrow> (\<exists>i<n. a = p + word_of_nat i)"
  unfolding in_block_def
  by (auto simp: unat_of_nat_le intro!: exI [of _ "unat (a - p)"])

lemma in_block_unat: "unat p + n \<le> 2 ^ 32 \<Longrightarrow> in_block a p n \<longleftrightarrow> unat p \<le> unat a \<and> unat a < unat p + n"
  unfolding in_block_def using unsigned_less [of a, where 'a = nat] by (auto simp: unat_sub_if' word_le_nat_alt)

lemma block_cong: "n \<le> 2 ^ 32 \<Longrightarrow> (\<And>a. in_block a p n \<Longrightarrow> m' a = m a) \<Longrightarrow> block m' p n = block m p n"
  by (rule nth_equalityI) (auto simp: block_nth in_block_iff)

lemma block_append: "block m p (i + n) = block m p i @ block m (p + word_of_nat i) n"
  by (induction i arbitrary: p) (simp_all add: algebra_simps)

lemma block_Suc_end: "block m p (Suc n) = block m p n @ [m (p + word_of_nat n)]"
  using block_append [of m p n 1] by simp

lemma unat_pred: "d \<noteq> 0 \<Longrightarrow> unat (d - 1 :: u32) = unat d - 1"
  using unat_gt_0 [of d] by (simp add: unat_sub word_le_nat_alt)

lemma unat_pred_zero: "unat (0 - 1 :: u32) = 2 ^ 32 - 1"
  by (simp add: unsigned_minus_1_eq_mask mask_eq_exp_minus_1)

subsection \<open>Copying\<close>

text \<open>Both loops are correct unless the destination starts strictly inside the part of the source still to be read.\<close>

lemma copy_up_spec:
  assumes "n \<le> 2 ^ 32 - 1" and "dst = src \<or> n \<le> unat (dst - src)"
  shows "copy_up m dst src n a = (if in_block a dst n then m (src + (a - dst)) else m a)"
  using assms
proof (induction n arbitrary: m dst src)
  case (Suc n)
  have IH: "copy_up (m(dst := m src)) (dst + 1) (src + 1) n a =
    (if unat (a - dst - 1) < n then (m(dst := m src)) (src + (a - dst)) else (m(dst := m src)) a)"
  proof -
    have "a - (dst + 1) = a - dst - 1" "src + 1 + (a - (dst + 1)) = src + (a - dst)" "dst + 1 - (src + 1) = dst - src" by simp_all
    moreover have "n \<le> 2 ^ 32 - 1" "dst + 1 = src + 1 \<or> n \<le> unat (dst - src)" using Suc.prems by auto
    ultimately show ?thesis using Suc.IH [of "dst + 1" "src + 1" "m(dst := m src)"] unfolding in_block_def by metis
  qed
  show ?case
  proof (cases "a = dst")
    case True
    then show ?thesis using IH Suc.prems(1) by (simp add: in_block_def unat_pred_zero [simplified])
  next
    case False
    then have "unat (a - dst - 1) < n \<longleftrightarrow> unat (a - dst) < Suc n" using unat_pred [of "a - dst"] unat_gt_0 [of "a - dst"] by auto
    moreover have "src + (a - dst) \<noteq> dst" if "unat (a - dst) < Suc n"
    proof
      assume "src + (a - dst) = dst"
      then have "a - dst = dst - src" by (simp add: algebra_simps)
      then show False using Suc.prems(2) that False by auto
    qed
    ultimately show ?thesis using IH False by (simp add: in_block_def)
  qed
qed (simp add: in_block_def)

lemma copy_down_spec:
  assumes "n \<le> 2 ^ 32 - 1" and "dst = src \<or> n \<le> unat (src - dst)"
  shows "snd (copy_down m dst src n) = dst - word_of_nat n
    \<and> fst (copy_down m dst src n) a = (if unat (dst - 1 - a) < n then m (src - (dst - a)) else m a)"
  using assms
proof (induction n arbitrary: m dst src)
  case (Suc n)
  let ?m = "m(dst - 1 := m (src - 1))"
  have IH: "snd (copy_down ?m (dst - 1) (src - 1) n) = dst - 1 - word_of_nat n
    \<and> fst (copy_down ?m (dst - 1) (src - 1) n) a = (if unat (dst - 1 - a - 1) < n then ?m (src - (dst - a)) else ?m a)"
  proof -
    have "dst - 1 - 1 - a = dst - 1 - a - 1" "src - 1 - (dst - 1 - a) = src - (dst - a)" "src - 1 - (dst - 1) = src - dst" by simp_all
    moreover have "n \<le> 2 ^ 32 - 1" "dst - 1 = src - 1 \<or> n \<le> unat (src - dst)" using Suc.prems by auto
    ultimately show ?thesis using Suc.IH [of "dst - 1" "src - 1" ?m] by metis
  qed
  have "fst (copy_down ?m (dst - 1) (src - 1) n) a = (if unat (dst - 1 - a) < Suc n then m (src - (dst - a)) else m a)"
  proof (cases "a = dst - 1")
    case True
    then show ?thesis using IH Suc.prems(1) by (simp add: unat_pred_zero [simplified])
  next
    case False
    then have ne: "dst - 1 - a \<noteq> 0" by auto
    then have "unat (dst - 1 - a - 1) < n \<longleftrightarrow> unat (dst - 1 - a) < Suc n" using unat_pred [OF ne] unat_gt_0 [of "dst - 1 - a"] by auto
    moreover have "src - (dst - a) \<noteq> dst - 1" if "unat (dst - 1 - a) < Suc n"
    proof
      assume "src - (dst - a) = dst - 1"
      then have "src - dst = dst - 1 - a" by (simp add: algebra_simps)
      then show False using Suc.prems(2) that ne by (metis leD right_minus_eq)
    qed
    ultimately show ?thesis using IH False by simp
  qed
  then show ?case using IH by (simp add: algebra_simps)
qed simp

lemma in_block_from_end: "in_block a p (unat (n :: u32)) \<longleftrightarrow> unat (p + n - 1 - a) < unat n"
proof -
  define d where "d = a - p"
  have e: "p + n - 1 - a = n - (d + 1)" by (simp add: d_def algebra_simps)
  have "unat d < unat n \<longleftrightarrow> unat (n - (d + 1)) < unat n"
  proof (cases "unat d < unat n")
    case True
    then have "unat (d + 1) = unat d + 1" using unsigned_less [of n, where 'a = nat] by (simp add: unat_word_ariths)
    then show ?thesis using True by (simp add: unat_sub word_le_nat_alt)
  next
    case False
    show ?thesis
    proof (cases "d + 1 = 0")
      case True
      then show ?thesis using False by simp
    next
      case ne: False
      then have "unat (d + 1) = unat d + 1" using unat_pred [OF ne] unat_gt_0 [of "d + 1"] by simp
      then have "n < d + 1" using False by (simp add: word_less_nat_alt)
      then have "unat n \<le> unat (n - (d + 1))"
        using unsigned_less [of "d + 1", where 'a = nat] by (simp add: unat_sub_if' word_le_nat_alt word_less_nat_alt)
      then show ?thesis using False by simp
    qed
  qed
  then show ?thesis by (simp only: in_block_def e d_def [symmetric])
qed



subsection \<open>Strings in memory\<close>

text \<open>The bytes \<open>xs\<close> followed by the terminator lie at \<open>p\<close>, without wrapping around.\<close>

definition cstr :: "mem \<Rightarrow> u32 \<Rightarrow> u8 list \<Rightarrow> bool" where
  "cstr m p xs \<longleftrightarrow> p \<noteq> 0 \<and> unat p + length xs < 2 ^ 32 \<and> 0 \<notin> set xs \<and> block m p (Suc (length xs)) = xs @ [0]"

text \<open>The same without the conditions on the address, for induction over the loops.\<close>

definition text_at :: "mem \<Rightarrow> u32 \<Rightarrow> u8 list \<Rightarrow> bool" where
  "text_at m p xs \<longleftrightarrow> 0 \<notin> set xs \<and> block m p (Suc (length xs)) = xs @ [0]"

lemma text_at_simps [simp]:
  "text_at m p [] \<longleftrightarrow> m p = 0" "text_at m p (x # xs) \<longleftrightarrow> x \<noteq> 0 \<and> m p = x \<and> text_at m (p + 1) xs"
  by (auto simp: text_at_def)

lemma cstr_text: "cstr m p xs \<Longrightarrow> text_at m p xs"
  by (simp add: cstr_def text_at_def)

lemma text_at_append: "text_at m p (xs @ ys) \<Longrightarrow> text_at m (p + word_of_nat (length xs)) ys"
  by (induction xs arbitrary: p) (auto simp flip: add.assoc)

lemma cstr_addr:
  assumes "cstr m p xs" and "i \<le> length xs"
  shows "unat (p + word_of_nat i) = unat p + i" "p + word_of_nat i \<noteq> 0"
proof -
  have "unat (word_of_nat i :: u32) = i" using assms by (intro unat_of_nat_le) (simp add: cstr_def)
  then show "unat (p + word_of_nat i) = unat p + i" using assms by (simp add: cstr_def unat_word_ariths)
  moreover have "unat p \<noteq> 0" using assms(1) by (simp add: cstr_def unat_eq_zero)
  ultimately show "p + word_of_nat i \<noteq> 0" by (metis add_is_0 unat_0)
qed

lemma cstr_suffix:
  assumes "cstr m p (xs @ ys)"
  shows "cstr m (p + word_of_nat (length xs)) ys"
proof -
  have "text_at m (p + word_of_nat (length xs)) ys" using text_at_append cstr_text assms by blast
  then show ?thesis using cstr_addr [OF assms, of "length xs"] assms by (simp add: cstr_def text_at_def)
qed

lemma cstr_drop: "cstr m p xs \<Longrightarrow> i \<le> length xs \<Longrightarrow> cstr m (p + word_of_nat i) (drop i xs)"
  using cstr_suffix [of m p "take i xs" "drop i xs"] by simp

lemma cstr_frame:
  assumes "cstr m p xs" and "\<And>a. in_block a p (Suc (length xs)) \<Longrightarrow> m' a = m a"
  shows "cstr m' p xs"
proof -
  have "block m' p (Suc (length xs)) = block m p (Suc (length xs))" using assms by (intro block_cong) (auto simp: cstr_def)
  then show ?thesis using assms(1) by (simp add: cstr_def)
qed

lemma cstr_upd: "cstr m p xs \<Longrightarrow> \<not> in_block e p (Suc (length xs)) \<Longrightarrow> cstr (m(e := v)) p xs"
  by (erule cstr_frame) auto

lemma cstr_nth: "cstr m p xs \<Longrightarrow> i < length xs \<Longrightarrow> m (p + word_of_nat i) = xs ! i"
  using block_nth [of i "Suc (length xs)" m p] by (simp add: cstr_def nth_append del: block.simps)

text \<open>A terminator written into a string cuts it off.\<close>

lemma cstr_cut:
  assumes "cstr m p (xs @ x # ys)"
  shows "cstr (m(p + word_of_nat (length xs) := 0)) p xs"
proof -
  have "block (m(p + word_of_nat (length xs) := 0)) p (length xs) = xs"
  proof (rule nth_equalityI)
    show "block (m(p + word_of_nat (length xs) := 0)) p (length xs) ! i = xs ! i"
      if "i < length (block (m(p + word_of_nat (length xs) := 0)) p (length xs))" for i
      using that cstr_nth [OF assms, of i] cstr_addr(1) [OF assms, of i] cstr_addr(1) [OF assms, of "length xs"]
      by (auto simp: block_nth nth_append)
  qed simp
  then have "block (m(p + word_of_nat (length xs) := 0)) p (Suc (length xs)) = xs @ [0]"
    by (simp only: block_Suc_end fun_upd_same)
  then show ?thesis using assms by (simp add: cstr_def)
qed

subsection \<open>The scanning functions\<close>

lemma strlen_loop_text: "text_at m p xs \<Longrightarrow> strlen_loop m p = Some (p + word_of_nat (length xs))"
  by (induction xs arbitrary: p) (subst strlen_loop.simps, simp flip: add.assoc)+

lemma strlen_spec: "cstr m p xs \<Longrightarrow> strlen m p = Some (word_of_nat (length xs))"
  using strlen_loop_text [OF cstr_text] by (auto simp: strlen_def cstr_def)

lemma strchr_loop_text:
  "text_at m p xs \<Longrightarrow> strchr_loop m p c =
    Some (if c \<in> set xs \<or> c = 0 then p + word_of_nat (length (takeWhile (\<lambda>x. x \<noteq> c) xs)) else 0)"
  by (induction xs arbitrary: p) (subst strchr_loop.simps, auto simp flip: add.assoc)+

lemma strchr_spec:
  "cstr m p xs \<Longrightarrow> strchr m p c =
    Some (if ucast c \<in> set xs \<or> (ucast c :: u8) = 0 then p + word_of_nat (length (takeWhile (\<lambda>x. x \<noteq> ucast c) xs)) else 0)"
  using strchr_loop_text [OF cstr_text] by (auto simp: strchr_def cstr_def)

lemma ucast_byte [simp]: "(ucast (ucast (x :: u8) :: u32) :: u8) = x"
  by (rule bit_word_eqI) (simp add: bit_simps)

text \<open>A character of the set, or the end of the string.\<close>

lemma strchr_member:
  assumes "cstr m q ds"
  shows "\<exists>r. strchr m q (ucast (x :: u8)) = Some r \<and> (r = 0 \<longleftrightarrow> x \<notin> set ds \<and> x \<noteq> 0)"
  using strchr_spec [OF assms, of "ucast x"] cstr_addr(2) [OF assms] length_takeWhile_le by auto

lemma span_loop_text:
  assumes "cstr m q ds"
  shows "text_at m (p + n) xs \<Longrightarrow> span_loop m want p q n =
    Some (n + word_of_nat (length (takeWhile (\<lambda>x. (x \<in> set ds) = want) xs)))"
proof (induction xs arbitrary: n)
  case (Cons x xs)
  obtain r where "strchr m q (ucast x) = Some r" "r = 0 \<longleftrightarrow> x \<notin> set ds" using strchr_member [OF assms, of x] Cons.prems by auto
  then show ?case using Cons.prems Cons.IH [of "n + 1"] by (subst span_loop.simps) (auto simp flip: add.assoc)
qed (subst span_loop.simps, simp)

lemma strspn_spec: "cstr m p xs \<Longrightarrow> cstr m q ds \<Longrightarrow> strspn m p q = Some (word_of_nat (length (takeWhile (\<lambda>x. x \<in> set ds) xs)))"
  using span_loop_text [of m q ds p 0 xs True] by (simp add: strspn_def cstr_text)

lemma strcspn_spec: "cstr m p xs \<Longrightarrow> cstr m q ds \<Longrightarrow> strcspn m p q = Some (word_of_nat (length (takeWhile (\<lambda>x. x \<notin> set ds) xs)))"
  using span_loop_text [of m q ds p 0 xs False] by (simp add: strcspn_def cstr_text)

lemma strpbrk_spec:
  assumes "cstr m q ds"
  shows "text_at m p xs \<Longrightarrow>
    strpbrk m p q = Some (if set xs \<inter> set ds = {} then 0 else p + word_of_nat (length (takeWhile (\<lambda>x. x \<notin> set ds) xs)))"
proof (induction xs arbitrary: p)
  case (Cons x xs)
  obtain r where "strchr m q (ucast x) = Some r" "r = 0 \<longleftrightarrow> x \<notin> set ds" using strchr_member [OF assms, of x] Cons.prems by auto
  then show ?case using Cons.prems Cons.IH [of "p + 1"] by (subst strpbrk.simps) (auto simp flip: add.assoc)
qed (subst strpbrk.simps, simp)

lemma takeWhile_less: "c \<in> set xs \<Longrightarrow> length (takeWhile (\<lambda>x. x \<noteq> c) xs) < length xs"
  by (induction xs) auto

text \<open>The last occurrence; the terminator is never found, although it belongs to the string.\<close>

lemma strrchr_loop_text:
  "text_at m p xs \<Longrightarrow> strrchr_loop m p c q =
    Some (if c \<in> set xs then p + word_of_nat (length xs - Suc (length (takeWhile (\<lambda>x. x \<noteq> c) (rev xs)))) else q)"
proof (induction xs arbitrary: p q)
  case (Cons x xs)
  have "length (takeWhile (\<lambda>x. x \<noteq> c) (rev xs)) < length xs" if "c \<in> set xs"
    using that takeWhile_less [of c "rev xs"] by simp
  moreover have "takeWhile (\<lambda>x. x \<noteq> c) (rev xs @ [x]) =
    (if c \<in> set xs then takeWhile (\<lambda>x. x \<noteq> c) (rev xs) else rev xs @ takeWhile (\<lambda>x. x \<noteq> c) [x])"
    by (auto simp: takeWhile_append)
  ultimately show ?case using Cons by (subst strrchr_loop.simps) (auto simp: Suc_diff_le of_nat_diff simp flip: add.assoc)
qed (subst strrchr_loop.simps, simp)

subsection \<open>Tokens\<close>

text \<open>The maximal runs of characters outside \<open>D\<close>.\<close>

function tokens :: "u8 set \<Rightarrow> u8 list \<Rightarrow> u8 list list" where
  "tokens D xs = (case dropWhile (\<lambda>x. x \<in> D) xs of [] \<Rightarrow> []
     | y # ys \<Rightarrow> takeWhile (\<lambda>x. x \<notin> D) (y # ys) # tokens D (dropWhile (\<lambda>x. x \<notin> D) ys))"
  by pat_completeness auto
termination
proof (relation "measure (\<lambda>(D, xs). length xs)")
  fix D and xs ys :: "u8 list" and y assume "dropWhile (\<lambda>x. x \<in> D) xs = y # ys"
  then have "length (y # ys) \<le> length xs" by (metis length_dropWhile_le)
  then show "((D, dropWhile (\<lambda>x. x \<notin> D) ys), D, xs) \<in> measure (\<lambda>(D, xs). length xs)"
    using length_dropWhile_le [of "\<lambda>x. x \<notin> D" ys] by simp
qed simp

declare tokens.simps [simp del]

lemma tokens_skip: "tokens D (dropWhile (\<lambda>x. x \<in> D) xs) = tokens D xs"
  by (subst (1 2) tokens.simps) simp

lemma tokens_nil:
  assumes "dropWhile (\<lambda>x. x \<in> D) xs = []"
  shows "tokens D xs = []"
  by (subst tokens.simps) (simp only: assms list.case)

lemma tokens_step:
  assumes "xs = us @ ts @ vs" and "set us \<subseteq> D" and "ts \<noteq> []" and "set ts \<inter> D = {}" and "vs = [] \<or> hd vs \<in> D"
  shows "tokens D xs = ts # tokens D (tl vs)"
proof -
  obtain t ts' where t: "ts = t # ts'" using assms(3) by (cases ts) auto
  have "dropWhile (\<lambda>x. x \<in> D) xs = ts @ vs" using assms t by (auto simp: dropWhile_append2 subset_iff)
  moreover have "takeWhile (\<lambda>x. x \<notin> D) (ts @ vs) = ts"
    using assms(4,5) by (cases vs) (auto simp: takeWhile_append2 disjoint_iff takeWhile_eq_all_conv)
  moreover have "dropWhile (\<lambda>x. x \<notin> D) (ts' @ vs) = vs"
    using assms(4,5) t by (cases vs) (auto simp: dropWhile_append2 disjoint_iff dropWhile_eq_Nil_conv)
  moreover have "tokens D vs = tokens D (tl vs)"
    using assms(5) tokens_skip [of D vs] tokens_skip [of D "tl vs"] by (cases vs) simp_all
  ultimately show ?thesis using t by (subst tokens.simps) simp
qed

lemma skip_delims_text:
  assumes "cstr m q ds"
  shows "text_at m p xs \<Longrightarrow> skip_delims m p q =
    Some (if set xs \<subseteq> set ds then Inl (p + word_of_nat (length xs)) else Inr (p + word_of_nat (length (takeWhile (\<lambda>x. x \<in> set ds) xs))))"
proof (induction xs arbitrary: p)
  case Nil
  then show ?case using strchr_member [OF assms, of 0] by (subst skip_delims.simps) auto
next
  case (Cons x xs)
  obtain r where "strchr m q (ucast x) = Some r" "r = 0 \<longleftrightarrow> x \<notin> set ds" using strchr_member [OF assms, of x] Cons.prems by auto
  then show ?case using Cons.prems Cons.IH [of "p + 1"] by (subst skip_delims.simps) (auto simp flip: add.assoc)
qed

lemma skip_token_text:
  assumes "cstr m q ds"
  shows "text_at m p xs \<Longrightarrow> skip_token m p q = Some (p + word_of_nat (length (takeWhile (\<lambda>x. x \<notin> set ds) xs)))"
proof (induction xs arbitrary: p)
  case Nil
  then show ?case using strchr_member [OF assms, of 0] by (subst skip_token.simps) auto
next
  case (Cons x xs)
  obtain r where "strchr m q (ucast x) = Some r" "r = 0 \<longleftrightarrow> x \<notin> set ds" using strchr_member [OF assms, of x] Cons.prems by auto
  then show ?case using Cons.prems Cons.IH [of "p + 1"] by (subst skip_token.simps) (auto simp flip: add.assoc)
qed

text \<open>One call, on the string \<open>xs\<close> at the current position.\<close>

lemma strtok_r_spec:
  assumes ds: "cstr m q ds" and xs: "cstr m (if s = 0 then save else s) xs"
  defines "p \<equiv> if s = 0 then save else s"
  shows "set xs \<subseteq> set ds \<Longrightarrow> strtok_r m s q save = Some (0, p + word_of_nat (length xs), m)"
    and "\<not> set xs \<subseteq> set ds \<Longrightarrow> \<exists>us ts vs. xs = us @ ts @ vs \<and> set us \<subseteq> set ds \<and> ts \<noteq> [] \<and> set ts \<inter> set ds = {} \<and> (vs = [] \<or> hd vs \<in> set ds)
      \<and> strtok_r m s q save = Some (p + word_of_nat (length us),
          if vs = [] then p + word_of_nat (length xs) else p + word_of_nat (Suc (length (us @ ts))),
          if vs = [] then m else m(p + word_of_nat (length (us @ ts)) := 0))"
proof -
  have nn: "p \<noteq> 0" "q \<noteq> 0" using ds xs by (auto simp: cstr_def p_def)
  have sk: "skip_delims m p q = Some (if set xs \<subseteq> set ds then Inl (p + word_of_nat (length xs))
    else Inr (p + word_of_nat (length (takeWhile (\<lambda>x. x \<in> set ds) xs))))"
    using skip_delims_text [OF ds cstr_text] xs by (simp add: p_def)
  then show "set xs \<subseteq> set ds \<Longrightarrow> strtok_r m s q save = Some (0, p + word_of_nat (length xs), m)"
    using nn by (simp add: strtok_r_def p_def [symmetric] Let_def)
  assume no: "\<not> set xs \<subseteq> set ds"
  define us where "us = takeWhile (\<lambda>x. x \<in> set ds) xs"
  define ys where "ys = dropWhile (\<lambda>x. x \<in> set ds) xs"
  define ts where "ts = takeWhile (\<lambda>x. x \<notin> set ds) ys"
  define vs where "vs = dropWhile (\<lambda>x. x \<notin> set ds) ys"
  have split: "xs = us @ ts @ vs" "ys = ts @ vs" by (simp_all add: us_def ys_def ts_def vs_def)
  have us: "set us \<subseteq> set ds" by (auto simp: us_def dest: set_takeWhileD)
  have "ys \<noteq> []" using no by (auto simp: ys_def dropWhile_eq_Nil_conv)
  then have "hd ys \<notin> set ds" using hd_dropWhile [of "\<lambda>x. x \<in> set ds" xs] by (simp add: ys_def)
  then have ts: "ts \<noteq> []" "set ts \<inter> set ds = {}" using \<open>ys \<noteq> []\<close> by (cases ys; auto simp: ts_def dest: set_takeWhileD)+
  have vs: "vs = [] \<or> hd vs \<in> set ds" using hd_dropWhile [of "\<lambda>x. x \<notin> set ds" ys] by (auto simp: vs_def)
  have "cstr m (p + word_of_nat (length us)) ys" using cstr_suffix [of m p us] xs split by (simp add: p_def)
  then have tk: "skip_token m (p + word_of_nat (length us)) q = Some (p + word_of_nat (length us) + word_of_nat (length ts))"
    using skip_token_text [OF ds cstr_text] by (simp add: ts_def)
  let ?e = "p + word_of_nat (length us) + word_of_nat (length ts)"
  have "cstr m ?e vs" using cstr_suffix [of m "p + word_of_nat (length us)" ts vs] cstr_suffix [of m p us] xs split(1) by (simp add: p_def)
  then have fin: "m ?e = 0 \<longleftrightarrow> vs = []" using cstr_text by (cases vs) fastforce+
  have "strtok_r m s q save = Some (p + word_of_nat (length us), if vs = [] then ?e else ?e + 1, if vs = [] then m else m(?e := 0))"
    using sk tk no nn fin by (simp add: strtok_r_def p_def [symmetric] us_def [symmetric] Let_def)
  moreover have "?e = p + word_of_nat (length (us @ ts))" "?e + 1 = p + word_of_nat (Suc (length (us @ ts)))" by simp_all
  moreover have "vs = [] \<Longrightarrow> length (us @ ts) = length xs" using split(1) by simp
  ultimately have run: "strtok_r m s q save = Some (p + word_of_nat (length us),
          if vs = [] then p + word_of_nat (length xs) else p + word_of_nat (Suc (length (us @ ts))),
          if vs = [] then m else m(p + word_of_nat (length (us @ ts)) := 0))"
    by (cases "vs = []") (simp_all only: if_True if_False simp_thms)
  show "\<exists>us ts vs. xs = us @ ts @ vs \<and> set us \<subseteq> set ds \<and> ts \<noteq> [] \<and> set ts \<inter> set ds = {} \<and> (vs = [] \<or> hd vs \<in> set ds)
      \<and> strtok_r m s q save = Some (p + word_of_nat (length us),
          if vs = [] then p + word_of_nat (length xs) else p + word_of_nat (Suc (length (us @ ts))),
          if vs = [] then m else m(p + word_of_nat (length (us @ ts)) := 0))"
    using run us ts vs split(1) by (intro exI [of _ us] exI [of _ ts] exI [of _ vs] conjI)
qed

text \<open>All tokens, with the loop of the comment on \<open>strtok_r\<close>; \<open>n\<close> bounds the number of calls.\<close>

fun strtok_all :: "nat \<Rightarrow> mem \<Rightarrow> u32 \<Rightarrow> u32 \<Rightarrow> u32 \<Rightarrow> (u32 list \<times> mem) c_res" where
  "strtok_all 0 m s delims save = None"
| "strtok_all (Suc n) m s delims save = do {
     (t, save', m') \<leftarrow> strtok_r m s delims save;
     if t = 0 then Some ([], m') else do { (ts, m'') \<leftarrow> strtok_all n m' 0 delims save'; Some (t # ts, m'') }
   }"

text \<open>The state after a token: it is a string, and the rest follows it.\<close>

lemma strtok_split:
  assumes xs: "cstr m p (us @ ts @ vs)"
  defines "e \<equiv> p + word_of_nat (length (us @ ts))"
  defines "m1 \<equiv> if vs = [] then m else m(e := 0)" and "p1 \<equiv> if vs = [] then e else p + word_of_nat (Suc (length (us @ ts)))"
  shows "cstr m1 (p + word_of_nat (length us)) ts" "cstr m1 p1 (tl vs)" "unat (p + word_of_nat (length us)) = unat p + length us"
    "unat p1 = unat p + length (us @ ts) + (if vs = [] then 0 else 1)" "vs \<noteq> [] \<Longrightarrow> unat e = unat p + length (us @ ts)"
proof -
  have q: "cstr m (p + word_of_nat (length us)) (ts @ vs)" using cstr_suffix [OF xs] .
  have ee: "e = p + word_of_nat (length us) + word_of_nat (length ts)" by (simp add: e_def algebra_simps)
  show "cstr m1 (p + word_of_nat (length us)) ts"
    using q cstr_cut [of m "p + word_of_nat (length us)" ts "hd vs" "tl vs"] by (cases vs) (simp_all add: m1_def ee)
  show u: "unat (p + word_of_nat (length us)) = unat p + length us" "vs \<noteq> [] \<Longrightarrow> unat e = unat p + length (us @ ts)"
    using cstr_addr(1) [OF xs, of "length us"] cstr_addr(1) [OF xs, of "length (us @ ts)"] by (simp_all add: e_def)
  show p1: "unat p1 = unat p + length (us @ ts) + (if vs = [] then 0 else 1)"
    using cstr_addr(1) [OF xs, of "length (us @ ts)"] cstr_addr(1) [OF xs, of "Suc (length (us @ ts))"] by (cases vs) (simp_all add: p1_def e_def)
  have c: "cstr m p1 (tl vs)"
    using cstr_suffix [of m p "us @ ts" vs] cstr_suffix [of m p "us @ ts @ [hd vs]" "tl vs"] xs
    by (cases vs) (simp_all add: p1_def e_def)
  have "unat p + length (us @ ts @ vs) < 2 ^ 32" using xs by (simp add: cstr_def)
  then have "vs \<noteq> [] \<Longrightarrow> \<not> in_block e p1 (Suc (length (tl vs)))"
    using u(2) p1 by (cases vs) (simp_all add: in_block_unat)
  then show "cstr m1 p1 (tl vs)" using c cstr_upd [OF c, of e 0] by (cases vs) (simp_all add: m1_def)
qed

lemma strtok_all_spec:
  assumes "cstr m q ds" and "cstr m (if s = 0 then save else s) xs" and "length xs < n"
    and "\<And>a. in_block a (if s = 0 then save else s) (Suc (length xs)) \<Longrightarrow> \<not> in_block a q (Suc (length ds))"
  shows "\<exists>ps m'. strtok_all n m s q save = Some (ps, m') \<and> list_all2 (cstr m') ps (tokens (set ds) xs)
    \<and> (\<forall>a. \<not> in_block a (if s = 0 then save else s) (length xs) \<longrightarrow> m' a = m a)"
  using assms
proof (induction n arbitrary: m s save xs)
  case (Suc n)
  define p where "p = (if s = 0 then save else s)"
  note pre = Suc.prems [folded p_def]
  have room: "unat p + length xs < 2 ^ 32" using pre(2) by (simp add: cstr_def)
  show ?case
  proof (cases "set xs \<subseteq> set ds")
    case True
    then have "tokens (set ds) xs = []" by (intro tokens_nil) (auto simp: dropWhile_eq_Nil_conv)
    then show ?thesis using strtok_r_spec(1) [OF Suc.prems(1,2) True] by simp
  next
    case False
    obtain us ts vs where x: "xs = us @ ts @ vs" "set us \<subseteq> set ds" "ts \<noteq> []" "set ts \<inter> set ds = {}" "vs = [] \<or> hd vs \<in> set ds"
      and r: "strtok_r m s q save = Some (p + word_of_nat (length us),
          if vs = [] then p + word_of_nat (length xs) else p + word_of_nat (Suc (length (us @ ts))),
          if vs = [] then m else m(p + word_of_nat (length (us @ ts)) := 0))"
      using strtok_r_spec(2) [OF Suc.prems(1,2) False] unfolding p_def by blast
    define e where "e = p + word_of_nat (length (us @ ts))"
    define m1 where "m1 = (if vs = [] then m else m(e := 0))"
    define p1 where "p1 = (if vs = [] then e else p + word_of_nat (Suc (length (us @ ts))))"
    note st = strtok_split [of m p us ts vs, folded e_def, folded m1_def p1_def, OF pre(2) [unfolded x(1)]]
    have nz: "p + word_of_nat (length us) \<noteq> 0" "p1 \<noteq> 0" using st(1,2) by (simp_all add: cstr_def)
    have run: "strtok_r m s q save = Some (p + word_of_nat (length us), p1, m1)" using r x(1) by (simp add: p1_def m1_def e_def)
    have len: "length xs = length us + length ts + length vs" by (simp add: x(1))
    have sub: "in_block a p1 (Suc (length (tl vs))) \<Longrightarrow> in_block a p (Suc (length xs))"
      "in_block a p1 (length (tl vs)) \<Longrightarrow> in_block a p (length xs)" for a
      using room st(4) len by (cases vs; simp add: in_block_unat)+
    have e: "vs \<noteq> [] \<Longrightarrow> in_block e p (length xs)" using room st(5) len by (cases vs) (simp_all add: in_block_unat)
    have ds: "cstr m1 q ds"
    proof (cases "vs = []")
      case False
      then have "\<not> in_block e q (Suc (length ds))" using pre(4) e by (force simp: in_block_def)
      then show ?thesis using cstr_upd [OF pre(1)] False by (simp add: m1_def)
    qed (use pre(1) in \<open>simp add: m1_def\<close>)
    have "length (tl vs) < n" using pre(3) len x(3) by (cases ts) auto
    then obtain ps m' where ps: "strtok_all n m1 0 q p1 = Some (ps, m')" "list_all2 (cstr m') ps (tokens (set ds) (tl vs))"
      "\<forall>a. \<not> in_block a p1 (length (tl vs)) \<longrightarrow> m' a = m1 a"
      using Suc.IH [of m1 0 p1 "tl vs"] ds st(2) pre(4) sub(1) by auto
    have "cstr m' (p + word_of_nat (length us)) ts"
      using cstr_frame [OF st(1), of m'] ps(3) st(3,4) room len by (cases vs) (auto simp: in_block_unat)
    then have "list_all2 (cstr m') ((p + word_of_nat (length us)) # ps) (tokens (set ds) xs)"
      using ps(2) tokens_step [OF x] by simp
    moreover have "m' a = m a" if a: "\<not> in_block a p (length xs)" for a
    proof -
      have "m' a = m1 a" using ps(3) sub(2) a by blast
      also have "m1 a = m a" using a e by (cases "vs = []") (auto simp: m1_def)
      finally show ?thesis .
    qed
    ultimately show ?thesis using run ps(1) nz by (auto simp: p_def)
  qed
qed simp

text \<open>C36. \<open>strtok_r\<close> tokenizes. Called first with the string and then with the null pointer until it answers null, for a string and a
  string of delimiters that do not share memory, it returns after finitely many calls, at most one more than the
  string has characters; the pointers returned are, in order, strings that spell the maximal runs of
  non-delimiters, and memory outside the string is unchanged.\<close>

theorem strtok_r_tokens:
  assumes "cstr m s xs" and "cstr m q ds" and "\<And>a. in_block a s (Suc (length xs)) \<Longrightarrow> \<not> in_block a q (Suc (length ds))"
  shows "\<exists>ps m'. strtok_all (Suc (length xs)) m s q save = Some (ps, m') \<and> list_all2 (cstr m') ps (tokens (set ds) xs)
    \<and> (\<forall>a. \<not> in_block a s (length xs) \<longrightarrow> m' a = m a)"
proof -
  have "s \<noteq> 0" using assms(1) by (simp add: cstr_def)
  then show ?thesis using strtok_all_spec [of m q ds s save xs "Suc (length xs)"] assms by simp
qed

definition mem_d :: mem where
  "mem_d = (\<lambda>_. 0)(100 := 32, 101 := 97, 102 := 32, 103 := 32, 104 := 98, 200 := 32)"

theorem strtok_r_tokens_witness:
  "\<exists>ps m'. strtok_all 6 mem_d 100 200 0 = Some (ps, m') \<and> list_all2 (cstr m') ps [[97], [98]] \<and> m' 200 = 32"
proof -
  have s: "cstr mem_d 100 [32, 97, 32, 32, 98]" "cstr mem_d 200 [32]" by (simp_all add: cstr_def mem_d_def)
  have "\<not> in_block a 200 (Suc (length [32 :: u8]))" if "in_block a 100 (Suc (length [32, 97, 32, 32, 98 :: u8]))" for a
    using that by (simp add: in_block_unat)
  then obtain ps m' where r: "strtok_all (Suc (length [32, 97, 32, 32, 98 :: u8])) mem_d 100 200 0 = Some (ps, m')"
    "list_all2 (cstr m') ps (tokens (set [32]) [32, 97, 32, 32, 98])" "\<forall>a. \<not> in_block a 100 (length [32, 97, 32, 32, 98 :: u8]) \<longrightarrow> m' a = mem_d a"
    using strtok_r_tokens [OF s, of 0] by blast
  have "strtok_all 6 mem_d 100 200 0 = Some (ps, m')" using r(1) by (simp add: numeral_eq_Suc del: strtok_all.simps)
  moreover have "tokens {32} [32, 97, 32, 32, 98] = [[97], [98]]" by (simp add: tokens.simps)
  moreover have "\<not> in_block 200 100 (length [32, 97, 32, 32, 98 :: u8])" "mem_d 200 = 32" by (simp_all add: in_block_unat mem_d_def)
  ultimately show ?thesis using r(2,3) by (intro exI [of _ ps] exI [of _ m']) simp
qed

subsection \<open>Bounded copies\<close>

text \<open>The common step of \<open>strlcpy\<close> and \<open>strlcat\<close>: \<open>k\<close> characters and a terminator are put behind the \<open>ys\<close>.\<close>

lemma put_spec:
  assumes src: "cstr m src xs" and k: "k \<le> length xs" and ys: "block m d (length ys) = ys" "0 \<notin> set ys"
    and d: "d \<noteq> 0" "unat d + length ys + k < 2 ^ 32"
    and dis: "\<And>a. in_block a d (Suc (length ys + k)) \<Longrightarrow> \<not> in_block a src (Suc (length xs))"
  defines "e \<equiv> d + word_of_nat (length ys)"
  defines "m' \<equiv> (copy_up m e src k)(e + word_of_nat k := 0)"
  shows "cstr m' d (ys @ take k xs)" "\<not> in_block a d (Suc (length ys + k)) \<Longrightarrow> m' a = m a"
proof -
  have small: "unat d + (length ys + k) < 2 ^ 32" using d(2) by simp
  have at: "unat (d + word_of_nat i) = unat d + i" if "i \<le> length ys + k" for i
    using that small by (simp add: unat_word_ariths unat_of_nat_le)
  have ek: "e + word_of_nat k = d + word_of_nat (length ys + k)" by (simp add: e_def)
  have e: "unat e = unat d + length ys" using at [of "length ys"] by (simp add: e_def)
  have in_e: "in_block a e k \<longleftrightarrow> unat d + length ys \<le> unat a \<and> unat a < unat d + length ys + k" for a
    using e small by (simp add: in_block_unat)
  have "in_block e d (Suc (length ys + k))" using e small by (simp add: in_block_unat)
  then have "k \<le> unat (e - src)" using dis [of e] k by (simp add: in_block_def)
  then have cp: "copy_up m e src k a = (if in_block a e k then m (src + (a - e)) else m a)" for a
    using small by (intro copy_up_spec) simp_all
  show "m' a = m a" if "\<not> in_block a d (Suc (length ys + k))"
  proof -
    have "unat a < unat d \<or> unat d + length ys + k < unat a" using that small by (auto simp: in_block_unat)
    then have "a \<noteq> e + word_of_nat k" "\<not> in_block a e k" using at [of "length ys + k"] in_e by (auto simp: ek)
    then show ?thesis by (simp add: m'_def cp)
  qed
  have "block m' d (length (ys @ take k xs)) = ys @ take k xs"
  proof (rule nth_equalityI)
    fix i assume "i < length (block m' d (length (ys @ take k xs)))"
    then have i: "i < length ys + k" using k by simp
    then have "unat (d + word_of_nat i) \<noteq> unat (d + word_of_nat (length ys + k))" using at [of i] at [of "length ys + k"] by simp
    then have ne: "d + word_of_nat i \<noteq> e + word_of_nat k" by (auto simp: ek)
    show "block m' d (length (ys @ take k xs)) ! i = (ys @ take k xs) ! i"
    proof (cases "i < length ys")
      case True
      moreover have "m (d + word_of_nat i) = ys ! i" using block_nth [of i "length ys" m d] True ys(1) by simp
      ultimately show ?thesis using i k ne at [of i] by (simp add: block_nth m'_def cp in_e nth_append)
    next
      case False
      then obtain j where j: "i = length ys + j" by (metis le_iff_add not_less)
      then have "d + word_of_nat i - e = word_of_nat j" by (simp add: e_def)
      moreover have "m (src + word_of_nat j) = xs ! j" using i j k by (intro cstr_nth [OF src]) simp
      moreover have "m' (d + word_of_nat i) = m (src + (d + word_of_nat i - e))" using i ne at [of i] False by (simp add: m'_def cp in_e)
      moreover have "i - length ys = j" using j by simp
      ultimately have "m' (d + word_of_nat i) = xs ! (i - length ys)" by (simp only:)
      then show ?thesis using i k False by (simp add: block_nth nth_append)
    qed
  qed (use k in simp)
  moreover have "length (ys @ take k xs) = length ys + k" using k by simp
  then have "m' (d + word_of_nat (length (ys @ take k xs))) = 0" by (simp only: m'_def ek [symmetric] fun_upd_same)
  moreover have "0 \<notin> set (ys @ take k xs)" using ys(2) src by (auto simp: cstr_def dest: in_set_takeD)
  ultimately show "cstr m' d (ys @ take k xs)" unfolding cstr_def block_Suc_end using d small k by simp
qed

lemma word_min: "i < 2 ^ 32 \<Longrightarrow> (if word_of_nat i < (w :: u32) then word_of_nat i else w) = word_of_nat (min i (unat w))"
  by (auto simp: word_less_nat_alt unat_of_nat_le min_def)

lemma bounded_put:
  assumes src: "cstr m src xs" and ys: "block m d (length ys) = ys" "0 \<notin> set ys" and d: "d \<noteq> 0" "length ys < N" "unat d + N \<le> 2 ^ 32"
    and dis: "\<And>a. in_block a d N \<Longrightarrow> \<not> in_block a src (Suc (length xs))"
  defines "k \<equiv> min (length xs) (N - length ys - 1)" and "e \<equiv> d + word_of_nat (length ys)"
  defines "m' \<equiv> (copy_up m e src k)(e + word_of_nat k := 0)"
  shows "cstr m' d (take (N - 1) (ys @ xs)) \<and> (\<forall>a. \<not> in_block a d N \<longrightarrow> m' a = m a)"
proof -
  have k: "k \<le> length xs" "length ys + k < N" using d(2) by (auto simp: k_def)
  then have sub: "in_block a d (Suc (length ys + k)) \<Longrightarrow> in_block a d N" for a by (simp add: in_block_def)
  have "unat d + length ys + k < 2 ^ 32" using k(2) d(3) by linarith
  note put = put_spec [OF src k(1) ys d(1) this dis [OF sub], folded e_def, folded m'_def]
  have "take (N - 1) (ys @ xs) = ys @ take (N - length ys - 1) xs" using d(2) by simp
  also have "take (N - length ys - 1) xs = take k xs" by (simp add: k_def min_def)
  finally show ?thesis using put sub by metis
qed

text \<open>C39. The bounded copies never write outside the buffer and never leave it without a terminator. For a buffer of \<open>n > 0\<close> bytes
  that does not share memory with the source, \<open>strlcpy\<close> leaves in it the first \<open>n - 1\<close> characters of the source, and
  \<open>strlcat\<close>, when the buffer holds a string that fits, the first \<open>n - 1\<close> characters of the concatenation; both return
  the length of the untruncated result, so that truncation can be detected, and no other byte changes.\<close>

theorem strlcpy_strlcat_bounded:
  fixes n :: u32
  assumes src: "cstr m src xs" and n: "n \<noteq> 0" "dst \<noteq> 0" "unat dst + unat n \<le> 2 ^ 32"
    and dis: "\<And>a. in_block a dst (unat n) \<Longrightarrow> \<not> in_block a src (Suc (length xs))"
  shows "(\<exists>m'. strlcpy m dst src n = Some (word_of_nat (length xs), m') \<and> cstr m' dst (take (unat n - 1) xs)
      \<and> (\<forall>a. \<not> in_block a dst (unat n) \<longrightarrow> m' a = m a))
    \<and> (cstr m dst ds \<and> length ds < unat n \<longrightarrow>
      (\<exists>m'. strlcat m dst src n = Some (word_of_nat (length xs) + word_of_nat (length ds), m')
        \<and> cstr m' dst (take (unat n - 1) (ds @ xs)) \<and> (\<forall>a. \<not> in_block a dst (unat n) \<longrightarrow> m' a = m a)))"
proof (intro conjI impI)
  have len: "length xs < 2 ^ 32" "src \<noteq> 0" and pos: "0 < unat n" using src n by (auto simp: cstr_def unat_gt_0)
  have big: "unat n < 2 ^ 32" using unsigned_less [of n, where 'a = nat] by simp
  have cnt: "min (length xs) j < 2 ^ 32" for j using len(1) by linarith
  let ?k = "min (length xs) (unat n - 1)"
  have "unat (n - 1) = unat n - 1" by (rule unat_pred [OF n(1)])
  then have "strlcpy m dst src n = Some (word_of_nat (length xs), (copy_up m dst src ?k)(dst + word_of_nat ?k := 0))"
    using strlen_spec [OF src] n len word_min [OF len(1), of "n - 1"] unat_of_nat_le [OF cnt]
    by (simp add: strlcpy_def memcpy_def Let_def word_gt_0)
  then show "\<exists>m'. strlcpy m dst src n = Some (word_of_nat (length xs), m') \<and> cstr m' dst (take (unat n - 1) xs)
      \<and> (\<forall>a. \<not> in_block a dst (unat n) \<longrightarrow> m' a = m a)"
    using bounded_put [OF src, of dst "[]" "unat n"] n dis pos by simp
  assume ds: "cstr m dst ds \<and> length ds < unat n"
  let ?k = "min (length xs) (unat n - length ds - 1)"
  have dl: "unat (word_of_nat (length ds) :: u32) = length ds" using ds big by (intro unat_of_nat_le) linarith
  then have lt: "(word_of_nat (length ds) :: u32) < n" using ds by (simp add: word_less_nat_alt)
  then have "unat (n - word_of_nat (length ds)) = unat n - length ds" using dl by (simp add: unat_sub less_imp_le)
  moreover have "n - word_of_nat (length ds) \<noteq> 0" using lt by auto
  ultimately have "unat (n - word_of_nat (length ds) - 1) = unat n - length ds - 1" by (metis unat_pred)
  then have "strlcat m dst src n = Some (word_of_nat (length xs) + word_of_nat (length ds),
      (copy_up m (dst + word_of_nat (length ds)) src ?k)(dst + word_of_nat (length ds) + word_of_nat ?k := 0))"
    using strlen_spec [OF src] ds strlen_spec [of m dst ds] n len word_min [OF len(1), of "n - word_of_nat (length ds) - 1"] lt
      cstr_addr(2) [of m dst ds "length ds"] unat_of_nat_le [OF cnt]
    by (simp add: strlcat_def memcpy_def Let_def word_gt_0)
  moreover have "block m dst (length ds) = ds" "0 \<notin> set ds" using ds by (auto simp: cstr_def block_Suc_end simp del: block.simps)
  ultimately show "\<exists>m'. strlcat m dst src n = Some (word_of_nat (length xs) + word_of_nat (length ds), m')
        \<and> cstr m' dst (take (unat n - 1) (ds @ xs)) \<and> (\<forall>a. \<not> in_block a dst (unat n) \<longrightarrow> m' a = m a)"
    using bounded_put [OF src, of dst ds "unat n"] n dis ds by simp
qed

theorem strlcpy_strlcat_bounded_witness:
  "\<exists>m' m''. strlcpy mem_d 200 100 4 = Some (5, m') \<and> cstr m' 200 [32, 97, 32]
    \<and> strlcat mem_d 200 100 4 = Some (6, m'') \<and> cstr m'' 200 [32, 32, 97] \<and> m'' 204 = 0"
proof -
  have s: "cstr mem_d 100 [32, 97, 32, 32, 98]" "cstr mem_d 200 [32]" by (simp_all add: cstr_def mem_d_def)
  have "\<not> in_block a 100 (Suc (length [32, 97, 32, 32, 98 :: u8]))" if "in_block a 200 (unat (4 :: u32))" for a
    using that by (simp add: in_block_unat)
  note r = strlcpy_strlcat_bounded [OF s(1), of 4 200 "[32]", OF _ _ _ this]
  have "\<not> in_block 204 200 4" "mem_d 204 = 0" by (simp_all add: in_block_unat mem_d_def)
  then show ?thesis using r s(2) by fastforce
qed

subsection \<open>Comparing and searching\<close>

text \<open>The order of byte strings: by the first byte that differs.\<close>

fun bytes_cmp :: "u8 list \<Rightarrow> u8 list \<Rightarrow> int" where
  "bytes_cmp (x # xs) (y # ys) = (if x < y then -1 else if y < x then 1 else bytes_cmp xs ys)"
| "bytes_cmp [] [] = 0"
| "bytes_cmp [] (y # ys) = -1"
| "bytes_cmp (x # xs) [] = 1"

lemma bytes_cmp_eq: "bytes_cmp xs ys = 0 \<longleftrightarrow> xs = ys"
  by (induction xs ys rule: bytes_cmp.induct) auto

lemma bytes_cmp_swap: "bytes_cmp ys xs = - bytes_cmp xs ys"
  by (induction xs ys rule: bytes_cmp.induct) auto

lemma bytes_cmp_trans: "bytes_cmp xs ys \<le> 0 \<Longrightarrow> bytes_cmp ys zs \<le> 0 \<Longrightarrow> bytes_cmp xs zs \<le> 0"
proof (induction xs ys arbitrary: zs rule: bytes_cmp.induct)
  case (1 x xs y ys)
  then show ?case by (cases zs) (auto split: if_splits)
next
  case (3 y ys)
  then show ?case by (cases zs) auto
qed auto

lemma compare_bytes_block: "compare_bytes m a b n = bytes_cmp (block m a n) (block m b n)"
  by (induction n arbitrary: a b) auto

lemma memcmp_spec: "n = 0 \<or> a \<noteq> 0 \<and> b \<noteq> 0 \<Longrightarrow> memcmp m a b n = Some (bytes_cmp (block m a (unat n)) (block m b (unat n)))"
  by (auto simp: memcmp_def compare_bytes_block)

lemma strcmp_loop_text: "text_at m a xs \<Longrightarrow> text_at m b ys \<Longrightarrow> strcmp_loop m a b = Some (bytes_cmp xs ys)"
proof (induction xs ys arbitrary: a b rule: bytes_cmp.induct)
  case (1 x xs y ys)
  then show ?case by (subst strcmp_loop.simps) (cases "x = y"; auto)
qed (subst strcmp_loop.simps, auto simp: word_gt_0)+

lemma strcmp_spec: "cstr m a xs \<Longrightarrow> cstr m b ys \<Longrightarrow> strcmp m a b = Some (bytes_cmp xs ys)"
  using strcmp_loop_text [OF cstr_text cstr_text] by (auto simp: strcmp_def cstr_def)

lemma set_bytes_spec: "n \<le> 2 ^ 32 - 1 \<Longrightarrow> set_bytes m p v n a = (if in_block a p n then v else m a)"
proof (induction n arbitrary: m p)
  case (Suc n)
  have IH: "set_bytes (m(p := v)) (p + 1) v n a = (if unat (a - p - 1) < n then v else (m(p := v)) a)"
    using Suc by (simp add: in_block_def diff_diff_eq)
  show ?case
  proof (cases "a = p")
    case False
    then have "unat (a - p - 1) < n \<longleftrightarrow> unat (a - p) < Suc n" using unat_pred [of "a - p"] unat_gt_0 [of "a - p"] by auto
    then show ?thesis using IH False by (simp add: in_block_def)
  qed (use IH in \<open>simp add: in_block_def\<close>)
qed (simp add: in_block_def)

lemma find_byte_spec:
  "find_byte m p c n = (if c \<in> set (block m p n) then p + word_of_nat (length (takeWhile (\<lambda>x. x \<noteq> c) (block m p n))) else 0)"
  by (induction n arbitrary: p) (auto simp flip: add.assoc)

lemma strnlen_loop_text:
  "text_at m (s + n) xs \<Longrightarrow> n \<le> maxlen \<Longrightarrow>
    strnlen_loop m s maxlen n = Some (n + word_of_nat (min (length xs) (unat (maxlen - n))))"
proof (induction xs arbitrary: n)
  case (Cons x xs)
  show ?case
  proof (cases "n < maxlen")
    case True
    then have d: "maxlen - n \<noteq> 0" "n + 1 \<le> maxlen" by (auto simp: inc_le)
    then have "unat (maxlen - (n + 1)) = unat (maxlen - n) - 1" using unat_pred [of "maxlen - n"] by (simp add: diff_diff_eq)
    moreover have "0 < unat (maxlen - n)" using d(1) by (simp add: unat_gt_0)
    ultimately have "min (length (x # xs)) (unat (maxlen - n)) = Suc (min (length xs) (unat (maxlen - (n + 1))))" by simp
    then show ?thesis using True Cons.prems Cons.IH [of "n + 1"] d(2) by (subst strnlen_loop.simps) (simp flip: add.assoc)
  qed (use Cons.prems in \<open>subst strnlen_loop.simps, simp\<close>)
qed (subst strnlen_loop.simps, simp)

lemma strnlen_spec: "cstr m s xs \<Longrightarrow> strnlen m s n = Some (word_of_nat (min (length xs) (unat n)))"
  using strnlen_loop_text [of m s 0 xs n] by (simp add: strnlen_def cstr_text)

text \<open>The first position at which \<open>ys\<close> occurs.\<close>

definition first_match :: "u8 list \<Rightarrow> u8 list \<Rightarrow> nat option" where
  "first_match ys xs = find (\<lambda>i. prefix ys (drop i xs)) [0..<Suc (length xs)]"

lemma find_app: "find P (xs @ ys) = (case find P xs of None \<Rightarrow> find P ys | Some x \<Rightarrow> Some x)"
  by (induction xs) auto

lemma block_prefix:
  assumes "cstr m p xs" and "i + n \<le> length xs"
  shows "block m (p + word_of_nat i) n = take n (drop i xs)"
proof (rule nth_equalityI)
  show "length (block m (p + word_of_nat i) n) = length (take n (drop i xs))" using assms(2) by simp
  fix j assume "j < length (block m (p + word_of_nat i) n)"
  then have j: "j < n" by simp
  then have "m (p + word_of_nat (i + j)) = xs ! (i + j)" using assms by (intro cstr_nth) simp_all
  then show "block m (p + word_of_nat i) n ! j = take n (drop i xs) ! j" using j assms(2) by (simp add: block_nth add.assoc)
qed

lemma strstr_loop_spec:
  assumes h: "cstr m p xs" and q: "cstr m q ys" and le: "length ys \<le> length xs"
  shows "i + k = Suc (length xs - length ys) \<Longrightarrow> strstr_loop m p q (word_of_nat (length ys)) (word_of_nat i) k =
    Some (case find (\<lambda>i. prefix ys (drop i xs)) [i..<i + k] of None \<Rightarrow> 0 | Some j \<Rightarrow> p + word_of_nat j)"
proof (induction k arbitrary: i)
  case (Suc k)
  have i: "i \<le> length xs" "i + length ys \<le> length xs" using Suc.prems le by auto
  have "unat (word_of_nat (length ys) :: u32) = length ys" using q by (intro unat_of_nat_le) (simp add: cstr_def)
  moreover have "block m q (length ys) = ys" using block_prefix [OF q, of 0 "length ys"] by simp
  moreover have "p + word_of_nat i \<noteq> 0" "q \<noteq> 0" using cstr_addr(2) [OF h i(1)] q by (simp_all add: cstr_def)
  ultimately have "memcmp m (p + word_of_nat i) q (word_of_nat (length ys)) = Some (bytes_cmp (take (length ys) (drop i xs)) ys)"
    using block_prefix [OF h i(2)] by (simp add: memcmp_spec)
  moreover have "bytes_cmp (take (length ys) (drop i xs)) ys = 0 \<longleftrightarrow> prefix ys (drop i xs)"
    unfolding bytes_cmp_eq by (metis append_eq_conv_conj append_take_drop_id prefix_def)
  moreover have "[i..<i + Suc k] = i # [Suc i..<Suc i + k]" by (simp add: upt_rec)
  moreover have "(word_of_nat i :: u32) + 1 = word_of_nat (Suc i)" by simp
  ultimately show ?case using Suc.IH [of "Suc i"] Suc.prems by (simp del: upt_Suc of_nat_Suc)
qed simp

lemma strstr_spec:
  assumes h: "cstr m p xs" and q: "cstr m q ys"
  shows "strstr m p q = Some (case first_match ys xs of None \<Rightarrow> 0 | Some i \<Rightarrow> p + word_of_nat i)"
proof -
  have len: "length xs < 2 ^ 32" "length ys < 2 ^ 32" using h q by (simp_all add: cstr_def)
  note u = unat_of_nat_le [OF len(1)] unat_of_nat_le [OF len(2)]
  have none: "find (\<lambda>i. prefix ys (drop i xs)) [j..<Suc (length xs)] = None" if "length xs < j + length ys" for j
    using that by (auto simp: find_None_iff dest: prefix_length_le)
  show ?thesis
  proof (cases "length ys \<le> length xs")
    case True
    let ?k = "Suc (length xs - length ys)"
    have "unat (word_of_nat (length xs) - word_of_nat (length ys) :: u32) = length xs - length ys"
      using u True by (simp add: unat_sub word_le_nat_alt)
    moreover have "find (\<lambda>i. prefix ys (drop i xs)) [0..<Suc (length xs)] = find (\<lambda>i. prefix ys (drop i xs)) [0..<?k]"
    proof -
      have "[0..<Suc (length xs)] = [0..<?k] @ [?k..<Suc (length xs)]" using True upt_add_eq_append [of 0 ?k "length ys"] by simp
      moreover have "find (\<lambda>i. prefix ys (drop i xs)) [?k..<Suc (length xs)] = None" using True by (intro none) simp
      ultimately show ?thesis by (simp only: find_app) (simp split: option.split del: upt_Suc)
    qed
    ultimately show ?thesis using strlen_spec [OF h] strlen_spec [OF q] u True strstr_loop_spec [OF h q True, of 0 ?k]
      by (simp add: strstr_def first_match_def word_le_nat_alt del: upt_Suc strstr_loop.simps)
  next
    case False
    then show ?thesis using strlen_spec [OF h] strlen_spec [OF q] u none [of 0] by (simp add: strstr_def first_match_def word_le_nat_alt)
  qed
qed

end
