(* ===== verification/Stdlib.thy ===== *)
theory Stdlib
  imports CString "HOL-Library.Multiset"
begin

text \<open>
  \<^verbatim>\<open>lib/stdlib.c\<close>: \<open>atoi\<close> on a string in memory, and sorting and searching of arrays. An array is the list of its bytes, and its
  elements are blocks of \<open>size\<close> bytes; the comparison function is a parameter on elements. Element and byte
  indices are natural numbers, as an array lies within the address space. A division by zero, an access outside
  the array and signed overflow are \<open>None\<close>.

  The locale \<open>comparison\<close> is what the comments demand of the comparison function.
\<close>

subsection \<open>atoi\<close>

definition isspace :: "int \<Rightarrow> bool" where
  "isspace c \<longleftrightarrow> c = 32 \<or> c = 12 \<or> c = 10 \<or> c = 13 \<or> c = 9 \<or> c = 11"

definition isdigit :: "int \<Rightarrow> bool" where
  "isdigit c \<longleftrightarrow> c \<ge> 48 \<and> c \<le> 57"

text \<open>The value of a signed operation.\<close>

definition int_res :: "int \<Rightarrow> int c_res" where
  "int_res v = (if - (2 ^ 31) \<le> v \<and> v < 2 ^ 31 then Some v else None)"

partial_function (option) skip_space :: "mem \<Rightarrow> u32 \<Rightarrow> u32 option" where
  [code]: "skip_space m s = (if isspace (uint (m s)) then skip_space m (s + 1) else Some s)"

text \<open>The digits are subtracted, because the negative range is larger; a \<open>char\<close> is signed.\<close>

partial_function (option) atoi_digits :: "mem \<Rightarrow> u32 \<Rightarrow> int \<Rightarrow> int option" where
  [code]: "atoi_digits m s v =
     (if isdigit (sint (m s)) then do {
        v10 \<leftarrow> int_res (v * 10);
        v' \<leftarrow> int_res (v10 - (sint (m s) - 48));
        atoi_digits m (s + 1) v'
      } else Some v)"

definition atoi :: "mem \<Rightarrow> u32 \<Rightarrow> int c_res" where
  "atoi m s0 =
     (if s0 = 0 then None
      else do {
        s \<leftarrow> skip_space m s0;
        let (negative, s) = (if m s = 43 then (False, s + 1) else if m s = 45 then (True, s + 1) else (False, s));
        v \<leftarrow> atoi_digits m s 0;
        if \<not> negative then int_res (- v) else Some v
      })"

subsection \<open>Heap sort\<close>

type_synonym compare_func = "u8 list \<Rightarrow> u8 list \<Rightarrow> int"

text \<open>The element with 1-based index \<open>i\<close>.\<close>

definition elem :: "u8 list \<Rightarrow> nat \<Rightarrow> nat \<Rightarrow> u8 list" where
  "elem arr sz i = take sz (drop ((i - 1) * sz) arr)"

definition in_array :: "u8 list \<Rightarrow> nat \<Rightarrow> nat \<Rightarrow> bool" where
  "in_array arr sz i \<longleftrightarrow> 0 < i \<and> i * sz \<le> length arr"

fun swap_bytes :: "u8 list \<Rightarrow> nat \<Rightarrow> nat \<Rightarrow> nat \<Rightarrow> u8 list" where
  "swap_bytes arr a b 0 = arr"
| "swap_bytes arr a b (Suc n) = (let t = arr ! a in swap_bytes (arr[a := arr ! b, b := t]) (a + 1) (b + 1) n)"

definition do_swap :: "u8 list \<Rightarrow> nat \<Rightarrow> nat \<Rightarrow> nat \<Rightarrow> u8 list c_res" where
  "do_swap arr a_idx b_idx sz =
     (if in_array arr sz a_idx \<and> in_array arr sz b_idx
      then Some (swap_bytes arr ((a_idx - 1) * sz) ((b_idx - 1) * sz) sz) else None)"

definition do_compare :: "u8 list \<Rightarrow> nat \<Rightarrow> nat \<Rightarrow> nat \<Rightarrow> compare_func \<Rightarrow> int c_res" where
  "do_compare arr a_idx b_idx sz cmp =
     (if in_array arr sz a_idx \<and> in_array arr sz b_idx then Some (cmp (elem arr sz a_idx) (elem arr sz b_idx)) else None)"

text \<open>The index of the largest element among \<open>i\<close> and its children.\<close>

definition heap_max :: "u8 list \<Rightarrow> nat \<Rightarrow> nat \<Rightarrow> nat \<Rightarrow> compare_func \<Rightarrow> nat c_res" where
  "heap_max arr i cnt sz cmp = do {
     let left = 2 * i;
     let right = 2 * i + 1;
     let max = i;
     max \<leftarrow> (if left \<le> cnt then do { c \<leftarrow> do_compare arr left max sz cmp; Some (if c > 0 then left else max) } else Some max);
     (if right \<le> cnt then do { c \<leftarrow> do_compare arr right max sz cmp; Some (if c > 0 then right else max) } else Some max)
   }"

lemma heap_max_range: "heap_max arr i cnt sz cmp = Some k \<Longrightarrow> k = i \<or> (k = 2 * i \<or> k = 2 * i + 1) \<and> k \<le> cnt"
  by (auto simp: heap_max_def Let_def bind_eq_Some_conv split: if_splits)

function heapify :: "u8 list \<Rightarrow> nat \<Rightarrow> nat \<Rightarrow> nat \<Rightarrow> compare_func \<Rightarrow> u8 list c_res" where
  "heapify arr i cnt sz cmp = do {
     max \<leftarrow> heap_max arr i cnt sz cmp;
     if max = i then Some arr
     else do { arr' \<leftarrow> do_swap arr i max sz; heapify arr' max cnt sz cmp }
   }"
  by pat_completeness auto
termination
  by (relation "measure (\<lambda>(arr, i, cnt, sz, cmp). cnt - i)") (auto dest!: heap_max_range)

declare heapify.simps [simp del]

text \<open>The two loops of \<open>sort\<close>, with the loop variable counting down.\<close>

fun build_heap :: "u8 list \<Rightarrow> nat \<Rightarrow> nat \<Rightarrow> nat \<Rightarrow> compare_func \<Rightarrow> u8 list c_res" where
  "build_heap arr 0 cnt sz cmp = Some arr"
| "build_heap arr (Suc i) cnt sz cmp = do { arr' \<leftarrow> heapify arr (Suc i) cnt sz cmp; build_heap arr' i cnt sz cmp }"

fun sort_heap :: "u8 list \<Rightarrow> nat \<Rightarrow> nat \<Rightarrow> compare_func \<Rightarrow> u8 list c_res" where
  "sort_heap arr 0 sz cmp = Some arr"
| "sort_heap arr (Suc i) sz cmp =
     (if Suc i > 1 then do {
        arr1 \<leftarrow> do_swap arr 1 (Suc i) sz;
        arr2 \<leftarrow> heapify arr1 1 i sz cmp;
        sort_heap arr2 i sz cmp
      } else Some arr)"

definition sort_c :: "u8 list \<Rightarrow> nat \<Rightarrow> nat \<Rightarrow> compare_func \<Rightarrow> u8 list c_res" where
  "sort_c arr cnt sz cmp =
     (if sz > 0 then do { arr' \<leftarrow> build_heap arr (cnt div 2) cnt sz cmp; sort_heap arr' cnt sz cmp } else None)"

definition compare_thunk :: "compare_func \<Rightarrow> compare_func" where
  "compare_thunk aux a b = aux a b"

definition qsort :: "u8 list \<Rightarrow> nat \<Rightarrow> nat \<Rightarrow> compare_func \<Rightarrow> u8 list c_res" where
  "qsort arr cnt sz compare = sort_c arr cnt sz (compare_thunk compare)"

subsection \<open>Binary search\<close>

text \<open>\<open>first\<close> and \<open>end_p\<close> are byte offsets; the result is the offset of an element, or \<open>None\<close> for the null pointer.\<close>

function search_loop :: "u8 list \<Rightarrow> u8 list \<Rightarrow> nat \<Rightarrow> nat \<Rightarrow> nat \<Rightarrow> compare_func \<Rightarrow> nat option c_res" where
  "search_loop key arr first end_p sz cmp =
     (if first < end_p then
        if sz = 0 then None
        else (let range = (end_p - first) div sz; middle = first + (range div 2) * sz in
          if middle + sz > length arr then None
          else (let c = cmp key (take sz (drop middle arr)) in
            if c < 0 then search_loop key arr first middle sz cmp
            else if c > 0 then search_loop key arr (middle + sz) end_p sz cmp
            else Some (Some middle)))
      else Some None)"
  by pat_completeness auto
termination
proof (relation "measure (\<lambda>(key, arr, first, end_p, sz, cmp). end_p - first)", goal_cases)
  case (2 key arr first end_p sz cmp range middle c)
  have "range div 2 * sz < end_p - first"
  proof (cases "range = 0")
    case False
    then have "range div 2 * sz < range * sz" using 2(2) by simp
    also have "\<dots> \<le> end_p - first" using 2(3) by simp
    finally show ?thesis .
  qed (use 2(1) in simp)
  then show ?case using 2(1,4) by simp
qed auto

declare search_loop.simps [simp del]

definition binary_search :: "u8 list \<Rightarrow> u8 list \<Rightarrow> nat \<Rightarrow> nat \<Rightarrow> compare_func \<Rightarrow> nat option c_res" where
  "binary_search key arr cnt sz cmp = search_loop key arr 0 (sz * cnt) sz cmp"

definition bsearch :: "u8 list \<Rightarrow> u8 list \<Rightarrow> nat \<Rightarrow> nat \<Rightarrow> compare_func \<Rightarrow> nat option c_res" where
  "bsearch key arr cnt sz compare = binary_search key arr cnt sz (compare_thunk compare)"

subsection \<open>Decimal strings\<close>

text \<open>The value of a string of digits.\<close>

definition decimal :: "u8 list \<Rightarrow> int" where
  "decimal ds = foldl (\<lambda>v d. v * 10 + (uint d - 48)) 0 ds"

definition digit :: "u8 \<Rightarrow> bool" where
  "digit x \<longleftrightarrow> 48 \<le> x \<and> x \<le> 57"

lemma digit_signed: "isdigit (sint x) \<longleftrightarrow> digit x" "digit x \<Longrightarrow> sint x = uint x"
proof -
  have u: "0 \<le> uint x" "uint x < 256" using uint_lt2p [of x] by simp_all
  have s: "sint x = (if uint x < 128 then uint x else uint x - 256)"
  proof -
    have "(uint x + 128) mod 256 = uint x - 128" if "128 \<le> uint x"
      using mod_add_self2 [of "uint x - 128" 256] mod_pos_pos_trivial [of "uint x - 128" 256] that u by (simp add: add.commute)
    then show ?thesis using u
      by (simp add: sint_uint signed_take_bit_eq_take_bit_shift take_bit_eq_mod mod_pos_pos_trivial)
  qed
  show "isdigit (sint x) \<longleftrightarrow> digit x" "digit x \<Longrightarrow> sint x = uint x"
    using s u by (auto simp: isdigit_def digit_def word_le_def)
qed

lemma digits_decrease:
  "list_all digit ds \<Longrightarrow> v \<le> 0 \<Longrightarrow> foldl (\<lambda>v d. v * 10 - (uint d - 48)) v ds \<le> v"
proof (induction ds arbitrary: v)
  case (Cons d ds)
  have "48 \<le> uint d" using Cons.prems(1) by (simp add: digit_def word_le_def)
  then have "foldl (\<lambda>v d. v * 10 - (uint d - 48)) (v * 10 - (uint d - 48)) ds \<le> v * 10 - (uint d - 48)"
    using Cons by (intro Cons.IH) simp_all
  then show ?case using \<open>48 \<le> uint d\<close> Cons.prems(2) by simp
qed simp

lemma atoi_digits_text:
  assumes "text_at m s (ds @ rest)" and "list_all digit ds" and "rest = [] \<or> \<not> digit (hd rest)" and "v \<le> 0"
    and "- (2 ^ 31) \<le> foldl (\<lambda>v d. v * 10 - (uint d - 48)) v ds"
  shows "atoi_digits m s v = Some (foldl (\<lambda>v d. v * 10 - (uint d - 48)) v ds)"
  using assms
proof (induction ds arbitrary: s v)
  case Nil
  have "\<not> digit (m s)" using Nil.prems(1,3) by (cases rest) (auto simp: digit_def word_le_def)
  then show ?case by (subst atoi_digits.simps) (simp add: digit_signed)
next
  case (Cons d ds)
  have d: "m s = d" "digit d" "48 \<le> uint d" using Cons.prems(1,2) by (simp_all add: digit_def word_le_def)
  let ?v = "v * 10 - (uint d - 48)"
  have "foldl (\<lambda>v d. v * 10 - (uint d - 48)) ?v ds \<le> ?v" using digits_decrease [of ds ?v] Cons.prems(2,4) d(3) by simp
  then have "int_res (v * 10) = Some (v * 10)" "int_res ?v = Some ?v"
    using Cons.prems(4,5) d(3) by (simp_all add: int_res_def)
  moreover have "atoi_digits m (s + 1) ?v = Some (foldl (\<lambda>v d. v * 10 - (uint d - 48)) ?v ds)"
    using Cons.prems d(3) by (intro Cons.IH) simp_all
  moreover have "isdigit (sint d)" "sint d = uint d" using digit_signed [of d] d(2) by simp_all
  ultimately show ?case using d(1) by (subst atoi_digits.simps) simp
qed

lemma skip_space_text:
  "text_at m s (ws @ xs) \<Longrightarrow> list_all (\<lambda>x. isspace (uint x)) ws \<Longrightarrow> xs = [] \<or> \<not> isspace (uint (hd xs)) \<Longrightarrow>
    skip_space m s = Some (s + word_of_nat (length ws))"
proof (induction ws arbitrary: s)
  case Nil
  then show ?case by (cases xs) (subst skip_space.simps, simp add: isspace_def)+
next
  case (Cons w ws)
  then show ?case by (subst skip_space.simps) (auto simp flip: add.assoc)
qed

lemma decimal_neg: "foldl (\<lambda>v d. v * 10 - (uint d - 48)) (- v) ds = - foldl (\<lambda>v d. v * 10 + (uint d - 48)) v ds"
proof (induction ds arbitrary: v)
  case (Cons d ds)
  have "(- v) * 10 - (uint d - 48) = - (v * 10 + (uint d - 48))" by simp
  then show ?case using Cons by (simp only: foldl.simps)
qed simp

text \<open>\<open>atoi\<close> reads every number that an \<open>int\<close> can hold, the smallest included, after white space and an optional sign.\<close>

lemma atoi_spec:
  assumes s: "cstr m s (ws @ sg @ ds @ rest)" and ws: "list_all (\<lambda>x. isspace (uint x)) ws" and sg: "sg \<in> {[], [43], [45]}"
    and ds: "ds \<noteq> []" "list_all digit ds" and rest: "rest = [] \<or> \<not> digit (hd rest)"
    and range: "(if sg = [45] then - decimal ds else decimal ds) \<in> {- (2 ^ 31)..<2 ^ 31}"
  shows "atoi m s = Some (if sg = [45] then - decimal ds else decimal ds)"
proof -
  let ?p = "s + word_of_nat (length ws)"
  obtain d ds' where d: "ds = d # ds'" "digit d" using ds by (cases ds) auto
  have nd: "d \<noteq> 43" "d \<noteq> 45" "\<not> isspace (uint d)" using d(2) by (auto simp: digit_def word_le_def isspace_def)
  have t: "text_at m s (ws @ sg @ ds @ rest)" by (rule cstr_text [OF s])
  have "skip_space m s = Some ?p" by (rule skip_space_text [OF t ws]) (use sg nd d(1) in \<open>auto simp: isspace_def\<close>)
  moreover have tp: "text_at m ?p (sg @ ds @ rest)" by (rule text_at_append [OF t])
  moreover have "s \<noteq> 0" using s by (simp add: cstr_def)
  moreover have neg: "foldl (\<lambda>v d. v * 10 - (uint d - 48)) 0 ds = - decimal ds" using decimal_neg [of 0 ds] by (simp add: decimal_def)
  have dig: "atoi_digits m q 0 = Some (- decimal ds)" if "text_at m q (ds @ rest)" for q
    using atoi_digits_text [OF that ds(2) rest, of 0] range digits_decrease [OF ds(2), of 0] unfolding neg by (auto split: if_splits)
  moreover have "digit x \<Longrightarrow> x \<noteq> 0" for x by (auto simp: digit_def word_le_def)
  ultimately show ?thesis using sg d nd range dig [of "?p + 1"] dig [of ?p] tp
    by (auto simp: atoi_def int_res_def)
qed

subsection \<open>Swapping elements\<close>

lemma length_swap_bytes [simp]: "length (swap_bytes arr a b n) = length arr"
  by (induction n arbitrary: arr a b) (simp_all add: Let_def)

lemma swap_bytes_nth:
  assumes "a + n \<le> length arr" and "b + n \<le> length arr" and "a + n \<le> b \<or> b + n \<le> a \<or> a = b" and "j < length arr"
  shows "swap_bytes arr a b n ! j =
    (if a \<le> j \<and> j < a + n then arr ! (b + (j - a)) else if b \<le> j \<and> j < b + n then arr ! (a + (j - b)) else arr ! j)"
  using assms
proof (induction n arbitrary: arr a b)
  case (Suc n)
  let ?arr = "arr[a := arr ! b, b := arr ! a]"
  have IH: "swap_bytes ?arr (a + 1) (b + 1) n ! j =
    (if a + 1 \<le> j \<and> j < a + 1 + n then ?arr ! (b + 1 + (j - (a + 1)))
     else if b + 1 \<le> j \<and> j < b + 1 + n then ?arr ! (a + 1 + (j - (b + 1))) else ?arr ! j)"
    by (rule Suc.IH) (use Suc.prems in auto)
  have ab: "a < length arr" "b < length arr" using Suc.prems by auto
  consider "a < j" "j < a + Suc n" | "b < j" "j < b + Suc n" "\<not> (a < j \<and> j < a + Suc n)" | "j = a" | "j = b" "a \<noteq> b"
    | "\<not> (a \<le> j \<and> j < a + Suc n)" "\<not> (b \<le> j \<and> j < b + Suc n)" by linarith
  then show ?case
  proof cases
    case 1
    then have "b + 1 + (j - (a + 1)) = b + (j - a)" "b + (j - a) \<noteq> b" "a = b \<or> b + (j - a) \<noteq> a" using Suc.prems(3) by auto
    then show ?thesis using IH ab 1 by (auto simp: nth_list_update Let_def)
  next
    case 2
    then have "a + 1 + (j - (b + 1)) = a + (j - b)" "a + (j - b) \<noteq> a" "a + (j - b) \<noteq> b" using Suc.prems(3) by auto
    then show ?thesis using IH ab 2 Suc.prems(3) by (auto simp: nth_list_update Let_def)
  next
    case 3
    then show ?thesis using IH ab Suc.prems by (auto simp: nth_list_update Let_def)
  next
    case 4
    then show ?thesis using IH ab Suc.prems by (auto simp: nth_list_update Let_def)
  next
    case 5
    then show ?thesis using IH ab by (auto simp: nth_list_update Let_def)
  qed
qed auto

definition swap_idx :: "nat \<Rightarrow> nat \<Rightarrow> nat \<Rightarrow> nat" where
  "swap_idx a b i = (if i = a then b else if i = b then a else i)"

lemma elem_nth: "in_array arr sz i \<Longrightarrow> k < sz \<Longrightarrow> elem arr sz i ! k = arr ! ((i - 1) * sz + k)"
  by (cases i) (simp_all add: elem_def in_array_def)

lemma length_elem: "in_array arr sz i \<Longrightarrow> length (elem arr sz i) = sz"
  by (cases i) (simp_all add: elem_def in_array_def)

lemma offset_less: "a < b \<Longrightarrow> a * sz + sz \<le> b * sz" for a b sz :: nat
  using mult_le_mono1 [of "Suc a" b sz] by simp

lemma do_swap_elem:
  assumes "in_array arr sz a" and "in_array arr sz b"
  shows "\<exists>arr'. do_swap arr a b sz = Some arr' \<and> length arr' = length arr
    \<and> (\<forall>i. in_array arr sz i \<longrightarrow> elem arr' sz i = elem arr sz (swap_idx a b i))"
proof -
  let ?arr = "swap_bytes arr ((a - 1) * sz) ((b - 1) * sz) sz"
  have ofs: "(i - 1) * sz + sz \<le> length arr" if "in_array arr sz i" for i using that by (cases i) (simp_all add: in_array_def)
  have sep: "(i - 1) * sz + sz \<le> (j - 1) * sz \<or> (j - 1) * sz + sz \<le> (i - 1) * sz"
    if "in_array arr sz i" "in_array arr sz j" "i \<noteq> j" for i j
  proof -
    have "i - 1 < j - 1 \<or> j - 1 < i - 1" using that by (auto simp: in_array_def)
    then show ?thesis by (auto intro: offset_less)
  qed
  have "elem ?arr sz i = elem arr sz (swap_idx a b i)" if i: "in_array arr sz i" for i
  proof (rule nth_equalityI)
    have i': "in_array ?arr sz i" "in_array arr sz (swap_idx a b i)" using i assms by (simp_all add: in_array_def swap_idx_def)
    then show "length (elem ?arr sz i) = length (elem arr sz (swap_idx a b i))" by (simp add: length_elem)
    fix k assume "k < length (elem ?arr sz i)"
    then have k: "k < sz" using length_elem [OF i'(1)] by simp
    then have "(i - 1) * sz + k < length arr" using ofs [OF i] by simp
    note sw = swap_bytes_nth [OF ofs [OF assms(1)] ofs [OF assms(2)] _ this]
    have "a = b \<or> (a - 1) * sz + sz \<le> (b - 1) * sz \<or> (b - 1) * sz + sz \<le> (a - 1) * sz" using sep [OF assms] by blast
    then show "elem ?arr sz i ! k = elem arr sz (swap_idx a b i) ! k"
      unfolding elem_nth [OF i'(1) k] elem_nth [OF i'(2) k]
      using k sw sep [OF i assms(1)] sep [OF i assms(2)] by (auto simp: swap_idx_def)
  qed
  then show ?thesis using assms by (auto simp: do_swap_def)
qed

lemma swap_idx_in: "a \<in> A \<Longrightarrow> b \<in> A \<Longrightarrow> i \<in> A \<Longrightarrow> swap_idx a b i \<in> A"
  by (simp add: swap_idx_def)

lemma swap_idx_mset:
  assumes "a \<in> A" "b \<in> A"
  shows "image_mset (\<lambda>i. h (swap_idx a b i)) (mset_set A) = image_mset h (mset_set A)"
proof -
  have "inj_on (swap_idx a b) A" by (auto simp: inj_on_def swap_idx_def split: if_splits)
  moreover have "swap_idx a b ` A = A"
  proof
    show "swap_idx a b ` A \<subseteq> A" using assms by (auto simp: swap_idx_def)
    show "A \<subseteq> swap_idx a b ` A"
    proof
      fix i assume "i \<in> A"
      then show "i \<in> swap_idx a b ` A" using assms by (intro image_eqI [of _ _ "swap_idx a b i"]) (auto simp: swap_idx_def)
    qed
  qed
  ultimately have "image_mset h (image_mset (swap_idx a b) (mset_set A)) = image_mset h (mset_set A)" by (simp add: image_mset_mset_set)
  then show ?thesis by (simp add: multiset.map_comp comp_def)
qed

subsection \<open>Heaps\<close>

text \<open>What the comments demand of a comparison function.\<close>

locale comparison =
  fixes cmp :: "'a \<Rightarrow> 'a \<Rightarrow> int"
  assumes cmp_swap: "cmp y x > 0 \<longleftrightarrow> cmp x y < 0"
    and cmp_trans: "cmp x y \<le> 0 \<Longrightarrow> cmp y z \<le> 0 \<Longrightarrow> cmp x z \<le> 0"
begin

lemma cmp_total: "\<not> cmp x y \<le> 0 \<Longrightarrow> cmp y x \<le> 0"
  using cmp_swap [of x y] by simp

text \<open>A heap on the positions \<open>lo\<close> to \<open>cnt\<close>: no element is greater than its parent.\<close>

definition heap :: "(nat \<Rightarrow> 'a) \<Rightarrow> nat \<Rightarrow> nat \<Rightarrow> bool" where
  "heap h lo cnt \<longleftrightarrow> (\<forall>c \<le> cnt. lo \<le> c div 2 \<longrightarrow> cmp (h c) (h (c div 2)) \<le> 0)"

text \<open>A heap except that the element at \<open>i\<close> may be too small.\<close>

definition sift_ok :: "(nat \<Rightarrow> 'a) \<Rightarrow> nat \<Rightarrow> nat \<Rightarrow> nat \<Rightarrow> bool" where
  "sift_ok h i lo cnt \<longleftrightarrow> (\<forall>c \<le> cnt. lo \<le> c div 2 \<longrightarrow> c div 2 \<noteq> i \<longrightarrow> cmp (h c) (h (c div 2)) \<le> 0)
     \<and> (\<forall>c \<le> cnt. c div 2 = i \<longrightarrow> lo \<le> i div 2 \<longrightarrow> cmp (h c) (h (i div 2)) \<le> 0)"

lemma sift_step:
  assumes ok: "sift_ok h i lo cnt" and i: "0 < lo" "lo \<le> i" and m: "m div 2 = i" "m \<le> cnt" and gt: "cmp (h i) (h m) \<le> 0"
    and largest: "\<And>c. c div 2 = i \<Longrightarrow> c \<le> cnt \<Longrightarrow> cmp (h c) (h m) \<le> 0"
  shows "sift_ok (\<lambda>j. h (swap_idx i m j)) m lo cnt"
  unfolding sift_ok_def
proof (intro conjI allI impI)
  have "i < m" using i m by (cases m) auto
  fix c assume c: "c \<le> cnt" "lo \<le> c div 2" "c div 2 \<noteq> m"
  show "cmp (h (swap_idx i m c)) (h (swap_idx i m (c div 2))) \<le> 0"
  proof (cases "c div 2 = i")
    case True
    then have "c \<noteq> i" using i by auto
    then show ?thesis using True gt largest [of c] c(1) m by (auto simp: swap_idx_def)
  next
    case False
    then have "c \<noteq> m" using m by auto
    show ?thesis
    proof (cases "c = i")
      case True
      then have "cmp (h m) (h (i div 2)) \<le> 0" using ok m c(2) by (simp add: sift_ok_def)
      then show ?thesis using True False c(3) by (simp add: swap_idx_def)
    qed (use ok c False \<open>c \<noteq> m\<close> in \<open>simp add: sift_ok_def swap_idx_def\<close>)
  qed
next
  fix c assume c: "c \<le> cnt" "c div 2 = m" "lo \<le> m div 2"
  have "i < m" using i m by (cases m) auto
  then have "c \<noteq> i" "c \<noteq> m" using c by auto
  moreover have "lo \<le> c div 2" "c div 2 \<noteq> i" using c(2) i \<open>i < m\<close> by auto
  then have "cmp (h c) (h (c div 2)) \<le> 0" using ok c(1) unfolding sift_ok_def by blast
  ultimately show "cmp (h (swap_idx i m c)) (h (swap_idx i m (m div 2))) \<le> 0" using c(2) m(1) by (simp add: swap_idx_def)
qed

lemma sift_done:
  assumes "sift_ok h i lo cnt" and "\<And>c. c div 2 = i \<Longrightarrow> c \<le> cnt \<Longrightarrow> cmp (h c) (h i) \<le> 0"
  shows "heap h lo cnt"
  unfolding heap_def
proof (intro allI impI)
  fix c assume "c \<le> cnt" "lo \<le> c div 2"
  then show "cmp (h c) (h (c div 2)) \<le> 0" using assms by (cases "c div 2 = i") (auto simp: sift_ok_def)
qed

lemma sift_ok_cong:
  assumes ok: "sift_ok h i lo cnt" and same: "\<And>j. 0 < j \<Longrightarrow> j \<le> cnt \<Longrightarrow> h' j = h j" and pos: "0 < lo" "0 < i"
  shows "sift_ok h' i lo cnt"
  unfolding sift_ok_def
proof (intro conjI allI impI)
  fix c assume c: "c \<le> cnt" "lo \<le> c div 2" "c div 2 \<noteq> i"
  then have "0 < c div 2" "0 < c" using pos(1) by (auto intro: Nat.gr0I)
  then show "cmp (h' c) (h' (c div 2)) \<le> 0" using ok c same [of c] same [of "c div 2"] by (simp add: sift_ok_def)
next
  fix c assume c: "c \<le> cnt" "c div 2 = i" "lo \<le> i div 2"
  then have "0 < c" "0 < i div 2" "i div 2 \<le> cnt" using pos by (auto intro: Nat.gr0I)
  then show "cmp (h' c) (h' (i div 2)) \<le> 0" using ok c same [of c] same [of "i div 2"] by (simp add: sift_ok_def)
qed

lemma heap_root: "heap h 1 cnt \<Longrightarrow> 0 < c \<Longrightarrow> c \<le> cnt \<Longrightarrow> cmp (h c) (h 1) \<le> 0"
proof (induction c rule: less_induct)
  case (less c)
  show ?case
  proof (cases "c = 1")
    case True
    then show ?thesis using cmp_total [of "h 1" "h 1"] by (cases "cmp (h 1) (h 1) \<le> 0") simp_all
  next
    case False
    then have "0 < c div 2" "c div 2 < c" using less.prems(2) by auto
    then have "cmp (h (c div 2)) (h 1) \<le> 0" using less by simp
    moreover have "cmp (h c) (h (c div 2)) \<le> 0" using less.prems \<open>0 < c div 2\<close> by (simp add: heap_def)
    ultimately show ?thesis using cmp_trans by blast
  qed
qed

end

text \<open>On arrays: the position chosen by \<open>heap_max\<close> holds a largest element.\<close>

lemma array_index: "length arr = N * sz \<Longrightarrow> 0 < i \<Longrightarrow> i \<le> N \<Longrightarrow> in_array arr sz i"
  by (simp add: in_array_def)

lemma children: "c div 2 = i \<longleftrightarrow> c = 2 * i \<or> c = 2 * i + 1" for c i :: nat
  by auto

lemma heap_max_spec:
  assumes c: "comparison cmp" and arr: "length arr = N * sz" and i: "0 < i" "i \<le> cnt" "cnt \<le> N"
  shows "\<exists>k. heap_max arr i cnt sz cmp = Some k \<and> (k = i \<or> k div 2 = i \<and> k \<le> cnt) \<and> cmp (elem arr sz i) (elem arr sz k) \<le> 0
    \<and> (\<forall>j. j div 2 = i \<longrightarrow> j \<le> cnt \<longrightarrow> cmp (elem arr sz j) (elem arr sz k) \<le> 0)"
proof -
  note tot = comparison.cmp_total [OF c] and tr = comparison.cmp_trans [OF c] and sw = comparison.cmp_swap [OF c]
  have refl: "cmp x x \<le> 0" for x using tot [of x x] by (cases "cmp x x \<le> 0") simp_all
  have cmp: "do_compare arr a b sz cmp = Some (cmp (elem arr sz a) (elem arr sz b))" if "0 < a" "a \<le> cnt" "0 < b" "b \<le> cnt" for a b
    using that array_index [OF arr] i(3) by (simp add: do_compare_def)
  define k1 where "k1 = (if 2 * i \<le> cnt \<and> cmp (elem arr sz (2 * i)) (elem arr sz i) > 0 then 2 * i else i)"
  define k where "k = (if 2 * i + 1 \<le> cnt \<and> cmp (elem arr sz (2 * i + 1)) (elem arr sz k1) > 0 then 2 * i + 1 else k1)"
  have k1: "0 < k1" "k1 \<le> cnt" using i by (auto simp: k1_def)
  have "heap_max arr i cnt sz cmp = Some k"
    using i cmp [of "2 * i" i] cmp [of "2 * i + 1" k1] k1 by (auto simp: heap_max_def Let_def k_def k1_def)
  moreover have le1: "cmp (elem arr sz i) (elem arr sz k1) \<le> 0" "2 * i \<le> cnt \<Longrightarrow> cmp (elem arr sz (2 * i)) (elem arr sz k1) \<le> 0"
    using refl tot by (auto simp: k1_def intro: tot)
  moreover have "cmp (elem arr sz k1) (elem arr sz k) \<le> 0" "2 * i + 1 \<le> cnt \<Longrightarrow> cmp (elem arr sz (2 * i + 1)) (elem arr sz k) \<le> 0"
    using refl by (auto simp: k_def intro: tot)
  moreover have "k = i \<or> k div 2 = i \<and> k \<le> cnt" by (auto simp: k_def k1_def)
  ultimately show ?thesis using tr unfolding children by blast
qed

definition same_elems :: "u8 list \<Rightarrow> u8 list \<Rightarrow> nat \<Rightarrow> nat \<Rightarrow> bool" where
  "same_elems arr arr' sz n \<longleftrightarrow> length arr' = length arr
     \<and> image_mset (elem arr' sz) (mset_set {1..n}) = image_mset (elem arr sz) (mset_set {1..n})
     \<and> (\<forall>j. n < j \<longrightarrow> in_array arr sz j \<longrightarrow> elem arr' sz j = elem arr sz j)"

lemma same_elems_trans: "same_elems a b sz n \<Longrightarrow> same_elems b c sz n \<Longrightarrow> same_elems a c sz n"
  by (auto simp: same_elems_def in_array_def)

lemma same_elems_swap:
  assumes "length arr' = length arr" and "\<And>i. in_array arr sz i \<Longrightarrow> elem arr' sz i = elem arr sz (swap_idx a b i)"
    and "length arr = N * sz" and "0 < a" "a \<le> n" "0 < b" "b \<le> n" "n \<le> N"
  shows "same_elems arr arr' sz n"
proof -
  have "image_mset (elem arr' sz) (mset_set {1..n}) = image_mset (\<lambda>i. elem arr sz (swap_idx a b i)) (mset_set {1..n})"
    using assms array_index [OF assms(3)] by (intro image_mset_cong) auto
  also have "\<dots> = image_mset (elem arr sz) (mset_set {1..n})" using assms by (intro swap_idx_mset) auto
  finally show ?thesis using assms(1,2,5,7) by (auto simp: same_elems_def swap_idx_def)
qed

lemma heapify_spec:
  assumes c: "comparison cmp" and "length arr = N * sz" and "0 < lo" "lo \<le> i" "i \<le> cnt" "cnt \<le> N"
    and "comparison.sift_ok cmp (elem arr sz) i lo cnt"
  shows "\<exists>arr'. heapify arr i cnt sz cmp = Some arr' \<and> same_elems arr arr' sz cnt \<and> comparison.heap cmp (elem arr' sz) lo cnt"
  using assms(2-)
proof (induction "cnt - i" arbitrary: arr i rule: less_induct)
  case less
  note pre = less.prems
  obtain k where k: "heap_max arr i cnt sz cmp = Some k" "k = i \<or> k div 2 = i \<and> k \<le> cnt" "cmp (elem arr sz i) (elem arr sz k) \<le> 0"
    "\<And>j. j div 2 = i \<Longrightarrow> j \<le> cnt \<Longrightarrow> cmp (elem arr sz j) (elem arr sz k) \<le> 0"
    using heap_max_spec [OF c pre(1) _ pre(4,5)] pre(2,3) by auto
  show ?case
  proof (cases "k = i")
    case True
    then have "comparison.heap cmp (elem arr sz) lo cnt" using comparison.sift_done [OF c pre(6)] k(4) by blast
    then show ?thesis using k(1) True by (simp add: heapify.simps [of arr] same_elems_def)
  next
    case False
    then have k': "k div 2 = i" "k \<le> cnt" "i < k" using k(2) pre(2,3) by (auto dest: children [THEN iffD1])
    have in_i: "in_array arr sz i" "in_array arr sz k" using array_index [OF pre(1)] pre k' by auto
    obtain arr1 where a1: "do_swap arr i k sz = Some arr1" "length arr1 = length arr"
      "\<And>j. in_array arr sz j \<Longrightarrow> elem arr1 sz j = elem arr sz (swap_idx i k j)"
      using do_swap_elem [OF in_i] by blast
    have "comparison.sift_ok cmp (\<lambda>j. elem arr sz (swap_idx i k j)) k lo cnt"
      using comparison.sift_step [OF c pre(6,2,3) k'(1,2) k(3,4)] by blast
    moreover have "elem arr1 sz j = elem arr sz (swap_idx i k j)" if "0 < j" "j \<le> cnt" for j
      using a1(3) array_index [OF pre(1)] that pre(5) by simp
    ultimately have "comparison.sift_ok cmp (elem arr1 sz) k lo cnt"
      using comparison.sift_ok_cong [OF c, of _ k lo cnt "elem arr1 sz"] pre(2) k'(3) by (metis gr0I not_less0)
    moreover have "cnt - k < cnt - i" using k' by simp
    ultimately obtain arr' where "heapify arr1 k cnt sz cmp = Some arr'" "same_elems arr1 arr' sz cnt" "comparison.heap cmp (elem arr' sz) lo cnt"
      using less.hyps [of k arr1] k'(2,3) pre(1,2,3,5) a1(2) by auto
    moreover have "same_elems arr arr1 sz cnt" using same_elems_swap [OF a1(2,3) pre(1), of cnt] pre k' by simp
    ultimately show ?thesis using k(1) a1(1) False same_elems_trans by (subst heapify.simps) auto
  qed
qed

lemma build_heap_spec:
  assumes c: "comparison cmp" and "length arr = N * sz" and "i \<le> N" and "comparison.heap cmp (elem arr sz) (Suc i) N"
  shows "\<exists>arr'. build_heap arr i N sz cmp = Some arr' \<and> same_elems arr arr' sz N \<and> comparison.heap cmp (elem arr' sz) 1 N"
  using assms(2-)
proof (induction i arbitrary: arr)
  case (Suc i)
  have "comparison.sift_ok cmp (elem arr sz) (Suc i) (Suc i) N"
    using Suc.prems(3) by (auto simp: comparison.sift_ok_def [OF c] comparison.heap_def [OF c])
  then obtain arr1 where a1: "heapify arr (Suc i) N sz cmp = Some arr1" "same_elems arr arr1 sz N" "comparison.heap cmp (elem arr1 sz) (Suc i) N"
    using heapify_spec [OF c Suc.prems(1), of "Suc i" "Suc i" N] Suc.prems(2) by auto
  have "length arr1 = N * sz" using a1(2) Suc.prems(1) by (simp add: same_elems_def)
  then obtain arr' where "build_heap arr1 i N sz cmp = Some arr'" "same_elems arr1 arr' sz N" "comparison.heap cmp (elem arr' sz) 1 N"
    using Suc.IH [of arr1] Suc.prems(2) a1(3) by auto
  then show ?case using a1(1) same_elems_trans [OF a1(2)] by (intro exI [of _ arr']) simp
qed (auto simp: same_elems_def)

text \<open>The elements from position \<open>i + 1\<close> on are in their final places.\<close>

definition sorted_tail :: "compare_func \<Rightarrow> u8 list \<Rightarrow> nat \<Rightarrow> nat \<Rightarrow> nat \<Rightarrow> bool" where
  "sorted_tail cmp arr sz i N \<longleftrightarrow> (\<forall>j k. 0 < j \<longrightarrow> j < k \<longrightarrow> i < k \<longrightarrow> k \<le> N \<longrightarrow> cmp (elem arr sz j) (elem arr sz k) \<le> 0)"

lemma same_elems_in:
  assumes "same_elems arr arr' sz n" and "0 < j" "j \<le> n"
  shows "\<exists>j'. 0 < j' \<and> j' \<le> n \<and> elem arr' sz j = elem arr sz j'"
proof -
  have "set_mset (image_mset (elem arr' sz) (mset_set {1..n})) = set_mset (image_mset (elem arr sz) (mset_set {1..n}))"
    using assms(1) by (simp add: same_elems_def)
  then have "elem arr' sz ` {1..n} = elem arr sz ` {1..n}" by simp
  then have "elem arr' sz j \<in> elem arr sz ` {1..n}" using assms(2,3) by force
  then obtain j' where "j' \<in> {1..n}" "elem arr' sz j = elem arr sz j'" by blast
  then show ?thesis by (intro exI [of _ j']) simp
qed

lemma sort_heap_step:
  assumes c: "comparison cmp" and arr: "length arr = N * sz" and i: "0 < i" "Suc i \<le> N"
    and h: "comparison.heap cmp (elem arr sz) 1 (Suc i)" and st: "sorted_tail cmp arr sz (Suc i) N"
  shows "\<exists>arr1 arr2. do_swap arr 1 (Suc i) sz = Some arr1 \<and> heapify arr1 1 i sz cmp = Some arr2 \<and> same_elems arr arr2 sz N
    \<and> comparison.heap cmp (elem arr2 sz) 1 i \<and> sorted_tail cmp arr2 sz i N"
proof -
  have inn: "in_array arr sz 1" "in_array arr sz (Suc i)" using array_index [OF arr] i by simp_all
  obtain arr1 where a1: "do_swap arr 1 (Suc i) sz = Some arr1" "length arr1 = length arr"
    "\<And>j. in_array arr sz j \<Longrightarrow> elem arr1 sz j = elem arr sz (swap_idx 1 (Suc i) j)"
    using do_swap_elem [OF inn] by blast
  have e1: "elem arr1 sz j = elem arr sz (swap_idx 1 (Suc i) j)" if "0 < j" "j \<le> N" for j using a1(3) array_index [OF arr] that by simp
  have "comparison.sift_ok cmp (elem arr1 sz) 1 1 i" unfolding comparison.sift_ok_def [OF c]
  proof (intro conjI allI impI)
    fix k assume k: "k \<le> i" "1 \<le> k div 2" "k div 2 \<noteq> 1"
    then have "elem arr1 sz k = elem arr sz k" "elem arr1 sz (k div 2) = elem arr sz (k div 2)" using e1 [of k] e1 [of "k div 2"] i
      by (auto simp: swap_idx_def)
    then show "cmp (elem arr1 sz k) (elem arr1 sz (k div 2)) \<le> 0" using h k by (simp add: comparison.heap_def [OF c])
  qed simp
  then obtain arr2 where a2: "heapify arr1 1 i sz cmp = Some arr2" "same_elems arr1 arr2 sz i" "comparison.heap cmp (elem arr2 sz) 1 i"
    using heapify_spec [OF c, of arr1 N sz 1 1 i] arr a1(2) i by auto
  have "same_elems arr arr1 sz N" using same_elems_swap [OF a1(2,3) arr, of N] i by simp
  moreover have up: "elem arr2 sz j = elem arr1 sz j" if "i < j" "j \<le> N" for j
    using a2(2) that array_index [of arr1 N sz j] a1(2) arr by (simp add: same_elems_def)
  have "same_elems arr1 arr2 sz N"
  proof -
    have "{1..N} = {1..i} \<union> {Suc i..N}" using i by auto
    then have "mset_set {1..N} = mset_set {1..i} + mset_set {Suc i..N}" by (simp add: mset_set_Union)
    moreover have "image_mset (elem arr2 sz) (mset_set {Suc i..N}) = image_mset (elem arr1 sz) (mset_set {Suc i..N})"
      using up by (intro image_mset_cong) auto
    ultimately show ?thesis using a2(2) i by (auto simp: same_elems_def)
  qed
  ultimately have same: "same_elems arr arr2 sz N" by (rule same_elems_trans)
  have low: "\<exists>j'. 0 < j' \<and> j' \<le> Suc i \<and> elem arr2 sz j = elem arr sz j'" if j: "0 < j" "j \<le> Suc i" for j
  proof (cases "j = Suc i")
    case True
    then show ?thesis using up [of j] e1 [of j] i by (auto simp: swap_idx_def)
  next
    case False
    then obtain j' where "0 < j'" "j' \<le> i" "elem arr2 sz j = elem arr1 sz j'" using same_elems_in [OF a2(2), of j] j by auto
    then show ?thesis using e1 [of j'] i by (intro exI [of _ "swap_idx 1 (Suc i) j'"]) (auto simp: swap_idx_def)
  qed
  have "cmp (elem arr2 sz j) (elem arr2 sz k) \<le> 0" if jk: "0 < j" "j < k" "i < k" "k \<le> N" for j k
  proof (cases "k = Suc i")
    case True
    then have "elem arr2 sz k = elem arr sz 1" using up [of k] e1 [of k] jk by (auto simp: swap_idx_def)
    then show ?thesis using low [of j] jk True comparison.heap_root [OF c h] by auto
  next
    case False
    then have k: "elem arr2 sz k = elem arr sz k" "Suc i < k" using up [of k] e1 [of k] jk by (auto simp: swap_idx_def)
    show ?thesis
    proof (cases "j \<le> Suc i")
      case True
      then show ?thesis using low [of j] jk(1,4) k st by (fastforce simp: sorted_tail_def)
    next
      case False
      then have "elem arr2 sz j = elem arr sz j" using up [of j] e1 [of j] jk by (auto simp: swap_idx_def)
      then show ?thesis using k st jk by (auto simp: sorted_tail_def)
    qed
  qed
  then show ?thesis using a1(1) a2(1,3) same by (auto simp: sorted_tail_def)
qed

lemma sort_heap_spec:
  assumes c: "comparison cmp" and "length arr = N * sz" and "i \<le> N" and "comparison.heap cmp (elem arr sz) 1 i" and "sorted_tail cmp arr sz i N"
  shows "\<exists>arr'. sort_heap arr i sz cmp = Some arr' \<and> same_elems arr arr' sz N \<and> sorted_tail cmp arr' sz 0 N"
  using assms(2-)
proof (induction i arbitrary: arr)
  case (Suc i)
  show ?case
  proof (cases "i = 0")
    case True
    then show ?thesis using Suc.prems(4) by (auto simp: same_elems_def sorted_tail_def)
  next
    case False
    obtain arr1 arr2 where a: "do_swap arr 1 (Suc i) sz = Some arr1" "heapify arr1 1 i sz cmp = Some arr2" "same_elems arr arr2 sz N"
      "comparison.heap cmp (elem arr2 sz) 1 i" "sorted_tail cmp arr2 sz i N"
      using sort_heap_step [OF c Suc.prems(1) _ Suc.prems(2,3,4)] False by blast
    have "length arr2 = N * sz" using a(3) Suc.prems(1) by (simp add: same_elems_def)
    then obtain arr' where "sort_heap arr2 i sz cmp = Some arr'" "same_elems arr2 arr' sz N" "sorted_tail cmp arr' sz 0 N"
      using Suc.IH [of arr2] Suc.prems(2) a(4,5) by auto
    then show ?thesis using a(1,2) False same_elems_trans [OF a(3)] by (intro exI [of _ arr']) simp
  qed
qed (auto simp: same_elems_def)

definition elems :: "u8 list \<Rightarrow> nat \<Rightarrow> nat \<Rightarrow> u8 list list" where
  "elems arr sz cnt = map (elem arr sz) [1..<Suc cnt]"

lemma mset_elems: "mset (elems arr sz cnt) = image_mset (elem arr sz) (mset_set {1..cnt})"
  unfolding elems_def mset_map mset_upt atLeastLessThanSuc_atLeastAtMost ..

lemma sorted_elems: "sorted_wrt (\<lambda>x y. cmp x y \<le> 0) (elems arr sz cnt) \<longleftrightarrow> sorted_tail cmp arr sz 0 cnt"
  unfolding sorted_wrt_iff_nth_less
proof (intro iffI allI impI)
  assume l: "\<forall>i j. i < j \<longrightarrow> j < length (elems arr sz cnt) \<longrightarrow> cmp (elems arr sz cnt ! i) (elems arr sz cnt ! j) \<le> 0"
  show "sorted_tail cmp arr sz 0 cnt" unfolding sorted_tail_def
  proof (intro allI impI)
    fix j k assume "0 < j" "j < k" "0 < k" "k \<le> cnt"
    then show "cmp (elem arr sz j) (elem arr sz k) \<le> 0"
      using l [rule_format, of "j - 1" "k - 1"] by (simp add: elems_def del: upt_Suc)
  qed
qed (simp add: sorted_tail_def elems_def del: upt_Suc)


text \<open>Byte strings with \<open>memcmp\<close> are an instance.\<close>

interpretation by_memcmp: comparison bytes_cmp
proof
  show "bytes_cmp y x > 0 \<longleftrightarrow> bytes_cmp x y < 0" for x y using bytes_cmp_swap [of x y] by simp
qed (rule bytes_cmp_trans)


subsection \<open>Searching\<close>

lemma search_loop_spec:
  assumes c: "comparison cmp" and sz: "0 < sz" and arr: "length arr = cnt * sz" and st: "sorted_tail cmp arr sz 0 cnt"
  shows "a \<le> b \<Longrightarrow> b \<le> cnt \<Longrightarrow> (\<And>j. j < a \<Longrightarrow> cmp key (elem arr sz (Suc j)) > 0) \<Longrightarrow>
    (\<And>j. b \<le> j \<Longrightarrow> j < cnt \<Longrightarrow> cmp key (elem arr sz (Suc j)) < 0) \<Longrightarrow>
    \<exists>r. search_loop key arr (a * sz) (b * sz) sz cmp = Some r
      \<and> (case r of None \<Rightarrow> \<forall>j < cnt. cmp key (elem arr sz (Suc j)) \<noteq> 0
         | Some p \<Rightarrow> \<exists>k < cnt. p = k * sz \<and> cmp key (elem arr sz (Suc k)) = 0)"
proof (induction "b - a" arbitrary: a b rule: less_induct)
  case less
  show ?case
  proof (cases "a = b")
    case True
    have "cmp key (elem arr sz (Suc j)) \<noteq> 0" if "j < cnt" for j using less.prems(3,4) [of j] that True by (cases "j < a") auto
    then show ?thesis using True by (simp add: search_loop.simps)
  next
    case False
    define m where "m = a + (b - a) div 2"
    have k: "a \<le> m" "m < b" "m < cnt" using False less.prems(1,2) by (auto simp: m_def)
    have lt: "a * sz < b * sz" using False less.prems(1) sz by simp
    have "(b * sz - a * sz) div sz = b - a" using sz by (simp add: diff_mult_distrib [symmetric])
    then have mid: "a * sz + (b * sz - a * sz) div sz div 2 * sz = m * sz" by (simp add: m_def add_mult_distrib)
    have e: "take sz (drop (m * sz) arr) = elem arr sz (Suc m)" by (simp add: elem_def)
    have ok: "\<not> length arr < m * sz + sz" using offset_less [OF k(3), of sz] arr by simp
    define x where "x = elem arr sz (Suc m)"
    have step: "search_loop key arr (a * sz) (b * sz) sz cmp =
      (if cmp key x < 0 then search_loop key arr (a * sz) (m * sz) sz cmp
       else if cmp key x > 0 then search_loop key arr (Suc m * sz) (b * sz) sz cmp else Some (Some (m * sz)))"
    proof -
      have "sz \<noteq> 0" "Suc m * sz = m * sz + sz" using sz by simp_all
      then show ?thesis by (subst search_loop.simps) (simp only: lt ok mid e x_def [symmetric] Let_def if_True if_False)
    qed
    have le: "cmp (elem arr sz (Suc i)) (elem arr sz (Suc j)) \<le> 0" if "i < j" "j < cnt" for i j
      using st that by (simp add: sorted_tail_def)
    note tr = comparison.cmp_trans [OF c] and sw = comparison.cmp_swap [OF c]
    consider "cmp key x < 0" | "cmp key x > 0" | "cmp key x = 0" by linarith
    then show ?thesis
    proof cases
      case 1
      have "cmp key (elem arr sz (Suc j)) < 0" if "m \<le> j" "j < cnt" for j
      proof (cases "j = m")
        case False
        then have "cmp x (elem arr sz (Suc j)) \<le> 0" using le that by (simp add: x_def)
        moreover have "cmp x key > 0" using 1 sw by simp
        ultimately show ?thesis using tr [of x "elem arr sz (Suc j)" key] sw [of "elem arr sz (Suc j)" key] by linarith
      qed (use 1 x_def in simp)
      then show ?thesis using less.hyps [of m a] less.prems k step 1 by auto
    next
      case 2
      have "cmp key (elem arr sz (Suc j)) > 0" if "j < Suc m" for j
      proof (cases "j = m")
        case False
        then have "cmp (elem arr sz (Suc j)) x \<le> 0" using le that k by (simp add: x_def)
        then show ?thesis using tr [of key "elem arr sz (Suc j)" x] 2 by linarith
      qed (use 2 x_def in simp)
      then show ?thesis using less.hyps [of b "Suc m"] less.prems k step 2 by auto
    next
      case 3
      then show ?thesis using step k by (auto simp: x_def)
    qed
  qed
qed

text \<open>C40. \<open>bsearch\<close> on a sorted array always terminates inside the array and is exact: it returns the address of an element equal to the key
  if there is one, and the null pointer only if there is none.\<close>

theorem bsearch_finds:
  assumes "comparison cmp" and "0 < sz" and "length arr = cnt * sz" and "sorted_wrt (\<lambda>x y. cmp x y \<le> 0) (elems arr sz cnt)"
  shows "\<exists>r. bsearch key arr cnt sz cmp = Some r \<and> (case r of None \<Rightarrow> \<forall>x \<in> set (elems arr sz cnt). cmp key x \<noteq> 0
    | Some p \<Rightarrow> \<exists>k < cnt. p = k * sz \<and> cmp key (elems arr sz cnt ! k) = 0)"
proof -
  have th: "compare_thunk cmp = cmp" by (simp add: compare_thunk_def fun_eq_iff)
  have nth: "elems arr sz cnt ! k = elem arr sz (Suc k)" if "k < cnt" for k using that by (simp add: elems_def del: upt_Suc)
  have set: "(\<forall>x \<in> set (elems arr sz cnt). P x) \<longleftrightarrow> (\<forall>k < cnt. P (elem arr sz (Suc k)))" for P
    unfolding all_set_conv_all_nth using nth by (simp add: elems_def del: upt_Suc)
  obtain r where "search_loop key arr (0 * sz) (cnt * sz) sz cmp = Some r" "case r of None \<Rightarrow> \<forall>j < cnt. cmp key (elem arr sz (Suc j)) \<noteq> 0
         | Some p \<Rightarrow> \<exists>k < cnt. p = k * sz \<and> cmp key (elem arr sz (Suc k)) = 0"
    using search_loop_spec [OF assms(1-3) assms(4) [unfolded sorted_elems], of 0 cnt key] by auto
  then show ?thesis unfolding set using nth
    by (intro exI [of _ r]) (auto simp: bsearch_def binary_search_def th mult.commute split: option.splits)
qed

theorem bsearch_finds_witness:
  "\<exists>r. bsearch [2, 9] [1, 7, 2, 9, 3, 1] 3 2 bytes_cmp = Some r \<and> r = Some 2"
proof -
  have e: "elems [1, 7, 2, 9, 3, 1] 2 3 = [[1, 7], [2, 9], [3, 1]]" by code_simp
  then obtain r where r: "bsearch [2, 9] [1, 7, 2, 9, 3, 1] 3 2 bytes_cmp = Some r"
    "case r of None \<Rightarrow> \<forall>x \<in> set [[1, 7], [2, 9], [3, 1]]. bytes_cmp [2, 9] x \<noteq> 0
     | Some p \<Rightarrow> \<exists>k < 3. p = k * 2 \<and> bytes_cmp [2, 9] ([[1, 7], [2, 9], [3, 1]] ! k) = 0"
    using bsearch_finds [OF by_memcmp.comparison_axioms, of 2 "[1, 7, 2, 9, 3, 1]" 3 "[2, 9]", unfolded e] by auto
  then obtain p k where "r = Some p" "k < 3" "p = k * 2" "bytes_cmp [2, 9] ([[1, 7], [2, 9], [3, 1]] ! k) = 0" by (cases r) auto
  moreover from \<open>k < 3\<close> have "k = 0 \<or> k = 1 \<or> k = 2" by linarith
  ultimately have "r = Some p" "p = k * 2" "k = 1" by auto
  then show ?thesis using r(1) by simp
qed

end
