(* ===== verification/Stdio.thy ===== *)
theory Stdio
  imports Stdlib
begin

text \<open>
  Formatted output, \<^verbatim>\<open>lib/stdio.c\<close>. A pointer into a C string is the
  list of the characters from there to the terminator, and moving it beyond the terminator is \<open>None\<close>, as are
  signed overflow and a write outside a local buffer. The variable arguments of a call are a list of stack words; a
  pointer to a string carries the string, since the code never writes to its arguments. The function that receives the
  output and its state are parameters, as in the code.

  The results: a format is rendered piece by piece as the conversions say, the local buffer of an integer
  conversion never overflows, and \<open>vsnprintf\<close> writes the beginning of the text, terminated, and nothing outside its buffer.
\<close>

subsection \<open>Strings and variable arguments\<close>

definition deref :: "string \<Rightarrow> char" where
  "deref s = (case s of [] \<Rightarrow> NUL | ch # _ \<Rightarrow> ch)"

definition advance :: "string \<Rightarrow> string c_res" where
  "advance s = (case s of [] \<Rightarrow> None | _ # r \<Rightarrow> Some r)"

datatype va = A32 u32 | A64 u64 | APtr u32 string

fun va_32 :: "va list \<Rightarrow> (u32 \<times> va list) c_res" where
  "va_32 (A32 w # args) = Some (w, args)"
| "va_32 (APtr a s # args) = Some (a, args)"
| "va_32 _ = None"

fun va_64 :: "va list \<Rightarrow> (u64 \<times> va list) c_res" where
  "va_64 (A64 w # args) = Some (w, args)"
| "va_64 _ = None"

text \<open>A null pointer has no string.\<close>

fun va_str :: "va list \<Rightarrow> (string option \<times> va list) c_res" where
  "va_str (APtr a s # args) = Some (if a = 0 then None else Some s, args)"
| "va_str (A32 w # args) = (if w = 0 then Some (None, args) else None)"
| "va_str _ = None"

subsection \<open>Conversions\<close>

datatype int_type = CHAR' | SHORT | INT' | INTMAX | LONG | LONGLONG | PTRDIFFT | SIZET

text \<open>The flag bits are truth values.\<close>

record printf_conversion =
  MINUS :: bool
  PLUS :: bool
  SPACE :: bool
  POUND :: bool
  ZERO :: bool
  GROUP :: bool
  width :: int
  precision :: int
  itype :: int_type

record integer_base =
  base :: nat
  digits :: string
  xchar :: char
  group :: nat

definition base_d :: integer_base where
  "base_d = \<lparr>base = 10, digits = ''0123456789'', xchar = NUL, group = 3\<rparr>"

definition base_o :: integer_base where
  "base_o = \<lparr>base = 8, digits = ''01234567'', xchar = NUL, group = 3\<rparr>"

definition base_x :: integer_base where
  "base_x = \<lparr>base = 16, digits = ''0123456789abcdef'', xchar = CHR ''x'', group = 4\<rparr>"

definition base_X :: integer_base where
  "base_X = \<lparr>base = 16, digits = ''0123456789ABCDEF'', xchar = CHR ''X'', group = 4\<rparr>"

definition no_flags :: printf_conversion where
  "no_flags = \<lparr>MINUS = False, PLUS = False, SPACE = False, POUND = False, ZERO = False, GROUP = False,
     width = 0, precision = -1, itype = INT'\<rparr>"

fun parse_flags :: "string \<Rightarrow> printf_conversion \<Rightarrow> string \<times> printf_conversion" where
  "parse_flags (ch # format) c =
     (if ch = CHR ''-'' then parse_flags format (c\<lparr>MINUS := True\<rparr>)
      else if ch = CHR ''+'' then parse_flags format (c\<lparr>PLUS := True\<rparr>)
      else if ch = CHR '' '' then parse_flags format (c\<lparr>SPACE := True\<rparr>)
      else if ch = CHR ''#'' then parse_flags format (c\<lparr>POUND := True\<rparr>)
      else if ch = CHR ''0'' then parse_flags format (c\<lparr>ZERO := True\<rparr>)
      else if ch = CHR 0x27 then parse_flags format (c\<lparr>GROUP := True\<rparr>)
      else (ch # format, c))"
| "parse_flags [] c = ([], c)"

fun parse_number :: "string \<Rightarrow> int \<Rightarrow> (string \<times> int) c_res" where
  "parse_number (ch # format) n =
     (if isdigit (schar ch) then do {
        n1 \<leftarrow> int_res (n * 10);
        n2 \<leftarrow> int_res (n1 + schar ch);
        n3 \<leftarrow> int_res (n2 - 48);
        parse_number format n3
      } else Some (ch # format, n))"
| "parse_number [] n = Some ([], n)"

definition parse_width :: "string \<Rightarrow> printf_conversion \<Rightarrow> va list \<Rightarrow> (string \<times> printf_conversion \<times> va list) c_res" where
  "parse_width format c args = do {
     (format, w, args) \<leftarrow>
       (if deref format = CHR ''*''
        then do { format \<leftarrow> advance format; (w, args) \<leftarrow> va_32 args; Some (format, sint w, args) }
        else do { (format, w) \<leftarrow> parse_number format 0; Some (format, w, args) });
     if w < 0 then do { w' \<leftarrow> int_res (- w); Some (format, c\<lparr>width := w', MINUS := True\<rparr>, args) }
     else Some (format, c\<lparr>width := w\<rparr>, args)
   }"

definition parse_precision :: "string \<Rightarrow> printf_conversion \<Rightarrow> va list \<Rightarrow> (string \<times> printf_conversion \<times> va list) c_res" where
  "parse_precision format c args = do {
     (format, p, args) \<leftarrow>
       (if deref format = CHR ''.'' then do {
          format \<leftarrow> advance format;
          (format, p, args) \<leftarrow>
            (if deref format = CHR ''*''
             then do { format \<leftarrow> advance format; (w, args) \<leftarrow> va_32 args; Some (format, sint w, args) }
             else do { (format, p) \<leftarrow> parse_number format 0; Some (format, p, args) });
          Some (format, (if p < 0 then -1 else p), args)
        } else Some (format, -1, args));
     let c = c\<lparr>precision := p\<rparr>;
     Some (format, (if p \<ge> 0 then c\<lparr>ZERO := False\<rparr> else c), args)
   }"

definition parse_type :: "string \<Rightarrow> string \<times> int_type" where
  "parse_type format =
     (case format of
        ch # format' \<Rightarrow>
          if ch = CHR ''h'' then (case format' of ch' # format'' \<Rightarrow> if ch' = CHR ''h'' then (format'', CHAR') else (format', SHORT) | [] \<Rightarrow> (format', SHORT))
          else if ch = CHR ''j'' then (format', INTMAX)
          else if ch = CHR ''l'' then (case format' of ch' # format'' \<Rightarrow> if ch' = CHR ''l'' then (format'', LONGLONG) else (format', LONG) | [] \<Rightarrow> (format', LONG))
          else if ch = CHR ''t'' then (format', PTRDIFFT)
          else if ch = CHR ''z'' then (format', SIZET)
          else (format, INT')
      | [] \<Rightarrow> ([], INT'))"

definition parse_conversion :: "string \<Rightarrow> va list \<Rightarrow> (string \<times> printf_conversion \<times> va list) c_res" where
  "parse_conversion format args = do {
     let (format, c) = parse_flags format no_flags;
     let c = (if MINUS c then c\<lparr>ZERO := False\<rparr> else c);
     let c = (if PLUS c then c\<lparr>SPACE := False\<rparr> else c);
     (format, c, args) \<leftarrow> parse_width format c args;
     (format, c, args) \<leftarrow> parse_precision format c args;
     let (format, t) = parse_type format;
     Some (format, c\<lparr>itype := t\<rparr>, args)
   }"

subsection \<open>Formatting\<close>

type_synonym 's sink = "char \<Rightarrow> 's \<Rightarrow> 's c_res"

fun output_dup :: "char \<Rightarrow> nat \<Rightarrow> 's sink \<Rightarrow> 's \<Rightarrow> 's c_res" where
  "output_dup ch 0 output aux = Some aux"
| "output_dup ch (Suc cnt) output aux = do { aux \<leftarrow> output ch aux; output_dup ch cnt output aux }"

text \<open>The characters of \<open>buf\<close> before \<open>cp\<close>; the array has 64.\<close>

definition put_buf :: "string \<Rightarrow> char \<Rightarrow> string c_res" where
  "put_buf buf ch = (if length buf < 64 then Some (buf @ [ch]) else None)"

partial_function (option) digit_loop :: "integer_base \<Rightarrow> bool \<Rightarrow> string \<Rightarrow> u64 \<Rightarrow> nat \<Rightarrow> string option" where
  [code]: "digit_loop b grouped buf v digit_cnt =
     (if v > 0 then do {
        buf \<leftarrow> (if grouped \<and> digit_cnt > 0 \<and> digit_cnt mod group b = 0 then put_buf buf (CHR '','') else Some buf);
        buf \<leftarrow> put_buf buf (digits b ! unat (v mod of_nat (base b)));
        digit_loop b grouped buf (v div of_nat (base b)) (digit_cnt + 1)
      } else Some buf)"

partial_function (option) zero_loop :: "string \<Rightarrow> int \<Rightarrow> string option" where
  [code]: "zero_loop buf prec =
     (if int (length buf) < prec \<and> length buf < 63 then do { buf \<leftarrow> put_buf buf (CHR ''0''); zero_loop buf prec } else Some buf)"

fun output_rev :: "string \<Rightarrow> 's sink \<Rightarrow> 's \<Rightarrow> 's c_res" where
  "output_rev [] output aux = Some aux"
| "output_rev (ch # buf) output aux = do { aux \<leftarrow> output_rev buf output aux; output ch aux }"

definition format_integer :: "u64 \<Rightarrow> bool \<Rightarrow> bool \<Rightarrow> integer_base \<Rightarrow> printf_conversion \<Rightarrow> 's sink \<Rightarrow> 's \<Rightarrow> 's c_res" where
  "format_integer v is_signed negative b c output aux = do {
     let sign = (if is_signed then
                   (if PLUS c then (if negative then CHR ''-'' else CHR ''+'')
                    else if SPACE c then (if negative then CHR ''-'' else CHR '' '')
                    else if negative then CHR ''-'' else NUL)
                 else NUL);
     let x = (if POUND c \<and> v \<noteq> 0 then xchar b else NUL);
     buf \<leftarrow> digit_loop b (GROUP c) [] v 0;
     let prec = (if precision c < 0 then 1 else precision c);
     buf \<leftarrow> zero_loop buf prec;
     buf \<leftarrow> (if POUND c \<and> base b = 8 \<and> (buf = [] \<or> last buf \<noteq> CHR ''0'') then put_buf buf (CHR ''0'') else Some buf);
     let pad_cnt = width c - int (length buf) - (if x \<noteq> NUL then 2 else 0) - (if sign \<noteq> NUL then 1 else 0);
     let pad_cnt = nat pad_cnt;
     aux \<leftarrow> (if \<not> MINUS c \<and> \<not> ZERO c then output_dup (CHR '' '') pad_cnt output aux else Some aux);
     aux \<leftarrow> (if sign \<noteq> NUL then output sign aux else Some aux);
     aux \<leftarrow> (if x \<noteq> NUL then do { aux \<leftarrow> output (CHR ''0'') aux; output x aux } else Some aux);
     aux \<leftarrow> (if ZERO c then output_dup (CHR ''0'') pad_cnt output aux else Some aux);
     aux \<leftarrow> output_rev buf output aux;
     if MINUS c then output_dup (CHR '' '') pad_cnt output aux else Some aux
   }"

fun output_all :: "string \<Rightarrow> 's sink \<Rightarrow> 's \<Rightarrow> 's c_res" where
  "output_all [] output aux = Some aux"
| "output_all (ch # s) output aux = do { aux \<leftarrow> output ch aux; output_all s output aux }"

definition format_string :: "string \<Rightarrow> printf_conversion \<Rightarrow> 's sink \<Rightarrow> 's \<Rightarrow> 's c_res" where
  "format_string s c output aux = do {
     aux \<leftarrow> (if width c > int (length s) \<and> \<not> MINUS c then output_dup (CHR '' '') (nat (width c - int (length s))) output aux else Some aux);
     aux \<leftarrow> output_all s output aux;
     if width c > int (length s) \<and> MINUS c then output_dup (CHR '' '') (nat (width c - int (length s))) output aux else Some aux
   }"

text \<open>The integer arguments of the conversions, as \<open>intmax_t\<close> and \<open>uintmax_t\<close>.\<close>

fun signed_arg :: "int_type \<Rightarrow> va list \<Rightarrow> (int \<times> va list) c_res" where
  "signed_arg CHAR' args = do { (w, args) \<leftarrow> va_32 args; Some (sint (ucast w :: u8), args) }"
| "signed_arg SHORT args = do { (w, args) \<leftarrow> va_32 args; Some (sint (ucast w :: u16), args) }"
| "signed_arg INT' args = do { (w, args) \<leftarrow> va_32 args; Some (sint w, args) }"
| "signed_arg INTMAX args = do { (w, args) \<leftarrow> va_64 args; Some (sint w, args) }"
| "signed_arg LONG args = do { (w, args) \<leftarrow> va_32 args; Some (sint w, args) }"
| "signed_arg LONGLONG args = do { (w, args) \<leftarrow> va_64 args; Some (sint w, args) }"
| "signed_arg PTRDIFFT args = do { (w, args) \<leftarrow> va_32 args; Some (sint w, args) }"
| "signed_arg SIZET args = do {
     (w, args) \<leftarrow> va_32 args;
     let v = uint w;
     Some (if v > (2 ^ 32 - 1) div 2 then v - (2 ^ 32 - 1) - 1 else v, args)
   }"

fun unsigned_arg :: "int_type \<Rightarrow> va list \<Rightarrow> (u64 \<times> va list) c_res" where
  "unsigned_arg CHAR' args = do { (w, args) \<leftarrow> va_32 args; Some (ucast (ucast w :: u8), args) }"
| "unsigned_arg SHORT args = do { (w, args) \<leftarrow> va_32 args; Some (ucast (ucast w :: u16), args) }"
| "unsigned_arg INT' args = do { (w, args) \<leftarrow> va_32 args; Some (ucast w, args) }"
| "unsigned_arg INTMAX args = do { (w, args) \<leftarrow> va_64 args; Some (w, args) }"
| "unsigned_arg LONG args = do { (w, args) \<leftarrow> va_32 args; Some (ucast w, args) }"
| "unsigned_arg LONGLONG args = do { (w, args) \<leftarrow> va_64 args; Some (w, args) }"
| "unsigned_arg PTRDIFFT args = do { (w, args) \<leftarrow> va_32 args; Some (and (scast w) (or (push_bit 1 (2 ^ 31 - 1)) 1), args) }"
| "unsigned_arg SIZET args = do { (w, args) \<leftarrow> va_32 args; Some (ucast w, args) }"

definition magnitude :: "int \<Rightarrow> u64 c_res" where
  "magnitude v = (if v < 0 then if v = - (2 ^ 63) then None else Some (of_int (- v)) else Some (of_int v))"

fun strnlen_str :: "string \<Rightarrow> nat \<Rightarrow> nat" where
  "strnlen_str (ch # s) n = (if n > 0 then Suc (strnlen_str s (n - 1)) else 0)"
| "strnlen_str [] n = 0"

definition base_of :: "char \<Rightarrow> integer_base" where
  "base_of ch = (if ch = CHR ''o'' then base_o else if ch = CHR ''u'' then base_d else if ch = CHR ''x'' then base_x else base_X)"

text \<open>One conversion, with the arguments that are left; \<open>again\<close> is \<open>__printf\<close>, for the messages about unknown conversions.\<close>

definition convert :: "(string \<Rightarrow> va list \<Rightarrow> 's \<Rightarrow> 's c_res) \<Rightarrow> char \<Rightarrow> printf_conversion \<Rightarrow> va list \<Rightarrow> 's sink \<Rightarrow> 's \<Rightarrow> (va list \<times> 's) c_res" where
  "convert again ch c args output aux =
     (if ch = CHR ''d'' \<or> ch = CHR ''i'' then do {
        (v, args) \<leftarrow> signed_arg (itype c) args;
        u \<leftarrow> magnitude v;
        aux \<leftarrow> format_integer u True (v < 0) base_d c output aux;
        Some (args, aux)
      }
      else if ch = CHR ''o'' \<or> ch = CHR ''u'' \<or> ch = CHR ''x'' \<or> ch = CHR ''X'' then do {
        (v, args) \<leftarrow> unsigned_arg (itype c) args;
        aux \<leftarrow> format_integer v False False (base_of ch) c output aux;
        Some (args, aux)
      }
      else if ch = CHR ''c'' then do {
        (w, args) \<leftarrow> va_32 args;
        aux \<leftarrow> format_string [char_of (unat w)] c output aux;
        Some (args, aux)
      }
      else if ch = CHR ''s'' then do {
        (s, args) \<leftarrow> va_str args;
        let s = (case s of None \<Rightarrow> ''(null)'' | Some s \<Rightarrow> s);
        aux \<leftarrow> format_string (take (strnlen_str s (unat (of_int (precision c) :: u32))) s) c output aux;
        Some (args, aux)
      }
      else if ch = CHR ''p'' then do {
        (p, args) \<leftarrow> va_32 args;
        let c = c\<lparr>MINUS := False, PLUS := False, SPACE := False, POUND := True, ZERO := False, GROUP := False\<rparr>;
        aux \<leftarrow> format_integer (ucast p) False False base_x c output aux;
        Some (args, aux)
      }
      else if ch = CHR ''f'' \<or> ch = CHR ''e'' \<or> ch = CHR ''E'' \<or> ch = CHR ''g'' \<or> ch = CHR ''G'' \<or> ch = CHR ''n'' then do {
        aux \<leftarrow> again ''<<no %%%c in kernel>>'' [A32 (of_int (schar ch))] aux;
        Some (args, aux)
      }
      else do {
        aux \<leftarrow> again ''<<no %%%c conversion>>'' [A32 (of_int (schar ch))] aux;
        Some (args, aux)
      })"

lemma convert_mono [partial_function_mono]:
  assumes "\<And>format as aux. mono_option (\<lambda>f. again f format as aux)"
  shows "mono_option (\<lambda>f. convert (again f) ch c args output aux)"
  unfolding convert_def using assms by (intro partial_function_mono) auto

partial_function (option) do_vprintf :: "'s sink \<Rightarrow> string \<Rightarrow> va list \<Rightarrow> 's \<Rightarrow> 's option" where
  [code]: "do_vprintf output format args aux =
     (if deref format = NUL then Some aux
      else if deref format \<noteq> CHR ''%'' then do { aux \<leftarrow> output (deref format) aux; format \<leftarrow> advance format; do_vprintf output format args aux }
      else do {
        format \<leftarrow> advance format;
        if deref format = CHR ''%'' then do { aux \<leftarrow> output (CHR ''%'') aux; format \<leftarrow> advance format; do_vprintf output format args aux }
        else do {
          (format, c, args) \<leftarrow> parse_conversion format args;
          (args, aux) \<leftarrow> convert (do_vprintf output) (deref format) c args output aux;
          format \<leftarrow> advance format;
          do_vprintf output format args aux
        }
      })"

subsection \<open>Output to a buffer\<close>

record vsnprintf_aux =
  vs_p :: u32
  vs_length :: int
  vs_max_length :: int
  vs_mem :: mem

definition vsnprintf_helper :: "vsnprintf_aux sink" where
  "vsnprintf_helper ch aux = do {
     len \<leftarrow> int_res (vs_length aux + 1);
     Some (if vs_length aux < vs_max_length aux
           then aux\<lparr>vs_length := len, vs_mem := (vs_mem aux)(vs_p aux := of_char ch), vs_p := vs_p aux + 1\<rparr>
           else aux\<lparr>vs_length := len\<rparr>)
   }"

definition vsnprintf :: "mem \<Rightarrow> u32 \<Rightarrow> u32 \<Rightarrow> string \<Rightarrow> va list \<Rightarrow> (int \<times> mem) c_res" where
  "vsnprintf m buffer buf_size format args = do {
     let aux = \<lparr>vs_p = buffer, vs_length = 0, vs_max_length = (if buf_size > 0 then sint (buf_size - 1) else 0), vs_mem = m\<rparr>;
     aux \<leftarrow> do_vprintf vsnprintf_helper format args aux;
     let m = (if buf_size > 0 then (vs_mem aux)(vs_p aux := 0) else vs_mem aux);
     Some (vs_length aux, m)
   }"

definition snprintf :: "mem \<Rightarrow> u32 \<Rightarrow> u32 \<Rightarrow> string \<Rightarrow> va list \<Rightarrow> (int \<times> mem) c_res" where
  "snprintf m buffer buf_size format args = vsnprintf m buffer buf_size format args"

subsection \<open>What the conversions print\<close>

lemma output_all_append: "output_all (s @ t) output aux = do { aux \<leftarrow> output_all s output aux; output_all t output aux }"
  by (induction s arbitrary: aux) (auto intro: Option.bind_cong)

lemma output_dup_all: "output_dup ch n output aux = output_all (replicate n ch) output aux"
  by (induction n arbitrary: aux) (auto intro: Option.bind_cong)

lemma output_all_none [simp]: "output_all [] output = Some"
  by (rule ext) simp

lemma output_all_one [simp]: "output_all [ch] output = output ch"
  by (rule ext) simp

lemma output_rev_all: "output_rev buf output aux = output_all (rev buf) output aux"
  by (induction buf) (auto simp: output_all_append)

text \<open>The digits of a number, the last one first, and the separators between groups of digits.\<close>

fun num_digits :: "nat \<Rightarrow> nat \<Rightarrow> nat list" where
  "num_digits b n = (if n = 0 \<or> b < 2 then [] else n mod b # num_digits b (n div b))"

declare num_digits.simps [simp del]

fun commas :: "nat \<Rightarrow> nat \<Rightarrow> string \<Rightarrow> string" where
  "commas g i [] = []"
| "commas g i (ch # s) = (if i > 0 \<and> i mod g = 0 then [CHR '','', ch] else [ch]) @ commas g (Suc i) s"

lemma commas_length: "length (commas g i s) \<le> 2 * length s"
  by (induction s arbitrary: i) (auto intro: le_SucI)

lemma num_digits_length: "n < b ^ k \<Longrightarrow> length (num_digits b n) \<le> k"
proof (induction k arbitrary: n)
  case (Suc k)
  then have "n div b < b ^ k" if "b \<ge> 2" using that by (simp add: less_mult_imp_div_less mult.commute)
  then show ?case using Suc.IH [of "n div b"] by (subst num_digits.simps) auto
qed (simp add: num_digits.simps)

lemma num_digits_value: "b \<ge> 2 \<Longrightarrow> foldr (\<lambda>d v. d + b * v) (num_digits b n) 0 = n"
  by (induction b n rule: num_digits.induct) (subst num_digits.simps, auto)

definition known_base :: "integer_base \<Rightarrow> bool" where
  "known_base b \<longleftrightarrow> b = base_d \<or> b = base_o \<or> b = base_x \<or> b = base_X"

lemma known_base_facts:
  assumes "known_base b"
  shows "2 \<le> base b" "base b < 2 ^ 64" "length (num_digits (base b) (unat (v :: u64))) \<le> 22"
proof -
  have "unat v < 8 ^ 22" using unsigned_less [of v, where 'a = nat] by simp
  moreover have "(8 :: nat) ^ 22 \<le> base b ^ 22" using assms by (intro power_mono) (auto simp: known_base_def base_d_def base_o_def base_x_def base_X_def)
  ultimately show "length (num_digits (base b) (unat v)) \<le> 22" by (intro num_digits_length) linarith
qed (use assms in \<open>auto simp: known_base_def base_d_def base_o_def base_x_def base_X_def\<close>)

definition digit_text :: "integer_base \<Rightarrow> bool \<Rightarrow> nat \<Rightarrow> nat \<Rightarrow> string" where
  "digit_text b grouped i n = (let ds = map (nth (digits b)) (num_digits (base b) n) in if grouped then commas (group b) i ds else ds)"

lemma digit_loop_spec:
  assumes b: "2 \<le> base b" "base b < 2 ^ 64"
  shows "length buf + 2 * length (num_digits (base b) (unat v)) \<le> 64 \<Longrightarrow> digit_loop b gr buf v i = Some (buf @ digit_text b gr i (unat v))"
proof (induction "unat v" arbitrary: v buf i rule: less_induct)
  case less
  show ?case
  proof (cases "v = 0")
    case True
    then show ?thesis by (subst digit_loop.simps) (simp add: digit_text_def num_digits.simps)
  next
    case False
    let ?d = "digits b ! (unat v mod base b)" and ?v = "v div of_nat (base b)"
    have u: "unat (of_nat (base b) :: u64) = base b" using b(2) by (intro unat_of_nat_u64) simp
    have q: "unat ?v = unat v div base b" "unat (v mod of_nat (base b)) = unat v mod base b" using u by (simp_all add: unat_div unat_mod)
    have pos: "0 < unat v" using False by (simp add: unat_gt_0)
    have nd: "num_digits (base b) (unat v) = unat v mod base b # num_digits (base b) (unat ?v)" using pos b(1) q by (subst num_digits.simps) simp
    have lt: "unat ?v < unat v" using pos b(1) q by simp
    let ?sep = "gr \<and> i > 0 \<and> i mod group b = 0"
    let ?buf = "buf @ (if ?sep then [CHR '','', ?d] else [?d])"
    have len: "length buf + 2 + 2 * length (num_digits (base b) (unat ?v)) \<le> 64" using less.prems nd by simp
    have "digit_loop b gr buf v i = digit_loop b gr ?buf ?v (i + 1)"
      using len False q(2) by (subst digit_loop.simps) (simp add: put_buf_def word_gt_0)
    also have "... = Some (?buf @ digit_text b gr (i + 1) (unat ?v))" using lt len by (intro less.hyps) simp_all
    also have "?buf @ digit_text b gr (i + 1) (unat ?v) = buf @ digit_text b gr i (unat v)" using nd by (simp add: digit_text_def Let_def)
    finally show ?thesis .
  qed
qed

lemma zero_loop_spec: "length buf \<le> 63 \<Longrightarrow> zero_loop buf prec = Some (buf @ replicate (nat (min prec 63) - length buf) (CHR ''0''))"
proof (induction "63 - length buf" arbitrary: buf)
  case 0
  then show ?case by (subst zero_loop.simps) simp
next
  case (Suc k)
  show ?case
  proof (cases "int (length buf) < prec")
    case True
    have "zero_loop (buf @ ''0'') prec = Some ((buf @ ''0'') @ replicate (nat (min prec 63) - length (buf @ ''0'')) (CHR ''0''))"
      using Suc by (intro Suc.hyps(1)) simp_all
    moreover have "nat (min prec 63) - length buf = Suc (nat (min prec 63) - length (buf @ ''0''))" using True Suc(2) by simp
    ultimately show ?thesis using True Suc(2) by (subst zero_loop.simps) (simp add: put_buf_def)
  qed (subst zero_loop.simps, simp)
qed

definition sign_char :: "bool \<Rightarrow> bool \<Rightarrow> printf_conversion \<Rightarrow> string" where
  "sign_char is_signed negative c =
     (if \<not> is_signed then '''' else if negative then ''-'' else if PLUS c then ''+'' else if SPACE c then '' '' else '''')"

definition hex_prefix :: "u64 \<Rightarrow> integer_base \<Rightarrow> printf_conversion \<Rightarrow> string" where
  "hex_prefix v b c = (if POUND c \<and> v \<noteq> 0 \<and> xchar b \<noteq> NUL then [CHR ''0'', xchar b] else [])"

text \<open>The digits with the zeros that the precision and the flag for octal numbers ask for, the last one first.\<close>

definition padded_digits :: "u64 \<Rightarrow> integer_base \<Rightarrow> printf_conversion \<Rightarrow> string" where
  "padded_digits v b c =
     (let ds = digit_text b (GROUP c) 0 (unat v);
          ds = ds @ replicate (nat (min (if precision c < 0 then 1 else precision c) 63) - length ds) (CHR ''0'')
      in if POUND c \<and> base b = 8 \<and> (ds = [] \<or> last ds \<noteq> CHR ''0'') then ds @ ''0'' else ds)"

definition justified :: "printf_conversion \<Rightarrow> string \<Rightarrow> string \<Rightarrow> string" where
  "justified c pre s =
     (let n = nat (width c) - length pre - length s
      in if MINUS c then pre @ (if ZERO c then replicate n (CHR ''0'') else []) @ s @ replicate n (CHR '' '')
         else if ZERO c then pre @ replicate n (CHR ''0'') @ s else replicate n (CHR '' '') @ pre @ s)"

definition int_text :: "u64 \<Rightarrow> bool \<Rightarrow> bool \<Rightarrow> integer_base \<Rightarrow> printf_conversion \<Rightarrow> string" where
  "int_text v is_signed negative b c = justified c (sign_char is_signed negative c @ hex_prefix v b c) (rev (padded_digits v b c))"

text \<open>An integer conversion returns for every value and every conversion, so its buffer of 64 characters is large enough.\<close>

lemma format_integer_spec:
  assumes "known_base b"
  shows "format_integer v is_signed negative b c output aux = output_all (int_text v is_signed negative b c) output aux"
proof -
  note b = known_base_facts [OF assms]
  let ?ds = "digit_text b (GROUP c) 0 (unat v)"
  let ?zs = "?ds @ replicate (nat (min (if precision c < 0 then 1 else precision c) 63) - length ?ds) (CHR ''0'')"
  have "length ?ds \<le> 44" using b(3) [of v] commas_length [of "group b" 0 "map (nth (digits b)) (num_digits (base b) (unat v))"]
    by (auto simp: digit_text_def Let_def)
  then have l: "length ?ds \<le> 63" "length ?zs < 64" by auto
  have d: "digit_loop b (GROUP c) [] v 0 = Some ?ds" using b(3) [of v] digit_loop_spec [OF b(1,2), of "[]" v "GROUP c" 0] by simp
  note z = zero_loop_spec [OF l(1), of "if precision c < 0 then 1 else precision c"]
  have p: "(if POUND c \<and> base b = 8 \<and> (?zs = [] \<or> last ?zs \<noteq> CHR ''0'') then put_buf ?zs (CHR ''0'') else Some ?zs) = Some (padded_digits v b c)"
    unfolding padded_digits_def Let_def put_buf_def if_P [OF l(2)] by (simp only: if_distrib [of Some])
  let ?sign = "if is_signed then (if PLUS c then (if negative then CHR ''-'' else CHR ''+'')
    else if SPACE c then (if negative then CHR ''-'' else CHR '' '') else if negative then CHR ''-'' else NUL) else NUL"
  let ?x = "if POUND c \<and> v \<noteq> 0 then xchar b else NUL"
  have sg: "(if ?sign \<noteq> NUL then output ?sign aux else Some aux) = output_all (sign_char is_signed negative c) output aux" for aux
    by (simp add: sign_char_def)
  have xp: "(if ?x \<noteq> NUL then do { aux \<leftarrow> output (CHR ''0'') aux; output ?x aux } else Some aux) = output_all (hex_prefix v b c) output aux" for aux
    by (simp add: hex_prefix_def)
  have n: "nat (width c - int (length ds) - (if ?x \<noteq> NUL then 2 else 0) - (if ?sign \<noteq> NUL then 1 else 0))
      = nat (width c) - length (sign_char is_signed negative c @ hex_prefix v b c) - length ds" for ds
    by (auto simp: sign_char_def hex_prefix_def nat_diff_distrib')
  show ?thesis
    unfolding format_integer_def Let_def d z bind.bind_lunit p sg xp n
    by (simp add: int_text_def justified_def output_dup_all output_rev_all output_all_append Let_def)
qed

lemma format_string_spec: "format_string s c output aux = output_all (justified (c\<lparr>ZERO := False\<rparr>) [] s) output aux"
  by (auto simp: format_string_def justified_def output_dup_all output_all_append Let_def nat_diff_distrib')

text \<open>The field is filled up to the width.\<close>

lemma justified_length: "\<not> (MINUS c \<and> ZERO c) \<Longrightarrow> length (justified c pre s) = max (nat (width c)) (length pre + length s)"
  by (auto simp: justified_def Let_def)

subsection \<open>Reading conversions\<close>

lemma of_char_less: "(of_char ch :: nat) < 256"
proof -
  have "(of_char ch :: nat) mod 256 = of_char ch" by simp
  then show ?thesis using mod_less_divisor [of 256 "of_char ch"] by simp
qed

lemma isdigit_is_digit: "isdigit (schar ch) \<longleftrightarrow> is_digit ch"
proof -
  have i: "(of_char ch :: int) = int (of_char ch)" by (simp add: of_nat_of_char)
  define n where "n = (of_char ch :: nat)"
  have "schar ch = (if n < 128 then int n else int n - 256)" unfolding schar_def Let_def i n_def by simp
  then show ?thesis unfolding isdigit_def is_digit_def n_def [symmetric] using of_char_less [of ch, folded n_def] by auto
qed

lemma schar_digit: "d < 10 \<Longrightarrow> schar (digit_char d) = 48 + int d"
proof -
  assume d: "d < 10"
  have "(of_char (digit_char d) :: int) = int (of_char (digit_char d))" by (simp add: of_nat_of_char)
  then show ?thesis using d by (simp add: schar_def digit_char_def)
qed

lemma parse_number_dec: "n < 2147483600 \<Longrightarrow> parse_number (dec n @ rest) 0 = parse_number rest (int n)"
proof (induction n arbitrary: rest rule: dec.induct)
  case (1 n)
  have d: "isdigit (schar (digit_char k))" "schar (digit_char k) = 48 + int k" if "k < 10" for k
    using that by (simp add: isdigit_is_digit is_digit_char, simp add: schar_digit)
  show ?case
  proof (cases "n < 10")
    case True
    then show ?thesis using d [OF True] by (simp add: dec.simps [of n] int_res_def)
  next
    case False
    have "int n = int (n div 10) * 10 + int (n mod 10)" by (simp add: zdiv_int zmod_int)
    then show ?thesis using False 1 d [of "n mod 10"] by (simp add: dec.simps [of n] int_res_def)
  qed
qed

lemma hd_dec: "0 < n \<Longrightarrow> is_digit (hd (dec n)) \<and> hd (dec n) \<noteq> CHR ''0''"
proof (induction n rule: dec.induct)
  case (1 n)
  show ?case
  proof (cases "n < 10")
    case True
    have "schar (digit_char n) \<noteq> schar (CHR ''0'')" using True 1(2) by (subst schar_digit) (simp_all add: schar_def)
    then show ?thesis using True by (auto simp: dec.simps [of n] is_digit_char)
  next
    case False
    then show ?thesis using 1 by (simp add: dec.simps [of n])
  qed
qed

text \<open>The text of a conversion.\<close>

definition flag_text :: "printf_conversion \<Rightarrow> string" where
  "flag_text c = (if MINUS c then ''-'' else []) @ (if PLUS c then ''+'' else []) @ (if SPACE c then '' '' else [])
     @ (if POUND c then ''#'' else []) @ (if ZERO c then ''0'' else []) @ (if GROUP c then [CHR 0x27] else [])"

definition width_text :: "printf_conversion \<Rightarrow> string" where
  "width_text c = (if width c > 0 then dec (nat (width c)) else [])"

definition precision_text :: "printf_conversion \<Rightarrow> string" where
  "precision_text c = (if precision c \<ge> 0 then CHR ''.'' # dec (nat (precision c)) else [])"

fun type_text :: "int_type \<Rightarrow> string" where
  "type_text CHAR' = ''hh''"
| "type_text SHORT = ''h''"
| "type_text INT' = []"
| "type_text INTMAX = ''j''"
| "type_text LONG = ''l''"
| "type_text LONGLONG = ''ll''"
| "type_text PTRDIFFT = ''t''"
| "type_text SIZET = ''z''"

definition conv_text :: "printf_conversion \<Rightarrow> string" where
  "conv_text c = flag_text c @ width_text c @ precision_text c @ type_text (itype c)"

text \<open>Conversions as the parser makes them: some flags override others, and numbers are not too large for its arithmetic.\<close>

definition conv_ok :: "printf_conversion \<Rightarrow> bool" where
  "conv_ok c \<longleftrightarrow> \<not> (MINUS c \<and> ZERO c) \<and> \<not> (PLUS c \<and> SPACE c) \<and> \<not> (precision c \<ge> 0 \<and> ZERO c)
     \<and> 0 \<le> width c \<and> width c < 2147483600 \<and> -1 \<le> precision c \<and> precision c < 2147483600"

definition flag_chars :: string where
  "flag_chars = ''-+ #0'' @ [CHR 0x27]"

lemma parse_flags_stop: "deref f \<notin> set flag_chars \<Longrightarrow> parse_flags f c = (f, c)"
  by (cases f) (auto simp: deref_def flag_chars_def)

lemma parse_flags_text:
  assumes "deref rest \<notin> set flag_chars"
  shows "parse_flags (flag_text c @ rest) no_flags = (rest, c\<lparr>width := 0, precision := -1, itype := INT'\<rparr>)"
  using parse_flags_stop [OF assms] by (cases c) (auto simp: flag_text_def no_flags_def)

lemma parse_number_stop: "\<not> is_digit (deref f) \<Longrightarrow> parse_number f n = Some (f, n)"
  by (cases f) (auto simp: deref_def isdigit_is_digit)

lemma parse_width_text:
  assumes "0 \<le> width c" "width c < 2147483600" "\<not> is_digit (deref rest)" "deref rest \<noteq> CHR ''*''"
  shows "parse_width (width_text c @ rest) c' args = Some (rest, c'\<lparr>width := width c\<rparr>, args)"
proof (cases "width c > 0")
  case True
  have "is_digit (deref (dec (nat (width c)) @ rest))" using hd_dec [of "nat (width c)"] True by (cases "dec (nat (width c))") (auto simp: deref_def)
  then have "deref (dec (nat (width c)) @ rest) \<noteq> CHR ''*''" by (auto simp: is_digit_def)
  then show ?thesis using True assms parse_number_dec [of "nat (width c)" rest] parse_number_stop [OF assms(3)]
    by (simp add: parse_width_def width_text_def)
next
  case False
  then show ?thesis using assms parse_number_stop [OF assms(3)] by (simp add: parse_width_def width_text_def)
qed

lemma parse_precision_text:
  assumes "-1 \<le> precision c" "precision c < 2147483600" "\<not> is_digit (deref rest)" "deref rest \<noteq> CHR ''.''"
  shows "parse_precision (precision_text c @ rest) c' args
    = Some (rest, if precision c \<ge> 0 then c'\<lparr>precision := precision c, ZERO := False\<rparr> else c'\<lparr>precision := precision c\<rparr>, args)"
proof (cases "precision c \<ge> 0")
  case True
  have "is_digit (deref (dec (nat (precision c)) @ rest))"
    using dec_digits [of "nat (precision c)"] dec_not_Nil [of "nat (precision c)"] by (cases "dec (nat (precision c))") (auto simp: deref_def)
  then have "deref (dec (nat (precision c)) @ rest) \<noteq> CHR ''*''" by (auto simp: is_digit_def)
  then show ?thesis using True assms parse_number_dec [of "nat (precision c)" rest] parse_number_stop [OF assms(3)]
    by (simp add: parse_precision_def precision_text_def advance_def Let_def) (simp add: deref_def)
next
  case False
  then have "precision c = -1" using assms(1) by simp
  then show ?thesis using assms by (simp add: parse_precision_def precision_text_def Let_def)
qed

lemma parse_type_text: "ch \<notin> set ''hjltz'' \<Longrightarrow> parse_type (type_text t @ ch # rest) = (ch # rest, t)"
  by (cases t) (auto simp: parse_type_def)

text \<open>Every conversion that is written as text is read back.\<close>

lemma parse_conversion_text:
  assumes c: "conv_ok c" and ch: "ch \<in> set ''diouxXcsp''"
  shows "parse_conversion (conv_text c @ ch # rest) args = Some (ch # rest, c, args)"
proof -
  let ?t = "type_text (itype c) @ ch # rest"
  have t: "\<not> is_digit (deref ?t)" "deref ?t \<noteq> CHR ''.''" "deref ?t \<noteq> CHR ''*''" "deref ?t \<notin> set flag_chars"
    using ch by (cases "itype c"; auto simp: deref_def is_digit_def flag_chars_def)+
  let ?p = "precision_text c @ ?t"
  have p: "\<not> is_digit (deref ?p)" "deref ?p \<noteq> CHR ''*''" "deref ?p \<notin> set flag_chars"
    using t by (auto simp: precision_text_def deref_def is_digit_def flag_chars_def)
  have "deref (width_text c @ ?p) \<notin> set flag_chars"
  proof (cases "width c > 0")
    case True
    have "deref (width_text c @ ?p) = hd (dec (nat (width c)))" using True by (cases "dec (nat (width c))") (auto simp: width_text_def deref_def)
    then show ?thesis using hd_dec [of "nat (width c)"] True by (auto simp: flag_chars_def is_digit_def)
  qed (use p in \<open>simp add: width_text_def\<close>)
  note f = parse_flags_text [OF this, of c]
  have w: "0 \<le> width c" "width c < 2147483600" "-1 \<le> precision c" "precision c < 2147483600" using c by (simp_all add: conv_ok_def)
  note steps = f parse_width_text [OF w(1,2) p(1,2)] parse_precision_text [OF w(3,4) t(1,2)]
  have "ch \<notin> set ''hjltz''" using ch by auto
  then show ?thesis using c w(3) steps parse_type_text [of ch "itype c" rest]
    by (cases c) (auto simp: parse_conversion_def conv_text_def conv_ok_def Let_def)
qed

subsection \<open>Formats as sequences of pieces\<close>

datatype piece =
    Lit string
  | Percent
  | Signed printf_conversion int
  | Unsigned printf_conversion char u64
  | Chr printf_conversion char
  | Str printf_conversion u32 string
  | Ptr printf_conversion u32

fun wide :: "int_type \<Rightarrow> bool" where
  "wide INTMAX = True"
| "wide LONGLONG = True"
| "wide _ = False"

fun type_bits :: "int_type \<Rightarrow> nat" where
  "type_bits CHAR' = 8"
| "type_bits SHORT = 16"
| "type_bits INTMAX = 64"
| "type_bits LONGLONG = 64"
| "type_bits _ = 32"

fun piece_ok :: "piece \<Rightarrow> bool" where
  "piece_ok (Lit s) \<longleftrightarrow> is_cstr s \<and> CHR ''%'' \<notin> set s"
| "piece_ok Percent \<longleftrightarrow> True"
| "piece_ok (Signed c v) \<longleftrightarrow> conv_ok c \<and> - (2 ^ (type_bits (itype c) - 1)) \<le> v \<and> v < 2 ^ (type_bits (itype c) - 1) \<and> v \<noteq> - (2 ^ 63)"
| "piece_ok (Unsigned c ch v) \<longleftrightarrow> conv_ok c \<and> ch \<in> set ''ouxX'' \<and> unat v < 2 ^ type_bits (itype c)"
| "piece_ok (Chr c ch) \<longleftrightarrow> conv_ok c"
| "piece_ok (Str c a s) \<longleftrightarrow> conv_ok c \<and> is_cstr s \<and> length s < 2 ^ 31"
| "piece_ok (Ptr c p) \<longleftrightarrow> conv_ok c"

fun piece_format :: "piece \<Rightarrow> string" where
  "piece_format (Lit s) = s"
| "piece_format Percent = ''%%''"
| "piece_format (Signed c v) = CHR ''%'' # conv_text c @ ''d''"
| "piece_format (Unsigned c ch v) = CHR ''%'' # conv_text c @ [ch]"
| "piece_format (Chr c ch) = CHR ''%'' # conv_text c @ ''c''"
| "piece_format (Str c a s) = CHR ''%'' # conv_text c @ ''s''"
| "piece_format (Ptr c p) = CHR ''%'' # conv_text c @ ''p''"

fun piece_args :: "piece \<Rightarrow> va list" where
  "piece_args (Lit s) = []"
| "piece_args Percent = []"
| "piece_args (Signed c v) = [if wide (itype c) then A64 (of_int v) else A32 (of_int v)]"
| "piece_args (Unsigned c ch v) = [if wide (itype c) then A64 v else A32 (ucast v)]"
| "piece_args (Chr c ch) = [A32 (of_char ch)]"
| "piece_args (Str c a s) = [APtr a s]"
| "piece_args (Ptr c p) = [A32 p]"

fun piece_text :: "piece \<Rightarrow> string" where
  "piece_text (Lit s) = s"
| "piece_text Percent = ''%''"
| "piece_text (Signed c v) = int_text (of_int \<bar>v\<bar>) True (v < 0) base_d c"
| "piece_text (Unsigned c ch v) = int_text v False False (base_of ch) c"
| "piece_text (Chr c ch) = justified (c\<lparr>ZERO := False\<rparr>) [] [ch]"
| "piece_text (Str c a s) =
     (let t = (if a = 0 then ''(null)'' else s)
      in justified (c\<lparr>ZERO := False\<rparr>) [] (if precision c < 0 then t else take (nat (precision c)) t))"
| "piece_text (Ptr c p) = int_text (ucast p) False False base_x (c\<lparr>MINUS := False, PLUS := False, SPACE := False, POUND := True, ZERO := False, GROUP := False\<rparr>)"

lemma known_bases [simp]: "known_base base_d" "known_base base_o" "known_base base_x" "known_base base_X" "known_base (base_of ch)"
  by (simp_all add: known_base_def base_of_def)

lemma sint_of_int_range: "- (2 ^ (LENGTH('a) - 1)) \<le> v \<Longrightarrow> v < 2 ^ (LENGTH('a) - 1) \<Longrightarrow> sint (of_int v :: 'a::len word) = v"
  by (simp add: sint_sbintrunc' signed_take_bit_int_eq_self)

lemma ucast_int: "(ucast (word_of_int k :: u32) :: u8) = word_of_int k" "(ucast (word_of_int k :: u32) :: u16) = word_of_int k"
  by (simp_all add: unsigned_of_int word_of_int_eq_iff)

lemma signed_arg_piece:
  assumes "piece_ok (Signed c v)"
  shows "signed_arg (itype c) (piece_args (Signed c v) @ args) = Some (v, args)"
proof -
  have s8: "sint (ucast (of_int v :: u32) :: u8) = v" if "-128 \<le> v" "v < 128" using sint_of_int_range [where 'a = 8, of v] that by (simp add: ucast_int)
  have s16: "sint (ucast (of_int v :: u32) :: u16) = v" if "-32768 \<le> v" "v < 32768" using sint_of_int_range [where 'a = 16, of v] that by (simp add: ucast_int)
  have s32: "sint (of_int v :: u32) = v" if "-2147483648 \<le> v" "v < 2147483648" using sint_of_int_range [where 'a = 32, of v] that by simp
  have s64: "sint (of_int v :: u64) = v" if "-9223372036854775808 \<le> v" "v < 9223372036854775808" using sint_of_int_range [where 'a = 64, of v] that by simp
  have uz: "uint (of_int v :: u32) = (if v < 0 then v + 4294967296 else v)" if "-2147483648 \<le> v" "v < 2147483648"
  proof (cases "v < 0")
    case True
    have "v mod 4294967296 = (v + 4294967296) mod 4294967296" by simp
    also have "... = v + 4294967296" using that True by (intro mod_pos_pos_trivial) simp_all
    finally show ?thesis using True by (simp add: uint_word_of_int)
  qed (use that in \<open>simp add: uint_word_of_int mod_pos_pos_trivial\<close>)
  show ?thesis
  proof (cases "itype c")
    case SIZET
    then show ?thesis using assms uz by (simp add: Let_def)
  qed (use assms s8 s16 s32 s64 in simp_all)
qed

lemma unsigned_arg_piece:
  assumes "piece_ok (Unsigned c ch v)"
  shows "unsigned_arg (itype c) (piece_args (Unsigned c ch v) @ args) = Some (v, args)"
proof -
  have u: "unat v < 2 ^ k \<Longrightarrow> take_bit k v = v" for k by (simp add: word_unat_eq_iff unsigned_take_bit_eq take_bit_nat_eq_self)
  have b: "bit v n \<Longrightarrow> n < k" if "take_bit k v = v" for n k using bit_take_bit_iff [of k v n] that by simp
  have c8: "ucast (ucast (ucast v :: u32) :: u8) = v" if "unat v < 2 ^ 8"
    by (intro bit_word_eqI) (auto simp: bit_simps dest: b [OF u [OF that]])
  have c16: "ucast (ucast (ucast v :: u32) :: u16) = v" if "unat v < 2 ^ 16"
    by (intro bit_word_eqI) (auto simp: bit_simps dest: b [OF u [OF that]])
  have c32: "ucast (ucast v :: u32) = v" if "unat v < 2 ^ 32"
    by (intro bit_word_eqI) (auto simp: bit_simps dest: b [OF u [OF that]])
  have m: "(or (push_bit 1 (2 ^ 31 - 1)) 1 :: u64) = mask 32" by (simp add: mask_eq_exp_minus_1)
  have cp: "and (scast (ucast v :: u32)) (or (push_bit 1 (2 ^ 31 - 1)) 1) = v" if "unat v < 2 ^ 32"
    unfolding m
  proof (rule bit_word_eqI)
    show "bit (and (scast (ucast v :: u32)) (mask 32) :: u64) n = bit v n" if "n < LENGTH(64)" for n
    proof (cases "n < 32")
      case True
      then have "min 31 n = n" by simp
      then show ?thesis using True by (simp add: bit_simps)
    next
      case False
      then show ?thesis using b [OF u [OF \<open>unat v < 2 ^ 32\<close>], of n] by (auto simp: bit_simps)
    qed
  qed
  show ?thesis
  proof (cases "itype c")
    case PTRDIFFT
    then show ?thesis using assms cp by simp
  qed (use assms c8 c16 c32 in simp_all)
qed

lemma strnlen_str_min: "strnlen_str s n = min (length s) n"
  by (induction s n rule: strnlen_str.induct) auto

lemma take_precision:
  assumes "-1 \<le> precision c" "precision c < 2147483600" "length s < 2 ^ 31"
  shows "take (strnlen_str s (unat (of_int (precision c) :: u32))) s = (if precision c < 0 then s else take (nat (precision c)) s)"
proof (cases "precision c < 0")
  case True
  then have "precision c = -1" using assms(1) by simp
  moreover have "unat (-1 :: u32) = 2 ^ 32 - 1" using unat_pred_zero by simp
  ultimately show ?thesis using True assms(3) by (simp add: strnlen_str_min)
next
  case False
  have "unat (of_int (precision c) :: u32) = nat (precision c)"
    using False assms(2) by (simp add: unat_eq_nat_uint uint_word_of_int mod_pos_pos_trivial)
  then show ?thesis using False by (simp add: strnlen_str_min min_def)
qed

lemma magnitude_piece: "v \<noteq> - (2 ^ 63) \<Longrightarrow> magnitude v = Some (of_int \<bar>v\<bar>)"
  by (simp add: magnitude_def)

lemma deref_Cons [simp]: "deref (ch # f) = ch" "deref [] = NUL"
  by (simp_all add: deref_def)

lemma advance_Cons [simp]: "advance (ch # f) = Some f" "advance [] = None"
  by (simp_all add: advance_def)

text \<open>A conversion does not begin with a second percent sign.\<close>

lemma conv_text_first: "ch \<in> set ''diouxXcsp'' \<Longrightarrow> deref (conv_text c @ ch # rest) \<noteq> CHR ''%''"
proof -
  assume ch: "ch \<in> set ''diouxXcsp''"
  have w: "deref (dec n @ t) \<noteq> CHR ''%''" for n t
    using dec_digits [of n] dec_not_Nil [of n] by (cases "dec n") (auto simp: is_digit_def)
  show ?thesis using ch w by (cases "itype c") (auto simp: conv_text_def flag_text_def width_text_def precision_text_def)
qed

lemma do_vprintf_lit:
  "is_cstr s \<Longrightarrow> CHR ''%'' \<notin> set s \<Longrightarrow>
    do_vprintf output (s @ rest) args aux = do { aux \<leftarrow> output_all s output aux; do_vprintf output rest args aux }"
proof (induction s arbitrary: aux)
  case (Cons ch s)
  then show ?case by (subst do_vprintf.simps) (auto intro: Option.bind_cong)
qed simp

lemma do_vprintf_piece:
  assumes "piece_ok x"
  shows "do_vprintf output (piece_format x @ rest) (piece_args x @ args) aux
    = do { aux \<leftarrow> output_all (piece_text x) output aux; do_vprintf output rest args aux }"
proof (cases x)
  case (Lit s)
  then show ?thesis using assms do_vprintf_lit [of s "output" rest args aux] by simp
next
  case Percent
  then show ?thesis by (subst do_vprintf.simps) simp
next
  case (Signed c v)
  note p = parse_conversion_text [of c "CHR ''d''" rest] conv_text_first [of "CHR ''d''" c rest]
  have "magnitude v = Some (of_int \<bar>v\<bar>)" using assms Signed by (intro magnitude_piece) simp
  then show ?thesis using assms Signed p signed_arg_piece [of c v args]
    by (subst do_vprintf.simps) (simp add: convert_def format_integer_spec)
next
  case (Unsigned c ch v)
  note p = parse_conversion_text [of c ch rest] conv_text_first [of ch c rest]
  have "ch \<in> set ''ouxX''" using assms Unsigned by simp
  then have "ch \<in> set ''diouxXcsp''" "ch = CHR ''o'' \<or> ch = CHR ''u'' \<or> ch = CHR ''x'' \<or> ch = CHR ''X''" "ch \<noteq> CHR ''d''" "ch \<noteq> CHR ''i''" by auto
  then have "convert again ch c (piece_args x @ args) output aux = do { aux \<leftarrow> output_all (piece_text x) output aux; Some (args, aux) }" for again
    using assms Unsigned unsigned_arg_piece [of c ch v args] by (simp only: convert_def if_True if_False simp_thms) (simp add: format_integer_spec)
  then show ?thesis using assms Unsigned p \<open>ch \<in> set ''diouxXcsp''\<close> by (subst do_vprintf.simps) (simp del: piece_args.simps piece_text.simps)
next
  case (Chr c ch)
  note p = parse_conversion_text [of c "CHR ''c''" rest] conv_text_first [of "CHR ''c''" c rest]
  have "(of_char ch :: nat) < 2 ^ 32" by (rule less_le_trans [OF of_char_less]) simp
  then have "unat (of_nat (of_char ch) :: u32) = of_char ch" by (simp add: unat_of_nat_le)
  then have "char_of (unat (of_char ch :: u32)) = ch" by (simp add: of_nat_of_char)
  then show ?thesis using assms Chr p by (subst do_vprintf.simps) (simp add: convert_def format_string_spec)
next
  case (Str c a s)
  note p = parse_conversion_text [of c "CHR ''s''" rest] conv_text_first [of "CHR ''s''" c rest]
  show ?thesis using assms Str p take_precision [of c s] take_precision [of c "''(null)''"]
    by (subst do_vprintf.simps) (auto simp: convert_def format_string_spec conv_ok_def Let_def)
next
  case (Ptr c w)
  note p = parse_conversion_text [of c "CHR ''p''" rest] conv_text_first [of "CHR ''p''" c rest]
  show ?thesis using assms Ptr p by (subst do_vprintf.simps) (simp add: convert_def format_integer_spec)
qed

lemma do_vprintf_pieces:
  "list_all piece_ok xs \<Longrightarrow>
    do_vprintf output (concat (map piece_format xs)) (concat (map piece_args xs)) aux = output_all (concat (map piece_text xs)) output aux"
proof (induction xs arbitrary: aux)
  case Nil
  then show ?case by (subst do_vprintf.simps) simp
next
  case (Cons x xs)
  then show ?case using do_vprintf_piece [of x "output" "concat (map piece_format xs)" "concat (map piece_args xs)" aux]
    by (simp add: output_all_append)
qed

text \<open>What is printed does not depend on where it goes.\<close>

lemma convert_any_sink:
  assumes run: "convert again ch c args output aux = Some (args2, a2)"
    and again: "\<And>format args aux aux'. again format args aux = Some aux' \<Longrightarrow>
      \<exists>t. output_all t output aux = Some aux' \<and> (\<forall>(output' :: 't sink) aux''. do_vprintf output' format args aux'' = output_all t output' aux'')"
  shows "\<exists>u. output_all u output aux = Some a2
    \<and> (\<forall>(output' :: 't sink) aux''. convert (do_vprintf output') ch c args output' aux'' = map_option (Pair args2) (output_all u output' aux''))"
proof -
  have pair: "map_option (Pair r) x = do { aux \<leftarrow> x; Some (r, aux) }" for r and x :: "'z option" by (cases x) simp_all
  consider (d) "ch \<in> set ''di''" | (u) "ch \<in> set ''ouxX''" | (ch) "ch = CHR ''c''" | (s) "ch = CHR ''s''" | (p) "ch = CHR ''p''"
    | (k) "ch \<in> set ''feEgGn''" | (z) "ch \<notin> set ''diouxXcspfeEgGn''" by auto
  then show ?thesis
  proof cases
    case k
    then obtain t where "output_all t output aux = Some a2" "args2 = args"
      "\<forall>(output' :: 't sink) aux''. do_vprintf output' ''<<no %%%c in kernel>>'' [A32 (of_int (schar ch))] aux'' = output_all t output' aux''"
      using run again by (fastforce simp: convert_def bind_Some_iff)
    then show ?thesis using k by (intro exI [of _ t]) (auto simp: convert_def pair)
  next
    case z
    then obtain t where "output_all t output aux = Some a2" "args2 = args"
      "\<forall>(output' :: 't sink) aux''. do_vprintf output' ''<<no %%%c conversion>>'' [A32 (of_int (schar ch))] aux'' = output_all t output' aux''"
      using run again by (fastforce simp: convert_def bind_Some_iff)
    then show ?thesis using z by (intro exI [of _ t]) (simp add: convert_def pair)
  next
    case d
    then obtain v w where "signed_arg (itype c) args = Some (v, args2)" "magnitude v = Some w"
      "output_all (int_text w True (v < 0) base_d c) output aux = Some a2"
      using run by (auto simp: convert_def bind_Some_iff format_integer_spec)
    then show ?thesis using d by (intro exI [of _ "int_text w True (v < 0) base_d c"]) (auto simp: convert_def pair format_integer_spec)
  next
    case u
    then obtain v where "unsigned_arg (itype c) args = Some (v, args2)" "output_all (int_text v False False (base_of ch) c) output aux = Some a2"
      using run by (auto simp: convert_def bind_Some_iff format_integer_spec base_of_def)
    then show ?thesis using u by (intro exI [of _ "int_text v False False (base_of ch) c"]) (auto simp: convert_def pair format_integer_spec base_of_def)
  next
    case ch
    then obtain w where "va_32 args = Some (w, args2)" "output_all (justified (c\<lparr>ZERO := False\<rparr>) [] [char_of (unat w)]) output aux = Some a2"
      using run by (auto simp: convert_def bind_Some_iff format_string_spec)
    then show ?thesis using ch by (intro exI [of _ "justified (c\<lparr>ZERO := False\<rparr>) [] [char_of (unat w)]"]) (auto simp: convert_def pair format_string_spec)
  next
    case s
    let ?t = "\<lambda>w. let s = (case w of None \<Rightarrow> ''(null)'' | Some s \<Rightarrow> s) in take (strnlen_str s (unat (of_int (precision c) :: u32))) s"
    obtain w where "va_str args = Some (w, args2)" "output_all (justified (c\<lparr>ZERO := False\<rparr>) [] (?t w)) output aux = Some a2"
      using run s by (auto simp: convert_def bind_Some_iff format_string_spec Let_def)
    then show ?thesis using s by (intro exI [of _ "justified (c\<lparr>ZERO := False\<rparr>) [] (?t w)"]) (auto simp: convert_def pair format_string_spec Let_def)
  next
    case p
    let ?c = "c\<lparr>MINUS := False, PLUS := False, SPACE := False, POUND := True, ZERO := False, GROUP := False\<rparr>"
    obtain w where "va_32 args = Some (w, args2)" "output_all (int_text (ucast w) False False base_x ?c) output aux = Some a2"
      using run p by (auto simp: convert_def bind_Some_iff format_integer_spec)
    then show ?thesis using p by (intro exI [of _ "int_text (ucast w) False False base_x ?c"]) (auto simp: convert_def pair format_integer_spec)
  qed
qed

lemma do_vprintf_any_sink:
  assumes run: "do_vprintf output format args aux = Some aux'"
  shows "\<exists>t. output_all t output aux = Some aux' \<and> (\<forall>(output' :: 't sink) aux''. do_vprintf output' format args aux'' = output_all t output' aux'')"
proof (induction "output" format args aux aux' rule: do_vprintf.raw_induct)
  case (1 f "output" format args aux aux')
  consider (stop) "deref format = NUL" | (lit) ch rest where "format = ch # rest" "ch \<noteq> NUL" "ch \<noteq> CHR ''%''"
    | (percent) rest where "format = CHR ''%'' # CHR ''%'' # rest"
    | (conv) rest where "format = CHR ''%'' # rest" "deref rest \<noteq> CHR ''%''"
    by (cases format; cases "tl format") (auto simp: deref_def split: list.splits)
  then show ?case
  proof cases
    case stop
    then show ?thesis using 1(2) by (intro exI [of _ "[]"]) (simp add: do_vprintf.simps [of _ format])
  next
    case lit
    then obtain a1 where a1: "output ch aux = Some a1" "f output rest args a1 = Some aux'" using 1(2) by (auto simp: bind_Some_iff)
    obtain t where "output_all t output a1 = Some aux'" "\<forall>(output' :: 't sink) aux''. do_vprintf output' rest args aux'' = output_all t output' aux''"
      using 1(1) [OF a1(2)] by blast
    then show ?thesis using lit a1 by (intro exI [of _ "ch # t"]) (simp add: do_vprintf.simps [of _ "ch # rest"])
  next
    case percent
    then obtain a1 where a1: "output (CHR ''%'') aux = Some a1" "f output rest args a1 = Some aux'" using 1(2) by (auto simp: bind_Some_iff)
    obtain t where "output_all t output a1 = Some aux'" "\<forall>(output' :: 't sink) aux''. do_vprintf output' rest args aux'' = output_all t output' aux''"
      using 1(1) [OF a1(2)] by blast
    then show ?thesis using percent a1 by (intro exI [of _ "CHR ''%'' # t"]) (simp add: do_vprintf.simps [of _ "CHR ''%'' # CHR ''%'' # rest"])
  next
    case conv
    then obtain format' c args' args2 a2 rest' where p: "parse_conversion rest args = Some (format', c, args')"
      "convert (f output) (deref format') c args' output aux = Some (args2, a2)" "advance format' = Some rest'" "f output rest' args2 a2 = Some aux'"
      using 1(2) by (auto simp: bind_Some_iff)
    obtain u where u: "output_all u output aux = Some a2"
      "\<forall>(output' :: 't sink) aux''. convert (do_vprintf output') (deref format') c args' output' aux'' = map_option (Pair args2) (output_all u output' aux'')"
      using convert_any_sink [OF p(2) 1(1)] by blast
    obtain t where t: "output_all t output a2 = Some aux'" "\<forall>(output' :: 't sink) aux''. do_vprintf output' rest' args2 aux'' = output_all t output' aux''"
      using 1(1) [OF p(4)] by blast
    have "do_vprintf output' format args aux'' = output_all (u @ t) output' aux''" for output' :: "'t sink" and aux''
      using conv p(1,3) u(2) t(2) by (simp add: do_vprintf.simps [of _ "CHR ''%'' # rest"] output_all_append map_option_case bind_eq_None_conv split: option.split)
    then show ?thesis using u(1) t(1) by (intro exI [of _ "u @ t"]) (simp add: output_all_append)
  qed
qed (fact run)

text \<open>The text of a call: what a sink that only collects receives.\<close>

definition collect :: "string sink" where
  "collect ch s = Some (s @ [ch])"

definition printed :: "string \<Rightarrow> va list \<Rightarrow> string c_res" where
  "printed format args = do_vprintf collect format args []"

lemma output_all_collect: "output_all t collect s = Some (s @ t)"
  by (induction t arbitrary: s) (simp_all add: collect_def)

lemma printed_sink: "printed format args = Some t \<Longrightarrow> do_vprintf output format args aux = output_all t output aux"
  using do_vprintf_any_sink [of collect format args "[]" t, where 't = 'a] by (auto simp: printed_def output_all_collect)

lemma printed_pieces: "list_all piece_ok xs \<Longrightarrow> printed (concat (map piece_format xs)) (concat (map piece_args xs)) = Some (concat (map piece_text xs))"
  by (simp add: printed_def do_vprintf_pieces output_all_collect)

subsection \<open>Buffers\<close>

fun put_text :: "mem \<Rightarrow> u32 \<Rightarrow> string \<Rightarrow> mem" where
  "put_text m p [] = m"
| "put_text m p (ch # s) = put_text (m(p := of_char ch)) (p + 1) s"

lemma put_text_snoc: "put_text m p (s @ [ch]) = (put_text m p s)(p + of_nat (length s) := of_char ch)"
  by (induction s arbitrary: m p) (simp_all add: algebra_simps)

lemma put_text_outside: "length s \<le> 2 ^ 32 \<Longrightarrow> \<not> in_block a p (length s) \<Longrightarrow> put_text m p s a = m a"
proof (induction s rule: rev_induct)
  case (snoc ch s)
  have "a \<noteq> p + of_nat (length s)" using snoc.prems by (auto simp: in_block_iff)
  moreover have "\<not> in_block a p (length s)" using snoc.prems by (simp add: in_block_def)
  ultimately show ?case using snoc by (simp add: put_text_snoc)
qed simp

lemma put_text_block: "length s \<le> 2 ^ 32 \<Longrightarrow> block (put_text m p s) p (length s) = map of_char s"
proof (induction s rule: rev_induct)
  case (snoc ch s)
  have "a \<noteq> p + of_nat (length s)" if "in_block a p (length s)" for a
    using that snoc.prems by (auto simp: in_block_def unat_of_nat_le)
  then have "block (put_text m p (s @ [ch])) p (length s) = block (put_text m p s) p (length s)"
    using snoc.prems by (intro block_cong) (simp_all add: put_text_snoc)
  then show ?case using snoc by (simp only: length_append_singleton block_Suc_end) (simp add: put_text_snoc)
qed simp

lemma vsnprintf_sink:
  "0 \<le> vs_length aux \<Longrightarrow> vs_length aux + int (length t) < 2 ^ 31 \<Longrightarrow>
    output_all t vsnprintf_helper aux = Some (aux\<lparr>vs_length := vs_length aux + int (length t),
      vs_p := vs_p aux + of_nat (min (length t) (nat (vs_max_length aux - vs_length aux))),
      vs_mem := put_text (vs_mem aux) (vs_p aux) (take (nat (vs_max_length aux - vs_length aux)) t)\<rparr>)"
proof (induction t arbitrary: aux)
  case (Cons ch t)
  let ?k = "nat (vs_max_length aux - vs_length aux)"
  have i: "int_res (vs_length aux + 1) = Some (vs_length aux + 1)" using Cons.prems by (simp add: int_res_def)
  show ?case
  proof (cases "vs_length aux < vs_max_length aux")
    case True
    then obtain k where k: "?k = Suc k" "k = nat (vs_max_length aux - (vs_length aux + 1))" using zero_less_nat_eq [of "vs_max_length aux - vs_length aux"]
      by (cases ?k) auto
    define m1 where "m1 = (vs_mem aux)(vs_p aux := of_char ch)"
    let ?aux = "aux\<lparr>vs_length := vs_length aux + 1, vs_mem := m1, vs_p := vs_p aux + 1\<rparr>"
    have "output_all t vsnprintf_helper ?aux = Some (?aux\<lparr>vs_length := vs_length ?aux + int (length t),
      vs_p := vs_p ?aux + of_nat (min (length t) k), vs_mem := put_text (vs_mem ?aux) (vs_p ?aux) (take k t)\<rparr>)"
      using Cons.IH [of ?aux] Cons.prems k(2) by simp
    moreover have "vsnprintf_helper ch aux = Some ?aux" using True i by (simp add: vsnprintf_helper_def m1_def)
    ultimately show ?thesis using k(1) by (simp add: algebra_simps flip: m1_def)
  next
    case False
    let ?aux = "aux\<lparr>vs_length := vs_length aux + 1\<rparr>"
    have "?k = 0" "nat (vs_max_length ?aux - vs_length ?aux) = 0" using False by simp_all
    moreover have "vsnprintf_helper ch aux = Some ?aux" using False i by (simp add: vsnprintf_helper_def)
    ultimately show ?thesis using Cons.IH [of ?aux] Cons.prems by simp
  qed
qed simp

lemma vsnprintf_spec:
  assumes t: "printed format args = Some t" "length t < 2 ^ 31" and n: "0 < n" "unat n \<le> 2 ^ 31"
  defines "k \<equiv> min (length t) (unat n - 1)"
  shows "\<exists>m'. vsnprintf m buffer n format args = Some (int (length t), m') \<and> block m' buffer (Suc k) = map of_char (take k t) @ [0]
    \<and> (\<forall>a. \<not> in_block a buffer (unat n) \<longrightarrow> m' a = m a)"
proof -
  have un: "unat (n - 1) = unat n - 1" using n(1) by (intro unat_pred) auto
  then have "unat (n - 1) < 2 ^ 31" using n by (simp add: word_less_nat_alt)
  moreover have "sint (of_int (int j) :: u32) = int j" if "j < 2 ^ 31" for j using that by (intro sint_of_int_range) simp_all
  ultimately have "sint (of_int (int (unat (n - 1))) :: u32) = int (unat (n - 1))" by blast
  then have "sint (n - 1) = int (unat n - 1)" unfolding un [symmetric] by simp
  then have max: "nat (sint (n - 1) - 0) = unat n - 1" by simp
  let ?m = "put_text m buffer (take k t)"
  have tk: "take (unat n - 1) t = take k t" "length (take k t) = k" by (simp_all add: k_def min_def)
  have lk: "k < unat n" "k \<le> 2 ^ 32" using n t(2) unsigned_less [of n, where 'a = nat] by (auto simp: k_def word_less_nat_alt)
  let ?m' = "?m(buffer + of_nat k := 0)"
  have "vsnprintf m buffer n format args = Some (int (length t), ?m')"
    using printed_sink [OF t(1), of vsnprintf_helper] vsnprintf_sink [of "\<lparr>vs_p = buffer, vs_length = 0, vs_max_length = sint (n - 1), vs_mem = m\<rparr>" t]
      t(2) n(1) max tk(1) by (simp add: vsnprintf_def k_def)
  moreover have "block ?m' buffer k = block ?m buffer k"
    using lk unsigned_less [of n, where 'a = nat] by (intro block_cong) (auto simp: in_block_def unat_of_nat_le)
  then have "block ?m' buffer (Suc k) = map of_char (take k t) @ [0]"
    unfolding block_Suc_end using put_text_block [of "take k t" m buffer] tk(2) lk(2) by simp
  moreover have "?m' a = m a" if "\<not> in_block a buffer (unat n)" for a
  proof -
    have "\<not> in_block a buffer k" "a \<noteq> buffer + of_nat k"
      using that lk unsigned_less [of n, where 'a = nat] by (auto simp: in_block_def unat_of_nat_le)
    then show ?thesis using put_text_outside [of "take k t" a buffer m] tk(2) lk(2) by simp
  qed
  ultimately show ?thesis by blast
qed

subsection \<open>Decimal numbers\<close>

lemma nth_digit: "d < 10 \<Longrightarrow> ''0123456789'' ! d = digit_char d"
proof -
  assume "d < 10"
  then have "d \<in> set [0..<10]" by simp
  moreover have "\<forall>d \<in> set [0..<10]. ''0123456789'' ! d = digit_char d" by code_simp
  ultimately show ?thesis by blast
qed

lemma rev_num_digits: "0 < n \<Longrightarrow> rev (map (nth ''0123456789'') (num_digits 10 n)) = dec n"
proof (induction n rule: dec.induct)
  case (1 n)
  have n: "num_digits 10 n = n mod 10 # num_digits 10 (n div 10)" using 1(2) by (subst num_digits.simps) simp
  show ?case
  proof (cases "n < 10")
    case True
    then show ?thesis using nth_digit [of n] by (simp add: n num_digits.simps [of 10 0] dec.simps [of n])
  next
    case False
    then show ?thesis using nth_digit [of "n mod 10"] 1 by (simp add: n dec.simps [of n])
  qed
qed

lemma int_text_dec: "int_text v is_signed negative base_d (no_flags\<lparr>itype := t\<rparr>) = (if is_signed \<and> negative then ''-'' else []) @ dec (unat v)"
proof (cases "v = 0")
  case True
  have "dec 0 = ''0''" by code_simp
  then show ?thesis using True
    by (simp add: int_text_def justified_def no_flags_def sign_char_def hex_prefix_def padded_digits_def digit_text_def base_d_def num_digits.simps Let_def)
next
  case False
  then have p: "0 < unat v" by (simp add: unat_gt_0)
  then have "num_digits 10 (unat v) \<noteq> []" by (subst num_digits.simps) simp
  then have "Suc 0 - length (num_digits 10 (unat v)) = 0" by (cases "num_digits 10 (unat v)") simp_all
  then show ?thesis using rev_num_digits [OF p]
    by (simp add: int_text_def justified_def no_flags_def sign_char_def hex_prefix_def padded_digits_def digit_text_def base_d_def Let_def)
qed

lemma decimal_dec: "decimal (map of_char (dec n)) = int n"
proof (induction n rule: dec.induct)
  case (1 n)
  have d: "uint (of_char (digit_char k) :: u8) = 48 + int k" if "k < 10" for k
  proof -
    have "of_char (digit_char k) = 48 + k" using that by (simp add: digit_char_def)
    then have "(of_char (digit_char k) :: u8) = of_nat (48 + k)" by (metis of_nat_of_char)
    moreover have "uint (of_nat (48 + k) :: u8) = int (48 + k)" using that by (simp only: unsigned_of_nat) (simp add: take_bit_nat_eq_self)
    ultimately show ?thesis by (simp only: of_nat_add of_nat_numeral)
  qed
  show ?case
  proof (cases "n < 10")
    case True
    then show ?thesis using d [OF True] by (simp add: dec.simps [of n] decimal_def)
  next
    case False
    then have "decimal (map of_char (dec n)) = decimal (map of_char (dec (n div 10))) * 10 + int (n mod 10)"
      using d [of "n mod 10"] by (simp add: dec.simps [of n] decimal_def)
    also have "... = int n" using 1 False by (simp add: zdiv_int zmod_int)
    finally show ?thesis .
  qed
qed

lemma dec_bytes: "list_all digit (map of_char (dec n))"
proof -
  have "digit (of_char ch :: u8)" if "is_digit ch" for ch
  proof -
    have "unat (of_nat (of_char ch) :: u8) = of_char ch" using of_char_less [of ch] by (simp only: unsigned_of_nat) (simp add: take_bit_nat_eq_self)
    then show ?thesis using that by (simp add: digit_def is_digit_def word_le_nat_alt of_nat_of_char)
  qed
  then show ?thesis using dec_digits [of n] by (auto simp: list_all_iff)
qed

lemma printed_dec: "printed ''%d'' [A32 w] = Some ((if sint w < 0 then ''-'' else []) @ dec (nat \<bar>sint w\<bar>))"
proof -
  have b: "- (2 ^ 31) \<le> sint w" "sint w < 2 ^ 31" using sint_ge [of w] sint_lt [of w] by simp_all
  then have ok: "piece_ok (Signed no_flags (sint w))" by (simp add: no_flags_def conv_ok_def)
  have f: "piece_format (Signed no_flags (sint w)) = ''%d''" "piece_args (Signed no_flags (sint w)) = [A32 w]"
    by (simp_all add: conv_text_def flag_text_def width_text_def precision_text_def no_flags_def)
  have "unat (of_int \<bar>sint w\<bar> :: u64) = nat \<bar>sint w\<bar>" using b by (simp add: unat_eq_nat_uint uint_word_of_int mod_pos_pos_trivial)
  moreover have "no_flags\<lparr>itype := INT'\<rparr> = no_flags" by (simp add: no_flags_def)
  ultimately show ?thesis using printed_pieces [of "[Signed no_flags (sint w)]"] ok f int_text_dec [of "of_int \<bar>sint w\<bar>" True "sint w < 0" "INT'"] by simp
qed

subsection \<open>Properties\<close>

text \<open>C33. Formatted output follows its format: for every sequence of literal text and conversions - signed and unsigned integers in all
  sizes and bases, characters, strings and pointers, with any flags, width and precision - the text of the format is parsed to exactly these
  conversions, the arguments are fetched in order, and the output function receives the rendered pieces one after the other. In particular the
  digit buffer never overflows and nothing is read beyond the format.\<close>

theorem vprintf_renders_pieces:
  assumes "list_all piece_ok xs"
  shows "do_vprintf output (concat (map piece_format xs)) (concat (map piece_args xs)) aux = output_all (concat (map piece_text xs)) output aux"
  by (rule do_vprintf_pieces [OF assms])

theorem vprintf_renders_pieces_witness:
  "do_vprintf collect ''x=%5d, %#llx%%'' [A32 (-42), A64 255] [] = Some ''x=  -42, 0xff%''"
proof -
  let ?xs = "[Lit ''x='', Signed (no_flags\<lparr>width := 5\<rparr>) (-42), Lit '', '',
    Unsigned (no_flags\<lparr>POUND := True, itype := LONGLONG\<rparr>) (CHR ''x'') 255, Percent]"
  have ok: "list_all piece_ok ?xs" by (simp add: conv_ok_def no_flags_def)
  have f: "concat (map piece_format ?xs) = ''x=%5d, %#llx%%''" by code_simp
  have a: "concat (map piece_args ?xs) = [A32 (-42), A64 255]" by (simp add: no_flags_def)
  have t: "concat (map piece_text ?xs) = ''x=  -42, 0xff%''" by code_simp
  show ?thesis using vprintf_renders_pieces [OF ok, of collect "[]"] unfolding f a t by (simp add: output_all_collect)
qed

text \<open>C34. \<open>vsnprintf\<close> is bounded: for every call that prints a text, it returns the length of the text, stores its beginning, as much as fits,
  with a terminator, and changes no byte outside the buffer.\<close>

theorem vsnprintf_bounded:
  assumes "printed format args = Some t" "length t < 2 ^ 31" "0 < n" "unat n \<le> 2 ^ 31"
  shows "\<exists>m'. vsnprintf m buffer n format args = Some (int (length t), m')
    \<and> block m' buffer (Suc (min (length t) (unat n - 1))) = map of_char (take (unat n - 1) t) @ [0]
    \<and> (\<forall>a. \<not> in_block a buffer (unat n) \<longrightarrow> m' a = m a)"
proof -
  have "take (min (length t) (unat n - 1)) t = take (unat n - 1) t" by (simp add: min_def)
  then show ?thesis using vsnprintf_spec [OF assms, of m buffer] by simp
qed

theorem vsnprintf_bounded_witness:
  "\<exists>m'. vsnprintf (\<lambda>_. 7) 100 4 ''%d'' [A32 (-12345)] = Some (6, m') \<and> block m' 100 4 = [45, 49, 50, 0] \<and> m' 104 = 7"
proof -
  have t: "printed ''%d'' [A32 (-12345)] = Some ''-12345''" by (simp add: printed_dec) code_simp
  have out: "\<not> in_block 104 100 (unat (4 :: u32))" by (simp add: in_block_def)
  have k: "Suc (min (length ''-12345'') (unat (4 :: u32) - 1)) = 4" by simp
  have x: "map of_char (take (unat (4 :: u32) - 1) ''-12345'') = [45, 49, 50 :: u8]" by code_simp
  obtain m' where "vsnprintf (\<lambda>_. 7) 100 4 ''%d'' [A32 (-12345)] = Some (int (length ''-12345''), m')" "block m' 100 4 = [45, 49, 50] @ [0]"
    "\<forall>a. \<not> in_block a 100 (unat (4 :: u32)) \<longrightarrow> m' a = 7"
    using vsnprintf_bounded [OF t, of 4 "\<lambda>_. 7" 100] unfolding k x by (simp del: block.simps) blast
  then show ?thesis using out by (intro exI [of _ m']) simp
qed

text \<open>C35. Numbers survive printing and reading: what \<open>snprintf\<close> writes for \<open>%d\<close> into a buffer of at least twelve bytes, \<open>atoi\<close>
  reads back, for every \<open>int\<close>.\<close>

theorem snprintf_atoi_roundtrip:
  assumes "buffer \<noteq> 0" "unat buffer + 12 \<le> 2 ^ 32" "12 \<le> unat n" "unat n \<le> 2 ^ 31"
  shows "\<exists>len m'. snprintf m buffer n ''%d'' [A32 w] = Some (len, m') \<and> atoi m' buffer = Some (sint w)"
proof -
  let ?sg = "if sint w < 0 then ''-'' else []" and ?ds = "dec (nat \<bar>sint w\<bar>)"
  let ?t = "?sg @ ?ds"
  have b: "- (2 ^ 31) \<le> sint w" "sint w < 2 ^ 31" using sint_ge [of w] sint_lt [of w] by simp_all
  then have len: "length ?ds \<le> 10" by (intro dec_length_bound) simp_all
  then have lt: "length ?t \<le> 11" by auto
  have n: "0 < n" using assms(3) by (auto simp: word_less_nat_alt)
  have k: "min (length ?t) (unat n - 1) = length ?t" "take (unat n - 1) ?t = ?t" using lt assms(3) by simp_all
  obtain m' where m': "vsnprintf m buffer n ''%d'' [A32 w] = Some (int (length ?t), m')" "block m' buffer (Suc (length ?t)) = map of_char ?t @ [0]"
    using vsnprintf_spec [OF printed_dec _ n assms(4), of w m buffer] lt unfolding k by auto
  have z: "0 \<notin> set (map of_char ?ds :: u8 list)" using dec_bytes [of "nat \<bar>sint w\<bar>"] by (auto simp: list_all_iff digit_def)
  have "cstr m' buffer (map of_char ?sg @ map of_char ?ds)"
    unfolding cstr_def using assms(1,2) lt m'(2) z by auto
  then have c: "cstr m' buffer ([] @ map of_char ?sg @ map of_char ?ds @ [])" by simp
  have v: "(if map of_char ?sg = [45 :: u8] then - decimal (map of_char ?ds) else decimal (map of_char ?ds)) = sint w" by (simp add: decimal_dec)
  have sg: "map of_char ?sg \<in> {[], [43], [45 :: u8]}" by simp
  have "atoi m' buffer = Some (if map of_char ?sg = [45 :: u8] then - decimal (map of_char ?ds) else decimal (map of_char ?ds))"
    by (rule atoi_spec [OF c _ sg _ dec_bytes]) (use v b in simp_all)
  then have "atoi m' buffer = Some (sint w)" unfolding v .
  then show ?thesis using m'(1) by (auto simp: snprintf_def)
qed

theorem snprintf_atoi_roundtrip_witness:
  "\<exists>len m'. snprintf (\<lambda>_. 0) 100 16 ''%d'' [A32 (-2147483648)] = Some (len, m') \<and> atoi m' 100 = Some (-2147483648)"
  using snprintf_atoi_roundtrip [of 100 16 "\<lambda>_. 0" "-2147483648"] by simp

text \<open>A percent sign at the end of a format makes the loop step over the terminator.\<close>

lemma vprintf_trailing_percent: "printed ''%'' [] = None"
  by code_simp

end
