(* ===== verification/Console.thy ===== *)
theory Console
  imports Stdio
begin

text \<open>
  The console of the kernel, \<^verbatim>\<open>lib/kernel/console.c\<close>, with its lock that a thread may hold repeatedly, and the
  routines of \<^verbatim>\<open>lib/stdio.c\<close> that print on it. The two devices are the list of the characters written to them. The state is
  that of one thread: another thread cannot print while the lock is held.

  The lemmas show that everything the routines print appears unbroken and that the lock is as before.
\<close>

subsection \<open>The console\<close>

record console =
  in_intr :: bool
  use_console_lock :: bool
  lock_held :: bool
  console_lock_depth :: int
  write_cnt :: int
  cons_out :: string

definition console_init :: "console \<Rightarrow> console" where
  "console_init s = s\<lparr>lock_held := False, use_console_lock := True\<rparr>"

definition console_panic :: "console \<Rightarrow> console" where
  "console_panic s = s\<lparr>use_console_lock := False\<rparr>"

text \<open>\<open>lock_acquire\<close> returns when the current thread has the lock, and \<open>lock_release\<close> asserts that it has.\<close>

definition acquire_console :: "console \<Rightarrow> console c_res" where
  "acquire_console s =
     (if \<not> in_intr s \<and> use_console_lock s
      then if lock_held s then do { d \<leftarrow> int_res (console_lock_depth s + 1); Some (s\<lparr>console_lock_depth := d\<rparr>) }
           else Some (s\<lparr>lock_held := True\<rparr>)
      else Some s)"

definition release_console :: "console \<Rightarrow> console c_res" where
  "release_console s =
     (if \<not> in_intr s \<and> use_console_lock s
      then if console_lock_depth s > 0 then Some (s\<lparr>console_lock_depth := console_lock_depth s - 1\<rparr>)
           else if lock_held s then Some (s\<lparr>lock_held := False\<rparr>) else None
      else Some s)"

definition console_locked_by_current_thread :: "console \<Rightarrow> bool" where
  "console_locked_by_current_thread s \<longleftrightarrow> in_intr s \<or> \<not> use_console_lock s \<or> lock_held s"

definition putchar_have_lock :: "char \<Rightarrow> console \<Rightarrow> console c_res" where
  "putchar_have_lock ch s =
     (if \<not> console_locked_by_current_thread s \<or> write_cnt s = 2 ^ 63 - 1 then None
      else Some (s\<lparr>write_cnt := write_cnt s + 1, cons_out := cons_out s @ [ch]\<rparr>))"

definition vprintf_helper :: "(int \<times> console) sink" where
  "vprintf_helper ch = (\<lambda>(char_cnt, s). do {
     char_cnt \<leftarrow> int_res (char_cnt + 1);
     s \<leftarrow> putchar_have_lock ch s;
     Some (char_cnt, s)
   })"

definition vprintf :: "console \<Rightarrow> string \<Rightarrow> va list \<Rightarrow> (int \<times> console) c_res" where
  "vprintf s format args = do {
     s \<leftarrow> acquire_console s;
     (char_cnt, s) \<leftarrow> do_vprintf vprintf_helper format args (0, s);
     s \<leftarrow> release_console s;
     Some (char_cnt, s)
   }"

definition printf :: "console \<Rightarrow> string \<Rightarrow> va list \<Rightarrow> (int \<times> console) c_res" where
  "printf s format args = vprintf s format args"

text \<open>A call for its effect.\<close>

definition print :: "string \<Rightarrow> va list \<Rightarrow> console \<Rightarrow> console c_res" where
  "print format args s = map_option snd (printf s format args)"

definition puts_c :: "console \<Rightarrow> string \<Rightarrow> (int \<times> console) c_res" where
  "puts_c s str = do {
     s \<leftarrow> acquire_console s;
     s \<leftarrow> output_all str putchar_have_lock s;
     s \<leftarrow> putchar_have_lock (CHR 0x0A) s;
     s \<leftarrow> release_console s;
     Some (0, s)
   }"

definition putbuf :: "console \<Rightarrow> char list \<Rightarrow> nat \<Rightarrow> console c_res" where
  "putbuf s buffer n = do {
     s \<leftarrow> acquire_console s;
     s \<leftarrow> (if n \<le> length buffer then output_all (take n buffer) putchar_have_lock s else None);
     release_console s
   }"

definition putchar :: "console \<Rightarrow> int \<Rightarrow> (int \<times> console) c_res" where
  "putchar s ch = do {
     s \<leftarrow> acquire_console s;
     s \<leftarrow> putchar_have_lock (char_of (nat (ch mod 256))) s;
     s \<leftarrow> release_console s;
     Some (ch, s)
   }"

definition console_print_stats :: "console \<Rightarrow> console c_res" where
  "console_print_stats s =
     print (''Console: %lld characters output'' @ [CHR 0x0A]) [A64 (of_int (write_cnt s))] s"

subsection \<open>Sizes and memory dumps\<close>

definition factors :: "string list" where
  "factors = [''bytes'', ''kB'', ''MB'', ''GB'', ''TB'']"

text \<open>The list of factors ends with a null pointer.\<close>

fun scale_loop :: "string list \<Rightarrow> u64 \<Rightarrow> string \<times> u64" where
  "scale_loop (f # g # fs) sz = (if sz \<ge> 1024 then scale_loop (g # fs) (sz div 1024) else (f, sz))"
| "scale_loop (f # []) sz = (f, sz)"
| "scale_loop [] sz = ([], sz)"

definition print_human_readable_size :: "console \<Rightarrow> u64 \<Rightarrow> console c_res" where
  "print_human_readable_size s sz =
     (if sz = 1 then print ''1 byte'' [] s
      else let (fp, sz) = scale_loop factors sz in print ''%llu %s'' [A64 sz, APtr 1 fp] s)"

definition isprint :: "int \<Rightarrow> bool" where
  "isprint ch \<longleftrightarrow> ch \<ge> 32 \<and> ch < 127"

text \<open>Prints something for each index in a range.\<close>

fun print_range :: "(nat \<Rightarrow> string \<times> va list) \<Rightarrow> nat \<Rightarrow> nat \<Rightarrow> console \<Rightarrow> console c_res" where
  "print_range f i 0 s = Some s"
| "print_range f i (Suc k) s = do { s \<leftarrow> print (fst (f i)) (snd (f i)) s; print_range f (i + 1) k s }"

definition dump_ascii :: "u8 list \<Rightarrow> nat \<Rightarrow> nat \<Rightarrow> console \<Rightarrow> console c_res" where
  "dump_ascii buf start end' s = do {
     s \<leftarrow> print_range (\<lambda>i. (''   '', [])) end' (16 - end') s;
     s \<leftarrow> print ''|'' [] s;
     s \<leftarrow> print_range (\<lambda>i. ('' '', [])) 0 start s;
     s \<leftarrow> print_range (\<lambda>i. (''%c'', [A32 (if isprint (uint (buf ! (i - start))) then ucast (buf ! (i - start)) else 46)])) start (end' - start) s;
     s \<leftarrow> print_range (\<lambda>i. ('' '', [])) end' (16 - end') s;
     print ''|'' [] s
   }"

definition dump_line :: "u32 \<Rightarrow> u8 list \<Rightarrow> nat \<Rightarrow> nat \<Rightarrow> bool \<Rightarrow> console \<Rightarrow> console c_res" where
  "dump_line ofs buf start end' ascii s = do {
     s \<leftarrow> print ''%08jx  '' [A64 (ucast (ofs - ofs mod 16))] s;
     s \<leftarrow> print_range (\<lambda>i. (''   '', [])) 0 start s;
     s \<leftarrow> print_range (\<lambda>i. (''%02hhx%c'', [A32 (ucast (buf ! (i - start))), A32 (if i = 16 div 2 - 1 then 45 else 32)])) start (end' - start) s;
     s \<leftarrow> (if ascii then dump_ascii buf start end' s else Some s);
     print [CHR 0x0A] [] s
   }"

text \<open>\<open>buf\<close> holds the \<open>size\<close> bytes that are left.\<close>

partial_function (option) hex_dump :: "u32 \<Rightarrow> u8 list \<Rightarrow> bool \<Rightarrow> console \<Rightarrow> console option" where
  [code]: "hex_dump ofs buf ascii s =
     (if length buf > 0 then do {
        let start = unat (ofs mod 16);
        let end' = (if 16 - start > length buf then start + length buf else 16);
        let n = end' - start;
        s \<leftarrow> dump_line ofs buf start end' ascii s;
        hex_dump (ofs + of_nat n) (drop n buf) ascii s
      } else Some s)"

subsection \<open>Printing on the console\<close>

definition emit :: "string \<Rightarrow> console \<Rightarrow> console" where
  "emit t s = s\<lparr>write_cnt := write_cnt s + int (length t), cons_out := cons_out s @ t\<rparr>"

text \<open>The lock is held when it is held recursively, and there is room for \<open>n\<close> characters in the counter.\<close>

definition cons_ok :: "nat \<Rightarrow> console \<Rightarrow> bool" where
  "cons_ok n s \<longleftrightarrow> 0 \<le> console_lock_depth s \<and> console_lock_depth s < 2 ^ 31 - 1 \<and> (console_lock_depth s > 0 \<longrightarrow> lock_held s)
     \<and> 0 \<le> write_cnt s \<and> write_cnt s + int n < 2 ^ 63"

lemma emit_simps [simp]: "emit [] s = s" "emit t (emit u s) = emit (u @ t) s"
  by (simp_all add: emit_def)

lemma cons_ok_emit: "cons_ok (n + length t) s \<Longrightarrow> cons_ok n (emit t s)"
  by (simp add: emit_def cons_ok_def)

lemma cons_ok_mono: "cons_ok n s \<Longrightarrow> k \<le> n \<Longrightarrow> cons_ok k s"
  by (simp add: cons_ok_def)

lemma vprintf_sink:
  "console_locked_by_current_thread s \<Longrightarrow> 0 \<le> write_cnt s \<Longrightarrow> write_cnt s + int (length t) < 2 ^ 63 \<Longrightarrow> 0 \<le> n \<Longrightarrow> n + int (length t) < 2 ^ 31 \<Longrightarrow>
    output_all t vprintf_helper (n, s) = Some (n + int (length t), emit t s)"
proof (induction t arbitrary: n s)
  case (Cons ch t)
  have "vprintf_helper ch (n, s) = Some (n + 1, emit [ch] s)"
    using Cons.prems by (simp add: vprintf_helper_def int_res_def putchar_have_lock_def emit_def)
  moreover have "output_all t vprintf_helper (n + 1, emit [ch] s) = Some (n + 1 + int (length t), emit t (emit [ch] s))"
    using Cons.prems by (intro Cons.IH) (auto simp: emit_def console_locked_by_current_thread_def)
  ultimately show ?case by simp
qed simp

lemma vprintf_spec:
  assumes t: "printed format args = Some t" "length t < 2 ^ 31" and s: "cons_ok (length t) s"
  shows "vprintf s format args = Some (int (length t), emit t s)"
proof -
  obtain s1 where s1: "acquire_console s = Some s1" "console_locked_by_current_thread s1" "write_cnt s1 = write_cnt s" "release_console (emit t s1) = Some (emit t s)"
  proof (cases "\<not> in_intr s \<and> use_console_lock s")
    case True
    show ?thesis
    proof (cases "lock_held s")
      case True
      then show ?thesis using \<open>\<not> in_intr s \<and> use_console_lock s\<close> s
        by (intro that [of "s\<lparr>console_lock_depth := console_lock_depth s + 1\<rparr>"])
          (auto simp: acquire_console_def release_console_def int_res_def console_locked_by_current_thread_def cons_ok_def emit_def)
    next
      case False
      then show ?thesis using True s
        by (intro that [of "s\<lparr>lock_held := True\<rparr>"])
          (auto simp: acquire_console_def release_console_def console_locked_by_current_thread_def cons_ok_def emit_def)
    qed
  next
    case False
    then show ?thesis
      by (intro that [of s]) (auto simp: acquire_console_def release_console_def console_locked_by_current_thread_def emit_def)
  qed
  then show ?thesis using printed_sink [OF t(1), of vprintf_helper "(0, s1)"] vprintf_sink [of s1 t 0] t(2) s by (simp add: vprintf_def cons_ok_def)
qed

text \<open>Programs that print: \<open>says f t\<close> when \<open>f\<close> prints \<open>t\<close> and does nothing else.\<close>

definition says :: "(console \<Rightarrow> console c_res) \<Rightarrow> string \<Rightarrow> bool" where
  "says f t \<longleftrightarrow> (\<forall>s. cons_ok (length t) s \<longrightarrow> f s = Some (emit t s))"

lemma says_then: "says f t \<Longrightarrow> says g u \<Longrightarrow> says (\<lambda>s. do { s \<leftarrow> f s; g s }) (t @ u)"
  using cons_ok_mono [of "length (t @ u)" _ "length t"] cons_ok_emit [of "length u" t] by (auto simp: says_def add.commute)

lemma says_nothing: "says Some []"
  by (simp add: says_def)

lemma says_pieces:
  assumes "list_all piece_ok xs" "format = concat (map piece_format xs)" "args = concat (map piece_args xs)" "t = concat (map piece_text xs)" "length t < 2 ^ 31"
  shows "says (print format args) t"
  using vprintf_spec [OF printed_pieces [OF assms(1)]] assms by (auto simp: says_def printf_def print_def)

lemma says_range:
  assumes "\<And>i. i0 \<le> i \<Longrightarrow> i < i0 + k \<Longrightarrow> says (print (fst (f i)) (snd (f i))) (g i)"
  shows "says (print_range f i0 k) (concat (map g [i0..<i0 + k]))"
  using assms
proof (induction k arbitrary: i0)
  case (Suc k)
  have "[i0..<i0 + Suc k] = i0 # [Suc i0..<Suc i0 + k]" by (simp add: upt_rec)
  moreover have "print_range f i0 (Suc k) = (\<lambda>s. do { s \<leftarrow> print (fst (f i0)) (snd (f i0)) s; print_range f (i0 + 1) k s })"
    by (rule ext) simp
  moreover have "says (print_range f (i0 + 1) k) (concat (map g [Suc i0..<Suc i0 + k]))" using Suc.IH [of "Suc i0"] Suc.prems by simp
  ultimately show ?case using says_then [OF Suc.prems [of i0]] by simp
next
  case 0
  have "print_range f i0 0 = Some" by (rule ext) simp
  then show ?case by (simp add: says_nothing)
qed

text \<open>Sizes: the largest unit of which there is at least one, or terabytes.\<close>

lemma scale_loop_spec:
  "fs \<noteq> [] \<Longrightarrow> \<exists>k < length fs. fst (scale_loop fs sz) = fs ! k \<and> unat (snd (scale_loop fs sz)) = unat sz div 1024 ^ k
    \<and> (Suc k < length fs \<longrightarrow> unat sz div 1024 ^ k < 1024) \<and> (0 < k \<longrightarrow> 1024 \<le> unat sz div 1024 ^ (k - 1))"
proof (induction fs sz rule: scale_loop.induct)
  case (1 f g fs sz)
  have u: "unat (sz div 1024) = unat sz div 1024" by (simp add: unat_div)
  show ?case
  proof (cases "1024 \<le> sz")
    case True
    then have ge: "1024 \<le> unat sz" by (simp add: word_le_nat_alt)
    obtain k where k: "k < length (g # fs)" "fst (scale_loop (g # fs) (sz div 1024)) = (g # fs) ! k"
      "unat (snd (scale_loop (g # fs) (sz div 1024))) = unat sz div 1024 div 1024 ^ k"
      "Suc k < length (g # fs) \<longrightarrow> unat sz div 1024 div 1024 ^ k < 1024" "0 < k \<longrightarrow> 1024 \<le> unat sz div 1024 div 1024 ^ (k - 1)"
      using 1 True unfolding u by (auto simp del: scale_loop.simps)
    have "1024 \<le> unat sz div 1024 ^ k"
    proof (cases k)
      case (Suc k')
      then show ?thesis using k(5) by (simp flip: div_mult2_eq)
    qed (use ge in simp)
    then show ?thesis using True k by (intro exI [of _ "Suc k"]) (simp flip: div_mult2_eq)
  next
    case False
    then show ?thesis by (intro exI [of _ 0]) (simp add: word_le_nat_alt)
  qed
qed auto

lemma factor_ok: "k < 5 \<Longrightarrow> is_cstr (factors ! k) \<and> length (factors ! k) \<le> 5"
proof -
  assume "k < 5"
  then have "factors ! k \<in> set factors" by (intro nth_mem) (simp add: factors_def)
  moreover have "\<forall>f \<in> set factors. is_cstr f \<and> length f \<le> 5" by (simp add: factors_def)
  ultimately show ?thesis by blast
qed

lemma human_size_spec:
  assumes "sz \<noteq> 1"
  shows "\<exists>k < 5. says (\<lambda>s. print_human_readable_size s sz) (dec (unat sz div 1024 ^ k) @ '' '' @ factors ! k)
    \<and> (k < 4 \<longrightarrow> unat sz div 1024 ^ k < 1024) \<and> (0 < k \<longrightarrow> 1024 \<le> unat sz div 1024 ^ (k - 1))"
proof -
  obtain k where k: "k < 5" "fst (scale_loop factors sz) = factors ! k" "unat (snd (scale_loop factors sz)) = unat sz div 1024 ^ k"
    "k < 4 \<longrightarrow> unat sz div 1024 ^ k < 1024" "0 < k \<longrightarrow> 1024 \<le> unat sz div 1024 ^ (k - 1)"
  proof -
    have "factors \<noteq> []" "length factors = 5" by (simp_all add: factors_def)
    then show thesis using scale_loop_spec [of factors sz] that by auto
  qed
  let ?v = "snd (scale_loop factors sz)" and ?c = "no_flags\<lparr>itype := LONGLONG\<rparr>"
  let ?xs = "[Unsigned ?c (CHR ''u'') ?v, Lit '' '', Str no_flags 1 (factors ! k)]"
  have ok: "list_all piece_ok ?xs" using factor_ok [OF k(1)] unsigned_less [of ?v, where 'a = nat]
    by (simp add: conv_ok_def no_flags_def)
  have t: "concat (map piece_text ?xs) = dec (unat ?v) @ '' '' @ factors ! k"
    using int_text_dec [of ?v False False LONGLONG] by (simp add: base_of_def no_flags_def justified_def Let_def)
  have f: "''%llu %s'' = concat (map piece_format ?xs)" "[A64 ?v, APtr 1 (factors ! k)] = concat (map piece_args ?xs)"
    by (simp_all add: conv_text_def flag_text_def width_text_def precision_text_def no_flags_def)
  have "length (dec (unat ?v)) \<le> 20" using unsigned_less [of ?v, where 'a = nat] by (intro dec_length_bound) simp_all
  then have "length (dec (unat ?v) @ '' '' @ factors ! k) < 2 ^ 31" using factor_ok [OF k(1)] by simp
  then have "says (print ''%llu %s'' [A64 ?v, APtr 1 (factors ! k)]) (dec (unat ?v) @ '' '' @ factors ! k)"
    by (rule says_pieces [OF ok f t [symmetric]])
  then show ?thesis using assms k by (intro exI [of _ k]) (simp add: print_human_readable_size_def says_def case_prod_unfold)
qed

text \<open>Memory dumps: every line, with its offset, the bytes and on demand the characters.\<close>

definition conv_offset :: printf_conversion where
  "conv_offset = no_flags\<lparr>ZERO := True, width := 8, itype := INTMAX\<rparr>"

definition conv_byte :: printf_conversion where
  "conv_byte = no_flags\<lparr>ZERO := True, width := 2, itype := CHAR'\<rparr>"

definition hex_offset :: "u32 \<Rightarrow> string" where
  "hex_offset a = int_text (ucast a) False False base_x conv_offset"

definition hex_byte :: "u8 \<Rightarrow> string" where
  "hex_byte x = int_text (ucast x) False False base_x conv_byte"

definition shown :: "u8 \<Rightarrow> char" where
  "shown x = (if isprint (uint x) then char_of (unat x) else CHR ''.'')"

definition line_text :: "u32 \<Rightarrow> u8 list \<Rightarrow> nat \<Rightarrow> nat \<Rightarrow> bool \<Rightarrow> string" where
  "line_text ofs buf start end' ascii =
     hex_offset (ofs - ofs mod 16) @ ''  '' @ concat (map (\<lambda>i. ''   '') [0..<start])
     @ concat (map (\<lambda>i. hex_byte (buf ! (i - start)) @ [if i = 7 then CHR ''-'' else CHR '' '']) [start..<end'])
     @ (if ascii then concat (map (\<lambda>i. ''   '') [end'..<16]) @ ''|'' @ concat (map (\<lambda>i. '' '') [0..<start])
          @ concat (map (\<lambda>i. [shown (buf ! (i - start))]) [start..<end']) @ concat (map (\<lambda>i. '' '') [end'..<16]) @ ''|'' else [])
     @ [CHR 0x0A]"

function dump_text :: "u32 \<Rightarrow> u8 list \<Rightarrow> bool \<Rightarrow> string" where
  "dump_text ofs buf ascii =
     (if buf = [] then []
      else let start = unat (ofs mod 16); n = min (16 - start) (length buf)
           in line_text ofs buf start (start + n) ascii @ dump_text (ofs + of_nat n) (drop n buf) ascii)"
  by pat_completeness auto
termination
proof (relation "measure (\<lambda>(ofs, buf, ascii). length buf)", goal_cases)
  case (2 ofs buf ascii start n)
  have "unat (ofs mod 16) < 16" by (simp add: unat_mod)
  then show ?case using 2 by (cases buf) auto
qed simp

declare dump_text.simps [simp del]

lemma padded_digits_length: "known_base b \<Longrightarrow> length (padded_digits v b c) \<le> 64"
proof -
  assume "known_base b"
  then have "length (digit_text b (GROUP c) 0 (unat v)) \<le> 44"
    using known_base_facts(3) [of b v] commas_length [of "group b" 0 "map (nth (digits b)) (num_digits (base b) (unat v))"]
    by (auto simp: digit_text_def Let_def)
  then show ?thesis by (auto simp: padded_digits_def Let_def)
qed

lemma int_text_length: "known_base b \<Longrightarrow> \<not> (MINUS c \<and> ZERO c) \<Longrightarrow> width c \<le> 64 \<Longrightarrow> length (int_text v sg neg b c) \<le> 67"
  using padded_digits_length [of b v c] by (auto simp: int_text_def justified_length sign_char_def hex_prefix_def)

lemma says_lit: "is_cstr t \<Longrightarrow> CHR ''%'' \<notin> set t \<Longrightarrow> length t < 2 ^ 31 \<Longrightarrow> says (print t []) t"
  by (rule says_pieces [of "[Lit t]"]) simp_all

lemma says_offset: "says (print ''%08jx  '' [A64 (ucast a)]) (hex_offset a @ ''  '')"
proof -
  let ?xs = "[Unsigned conv_offset (CHR ''x'') (ucast a), Lit ''  '']"
  have ok: "list_all piece_ok ?xs" using unsigned_less [of "ucast a :: u64", where 'a = nat] by (simp add: conv_ok_def conv_offset_def no_flags_def)
  have "dec 8 = ''8''" by code_simp
  then have f: "''%08jx  '' = concat (map piece_format ?xs)" "[A64 (ucast a)] = concat (map piece_args ?xs)" "hex_offset a @ ''  '' = concat (map piece_text ?xs)"
    by (simp_all add: conv_text_def flag_text_def width_text_def precision_text_def conv_offset_def no_flags_def hex_offset_def base_of_def)
  have "length (hex_offset a @ ''  '') < 2 ^ 31"
    using int_text_length [of base_x conv_offset "ucast a" False False] by (simp add: hex_offset_def conv_offset_def no_flags_def)
  then show ?thesis by (rule says_pieces [OF ok f])
qed

lemma says_byte: "says (print ''%02hhx%c'' [A32 (ucast x), A32 (of_char ch)]) (hex_byte x @ [ch])"
proof -
  let ?xs = "[Unsigned conv_byte (CHR ''x'') (ucast x), Chr no_flags ch]"
  have "unat (ucast x :: u64) \<le> unat x" by (simp add: unsigned_ucast_eq take_bit_nat_less_eq_self)
  then have "unat (ucast x :: u64) < 256" using unsigned_less [of x, where 'a = nat] by simp
  then have ok: "list_all piece_ok ?xs" by (simp add: conv_ok_def conv_byte_def no_flags_def)
  have "dec 2 = ''2''" by code_simp
  moreover have "(ucast (ucast x :: u64) :: u32) = ucast x" by (rule bit_word_eqI) (auto simp: bit_simps)
  ultimately have f: "''%02hhx%c'' = concat (map piece_format ?xs)" "[A32 (ucast x), A32 (of_char ch)] = concat (map piece_args ?xs)"
    "hex_byte x @ [ch] = concat (map piece_text ?xs)"
    by (simp_all add: conv_text_def flag_text_def width_text_def precision_text_def conv_byte_def no_flags_def hex_byte_def base_of_def justified_def)
  have "length (hex_byte x @ [ch]) < 2 ^ 31"
    using int_text_length [of base_x conv_byte "ucast x" False False] by (simp add: hex_byte_def conv_byte_def no_flags_def)
  then show ?thesis by (rule says_pieces [OF ok f])
qed

lemma says_char: "says (print ''%c'' [A32 (of_char ch)]) [ch]"
proof -
  have f: "''%c'' = concat (map piece_format [Chr no_flags ch])" "[A32 (of_char ch)] = concat (map piece_args [Chr no_flags ch])"
    "[ch] = concat (map piece_text [Chr no_flags ch])"
    by (simp_all add: conv_text_def flag_text_def width_text_def precision_text_def no_flags_def justified_def)
  show ?thesis by (rule says_pieces [OF _ f]) (simp_all add: conv_ok_def no_flags_def)
qed

lemma says_if: "says f t \<Longrightarrow> says (\<lambda>s. if b then f s else Some s) (if b then t else [])"
  by (simp add: says_def)

lemma says_end_range:
  assumes "\<And>i. a \<le> i \<Longrightarrow> i < b \<Longrightarrow> says (print (fst (f i)) (snd (f i))) (g i)" "a \<le> b"
  shows "says (print_range f a (b - a)) (concat (map g [a..<b]))"
  using says_range [of a "b - a" f g] assms by simp

lemma says_ascii:
  assumes "start \<le> end'" "end' \<le> 16"
  shows "says (dump_ascii buf start end') (concat (map (\<lambda>i. ''   '') [end'..<16]) @ ''|'' @ concat (map (\<lambda>i. '' '') [0..<start])
          @ concat (map (\<lambda>i. [shown (buf ! (i - start))]) [start..<end']) @ concat (map (\<lambda>i. '' '') [end'..<16]) @ ''|'')"
proof -
  have c: "says (print ''%c'' [A32 (if isprint (uint x) then ucast x else 46)]) [shown x]" for x
  proof -
    have "(if isprint (uint x) then ucast x else 46) = (of_char (shown x) :: u32)"
    proof (cases "isprint (uint x)")
      case True
      have "of_char (char_of (unat x)) = unat x" using unsigned_less [of x, where 'a = nat] by simp
      then have "(of_char (char_of (unat x)) :: u32) = of_nat (unat x)" by (metis of_nat_of_char)
      then show ?thesis using True by (simp add: shown_def)
    qed (simp add: shown_def)
    then show ?thesis using says_char [of "shown x"] by simp
  qed
  note l = says_lit [of "''   ''"] says_lit [of "''|''"] says_lit [of "'' ''"]
  have "dump_ascii buf start end' = (\<lambda>s. do { s \<leftarrow> print_range (\<lambda>i. (''   '', [])) end' (16 - end') s; s \<leftarrow> print ''|'' [] s;
     s \<leftarrow> print_range (\<lambda>i. ('' '', [])) 0 (start - 0) s;
     s \<leftarrow> print_range (\<lambda>i. (''%c'', [A32 (if isprint (uint (buf ! (i - start))) then ucast (buf ! (i - start)) else 46)])) start (end' - start) s;
     s \<leftarrow> print_range (\<lambda>i. ('' '', [])) end' (16 - end') s; print ''|'' [] s })"
    by (rule ext) (simp add: dump_ascii_def)
  then show ?thesis using l c assms by (simp only:) (intro says_then says_end_range; simp)
qed

lemma says_line:
  assumes "start \<le> end'" "end' \<le> 16"
  shows "says (dump_line ofs buf start end' ascii) (line_text ofs buf start end' ascii)"
proof -
  have sp: "(if i = 16 div 2 - 1 then 45 else 32 :: u32) = of_char (if i = (7 :: nat) then CHR ''-'' else CHR '' '')" for i by simp
  have "dump_line ofs buf start end' ascii = (\<lambda>s. do { s \<leftarrow> print ''%08jx  '' [A64 (ucast (ofs - ofs mod 16))] s;
     s \<leftarrow> print_range (\<lambda>i. (''   '', [])) 0 (start - 0) s;
     s \<leftarrow> print_range (\<lambda>i. (''%02hhx%c'', [A32 (ucast (buf ! (i - start))), A32 (of_char (if i = 7 then CHR ''-'' else CHR '' ''))])) start (end' - start) s;
     s \<leftarrow> (if ascii then dump_ascii buf start end' s else Some s); print [CHR 0x0A] [] s })"
    unfolding dump_line_def sp by (rule ext) simp
  moreover have "line_text ofs buf start end' ascii = (hex_offset (ofs - ofs mod 16) @ ''  '') @ concat (map (\<lambda>i. ''   '') [0..<start])
     @ concat (map (\<lambda>i. hex_byte (buf ! (i - start)) @ [if i = 7 then CHR ''-'' else CHR '' '']) [start..<end'])
     @ (if ascii then concat (map (\<lambda>i. ''   '') [end'..<16]) @ ''|'' @ concat (map (\<lambda>i. '' '') [0..<start])
          @ concat (map (\<lambda>i. [shown (buf ! (i - start))]) [start..<end']) @ concat (map (\<lambda>i. '' '') [end'..<16]) @ ''|'' else []) @ [CHR 0x0A]"
    by (simp add: line_text_def)
  ultimately show ?thesis using assms says_lit [of "''   ''"] says_lit [of "[CHR 0x0A]"]
    by (simp only:) (intro says_then says_end_range says_if says_ascii says_offset; simp add: says_byte)
qed

lemma hex_dump_spec: "says (hex_dump ofs buf ascii) (dump_text ofs buf ascii)"
proof (induction ofs buf ascii rule: dump_text.induct)
  case (1 ofs buf ascii)
  show ?case
  proof (cases "buf = []")
    case True
    then show ?thesis by (simp add: says_def hex_dump.simps dump_text.simps)
  next
    case False
    let ?start = "unat (ofs mod 16)"
    let ?n = "min (16 - ?start) (length buf)"
    have "?start < 16" by (simp add: unat_mod)
    then have "?start \<le> ?start + ?n" "?start + ?n \<le> 16" by simp_all
    then have "says (\<lambda>s. do { s \<leftarrow> dump_line ofs buf ?start (?start + ?n) ascii s; hex_dump (ofs + of_nat ?n) (drop ?n buf) ascii s })
      (line_text ofs buf ?start (?start + ?n) ascii @ dump_text (ofs + of_nat ?n) (drop ?n buf) ascii)"
      using 1 [OF False refl refl] by (intro says_then says_line)
    moreover have "(if 16 - ?start > length buf then ?start + length buf else 16) = ?start + ?n" using \<open>?start < 16\<close> by (simp add: min_def)
    then have "hex_dump ofs buf ascii = (\<lambda>s. do { s \<leftarrow> dump_line ofs buf ?start (?start + ?n) ascii s; hex_dump (ofs + of_nat ?n) (drop ?n buf) ascii s })"
      using False by (intro ext, subst hex_dump.simps) (simp add: Let_def)
    ultimately show ?thesis using False by (simp add: dump_text.simps [of ofs buf] Let_def)
  qed
qed

end
