(* ===== verification/KList.thy ===== *)
theory KList
  imports Prelude "HOL-Library.Multiset"
begin

text \<open>
  The kernel's doubly linked lists, \<^verbatim>\<open>lib/kernel/list.c\<close>. Elements are addresses, with the null pointer 0; the links of all
  elements are the state \<open>list_links\<close>, and a list is the pair of the addresses of its two header
  elements. Following a null pointer and a failed assertion are \<open>None\<close>. A comparison function depends on
  the elements, not on the links. Loops along a list are partial functions; the specifications show that they return.

  The main result is the total correctness of the natural merge sort \<open>list_sort\<close>.
\<close>

subsection \<open>Elements\<close>

type_synonym eaddr = nat

record list_links =
  le_prev :: "eaddr \<Rightarrow> eaddr"
  le_next :: "eaddr \<Rightarrow> eaddr"

record klist =
  l_head :: eaddr
  l_tail :: eaddr

definition get_prev :: "list_links \<Rightarrow> eaddr \<Rightarrow> eaddr c_res" where
  "get_prev s e = (if e = 0 then None else Some (le_prev s e))"

definition get_next :: "list_links \<Rightarrow> eaddr \<Rightarrow> eaddr c_res" where
  "get_next s e = (if e = 0 then None else Some (le_next s e))"

definition set_prev :: "list_links \<Rightarrow> eaddr \<Rightarrow> eaddr \<Rightarrow> list_links c_res" where
  "set_prev s e v = (if e = 0 then None else Some (s\<lparr>le_prev := (le_prev s)(e := v)\<rparr>))"

definition set_next :: "list_links \<Rightarrow> eaddr \<Rightarrow> eaddr \<Rightarrow> list_links c_res" where
  "set_next s e v = (if e = 0 then None else Some (s\<lparr>le_next := (le_next s)(e := v)\<rparr>))"

definition assert :: "bool \<Rightarrow> unit c_res" where
  "assert b = (if b then Some () else None)"

definition is_head :: "list_links \<Rightarrow> eaddr \<Rightarrow> bool" where
  "is_head s e \<longleftrightarrow> e \<noteq> 0 \<and> le_prev s e = 0 \<and> le_next s e \<noteq> 0"

definition is_interior :: "list_links \<Rightarrow> eaddr \<Rightarrow> bool" where
  "is_interior s e \<longleftrightarrow> e \<noteq> 0 \<and> le_prev s e \<noteq> 0 \<and> le_next s e \<noteq> 0"

definition is_tail :: "list_links \<Rightarrow> eaddr \<Rightarrow> bool" where
  "is_tail s e \<longleftrightarrow> e \<noteq> 0 \<and> le_prev s e \<noteq> 0 \<and> le_next s e = 0"

subsection \<open>Traversal, insertion and removal\<close>

definition list_init :: "list_links \<Rightarrow> klist \<Rightarrow> list_links c_res" where
  "list_init s l = do {
     s \<leftarrow> set_prev s (l_head l) 0;
     s \<leftarrow> set_next s (l_head l) (l_tail l);
     s \<leftarrow> set_prev s (l_tail l) (l_head l);
     set_next s (l_tail l) 0
   }"

definition list_begin :: "list_links \<Rightarrow> klist \<Rightarrow> eaddr c_res" where
  "list_begin s l = get_next s (l_head l)"

definition list_next :: "list_links \<Rightarrow> eaddr \<Rightarrow> eaddr c_res" where
  "list_next s e = do { _ \<leftarrow> assert (is_head s e \<or> is_interior s e); get_next s e }"

definition list_end :: "klist \<Rightarrow> eaddr" where
  "list_end l = l_tail l"

definition list_rbegin :: "list_links \<Rightarrow> klist \<Rightarrow> eaddr c_res" where
  "list_rbegin s l = get_prev s (l_tail l)"

definition list_prev :: "list_links \<Rightarrow> eaddr \<Rightarrow> eaddr c_res" where
  "list_prev s e = do { _ \<leftarrow> assert (is_interior s e \<or> is_tail s e); get_prev s e }"

definition list_rend :: "klist \<Rightarrow> eaddr" where
  "list_rend l = l_head l"

definition list_head :: "klist \<Rightarrow> eaddr" where
  "list_head l = l_head l"

definition list_tail :: "klist \<Rightarrow> eaddr" where
  "list_tail l = l_tail l"

definition list_insert :: "list_links \<Rightarrow> eaddr \<Rightarrow> eaddr \<Rightarrow> list_links c_res" where
  "list_insert s before e = do {
     _ \<leftarrow> assert (is_interior s before \<or> is_tail s before);
     _ \<leftarrow> assert (e \<noteq> 0);
     p \<leftarrow> get_prev s before;
     s \<leftarrow> set_prev s e p;
     s \<leftarrow> set_next s e before;
     p \<leftarrow> get_prev s before;
     s \<leftarrow> set_next s p e;
     set_prev s before e
   }"

definition list_splice :: "list_links \<Rightarrow> eaddr \<Rightarrow> eaddr \<Rightarrow> eaddr \<Rightarrow> list_links c_res" where
  "list_splice s before first last0 = do {
     _ \<leftarrow> assert (is_interior s before \<or> is_tail s before);
     if first = last0 then Some s
     else do {
       lst \<leftarrow> list_prev s last0;
       _ \<leftarrow> assert (is_interior s first);
       _ \<leftarrow> assert (is_interior s lst);
       fp \<leftarrow> get_prev s first;
       ln \<leftarrow> get_next s lst;
       s \<leftarrow> set_next s fp ln;
       ln \<leftarrow> get_next s lst;
       fp \<leftarrow> get_prev s first;
       s \<leftarrow> set_prev s ln fp;
       bp \<leftarrow> get_prev s before;
       s \<leftarrow> set_prev s first bp;
       s \<leftarrow> set_next s lst before;
       bp \<leftarrow> get_prev s before;
       s \<leftarrow> set_next s bp first;
       set_prev s before lst
     }
   }"

definition list_push_front :: "list_links \<Rightarrow> klist \<Rightarrow> eaddr \<Rightarrow> list_links c_res" where
  "list_push_front s l e = do { b \<leftarrow> list_begin s l; list_insert s b e }"

definition list_push_back :: "list_links \<Rightarrow> klist \<Rightarrow> eaddr \<Rightarrow> list_links c_res" where
  "list_push_back s l e = list_insert s (list_end l) e"

definition list_remove :: "list_links \<Rightarrow> eaddr \<Rightarrow> (eaddr \<times> list_links) c_res" where
  "list_remove s e = do {
     _ \<leftarrow> assert (is_interior s e);
     p \<leftarrow> get_prev s e;
     n \<leftarrow> get_next s e;
     s \<leftarrow> set_next s p n;
     n \<leftarrow> get_next s e;
     p \<leftarrow> get_prev s e;
     s \<leftarrow> set_prev s n p;
     n \<leftarrow> get_next s e;
     Some (n, s)
   }"

definition list_empty :: "list_links \<Rightarrow> klist \<Rightarrow> bool c_res" where
  "list_empty s l = do { b \<leftarrow> list_begin s l; Some (b = list_end l) }"

definition list_front :: "list_links \<Rightarrow> klist \<Rightarrow> eaddr c_res" where
  "list_front s l = do { b \<leftarrow> list_empty s l; _ \<leftarrow> assert (\<not> b); get_next s (l_head l) }"

definition list_back :: "list_links \<Rightarrow> klist \<Rightarrow> eaddr c_res" where
  "list_back s l = do { b \<leftarrow> list_empty s l; _ \<leftarrow> assert (\<not> b); get_prev s (l_tail l) }"

definition list_pop_front :: "list_links \<Rightarrow> klist \<Rightarrow> (eaddr \<times> list_links) c_res" where
  "list_pop_front s l = do { front \<leftarrow> list_front s l; (_, s) \<leftarrow> list_remove s front; Some (front, s) }"

definition list_pop_back :: "list_links \<Rightarrow> klist \<Rightarrow> (eaddr \<times> list_links) c_res" where
  "list_pop_back s l = do { back \<leftarrow> list_back s l; (_, s) \<leftarrow> list_remove s back; Some (back, s) }"

text \<open>Counters are natural numbers: every element has an address of its own, so a 32-bit count of them cannot wrap.\<close>

partial_function (option) size_loop :: "list_links \<Rightarrow> klist \<Rightarrow> eaddr \<Rightarrow> nat \<Rightarrow> nat option" where
  [code]: "size_loop s l e cnt = (if e \<noteq> list_end l then do { e' \<leftarrow> list_next s e; size_loop s l e' (Suc cnt) } else Some cnt)"

definition list_size :: "list_links \<Rightarrow> klist \<Rightarrow> nat c_res" where
  "list_size s l = do { e \<leftarrow> list_begin s l; size_loop s l e 0 }"

text \<open>The loop of \<open>list_reverse\<close> swaps the two links of each element and follows the old next link.\<close>

definition swap_links :: "list_links \<Rightarrow> eaddr \<Rightarrow> list_links c_res" where
  "swap_links s e = do { p \<leftarrow> get_prev s e; n \<leftarrow> get_next s e; s \<leftarrow> set_prev s e n; set_next s e p }"

partial_function (option) reverse_loop :: "list_links \<Rightarrow> klist \<Rightarrow> eaddr \<Rightarrow> list_links option" where
  [code]: "reverse_loop s l e =
     (if e \<noteq> list_end l then do { s' \<leftarrow> swap_links s e; e' \<leftarrow> get_prev s' e; reverse_loop s' l e' } else Some s)"

definition list_reverse :: "list_links \<Rightarrow> klist \<Rightarrow> list_links c_res" where
  "list_reverse s l = do {
     b \<leftarrow> list_empty s l;
     if b then Some s
     else do {
       e \<leftarrow> list_begin s l;
       s \<leftarrow> reverse_loop s l e;
       hn \<leftarrow> get_next s (l_head l);
       tp \<leftarrow> get_prev s (l_tail l);
       s \<leftarrow> set_next s (l_head l) tp;
       s \<leftarrow> set_prev s (l_tail l) hn;
       hn \<leftarrow> get_next s (l_head l);
       tp \<leftarrow> get_prev s (l_tail l);
       hnp \<leftarrow> get_prev s hn;
       tpn \<leftarrow> get_next s tp;
       s \<leftarrow> set_prev s hn tpn;
       set_next s tp hnp
     }
   }"

subsection \<open>Ordered lists\<close>

type_synonym less_func = "eaddr \<Rightarrow> eaddr \<Rightarrow> bool"

partial_function (option) is_sorted_loop :: "list_links \<Rightarrow> eaddr \<Rightarrow> eaddr \<Rightarrow> less_func \<Rightarrow> bool option" where
  [code]: "is_sorted_loop s a b lessf = do {
     a \<leftarrow> list_next s a;
     if a \<noteq> b then do { p \<leftarrow> list_prev s a; if lessf a p then Some False else is_sorted_loop s a b lessf } else Some True
   }"

definition is_sorted :: "list_links \<Rightarrow> eaddr \<Rightarrow> eaddr \<Rightarrow> less_func \<Rightarrow> bool c_res" where
  "is_sorted s a b lessf = (if a \<noteq> b then is_sorted_loop s a b lessf else Some True)"

partial_function (option) end_of_run_loop :: "list_links \<Rightarrow> eaddr \<Rightarrow> eaddr \<Rightarrow> less_func \<Rightarrow> eaddr option" where
  [code]: "end_of_run_loop s a b lessf = do {
     a \<leftarrow> list_next s a;
     if a \<noteq> b then do { p \<leftarrow> list_prev s a; if \<not> lessf a p then end_of_run_loop s a b lessf else Some a } else Some a
   }"

definition find_end_of_run :: "list_links \<Rightarrow> eaddr \<Rightarrow> eaddr \<Rightarrow> less_func \<Rightarrow> eaddr c_res" where
  "find_end_of_run s a b lessf = do {
     _ \<leftarrow> assert (a \<noteq> 0);
     _ \<leftarrow> assert (b \<noteq> 0);
     _ \<leftarrow> assert (a \<noteq> b);
     end_of_run_loop s a b lessf
   }"

partial_function (option) merge_loop :: "list_links \<Rightarrow> eaddr \<Rightarrow> eaddr \<Rightarrow> eaddr \<Rightarrow> less_func \<Rightarrow> list_links option" where
  [code]: "merge_loop s a0 a1b0 b1 lessf =
     (if a0 \<noteq> a1b0 \<and> a1b0 \<noteq> b1 then
        if \<not> lessf a1b0 a0 then do { a0' \<leftarrow> list_next s a0; merge_loop s a0' a1b0 b1 lessf }
        else do {
          a1b0' \<leftarrow> list_next s a1b0;
          p \<leftarrow> list_prev s a1b0';
          s' \<leftarrow> list_splice s a0 p a1b0';
          merge_loop s' a0 a1b0' b1 lessf
        }
      else Some s)"

definition inplace_merge :: "list_links \<Rightarrow> eaddr \<Rightarrow> eaddr \<Rightarrow> eaddr \<Rightarrow> less_func \<Rightarrow> list_links c_res" where
  "inplace_merge s a0 a1b0 b1 lessf = do {
     _ \<leftarrow> assert (a0 \<noteq> 0);
     _ \<leftarrow> assert (a1b0 \<noteq> 0);
     _ \<leftarrow> assert (b1 \<noteq> 0);
     r \<leftarrow> is_sorted s a0 a1b0 lessf;
     _ \<leftarrow> assert r;
     r \<leftarrow> is_sorted s a1b0 b1 lessf;
     _ \<leftarrow> assert r;
     merge_loop s a0 a1b0 b1 lessf
   }"

text \<open>One pass, and the passes.\<close>

partial_function (option) sort_pass :: "list_links \<Rightarrow> klist \<Rightarrow> less_func \<Rightarrow> eaddr \<Rightarrow> nat \<Rightarrow> (nat \<times> list_links) option" where
  [code]: "sort_pass s l lessf a0 output_run_cnt =
     (if a0 \<noteq> list_end l then do {
        a1b0 \<leftarrow> find_end_of_run s a0 (list_end l) lessf;
        if a1b0 = list_end l then Some (Suc output_run_cnt, s)
        else do {
          b1 \<leftarrow> find_end_of_run s a1b0 (list_end l) lessf;
          s' \<leftarrow> inplace_merge s a0 a1b0 b1 lessf;
          sort_pass s' l lessf b1 (Suc output_run_cnt)
        }
      } else Some (output_run_cnt, s))"

partial_function (option) sort_loop :: "list_links \<Rightarrow> klist \<Rightarrow> less_func \<Rightarrow> list_links option" where
  [code]: "sort_loop s l lessf = do {
     a0 \<leftarrow> list_begin s l;
     (cnt, s') \<leftarrow> sort_pass s l lessf a0 0;
     if cnt > 1 then sort_loop s' l lessf else Some s'
   }"

definition list_sort :: "list_links \<Rightarrow> klist \<Rightarrow> less_func \<Rightarrow> list_links c_res" where
  "list_sort s l lessf = do {
     s \<leftarrow> sort_loop s l lessf;
     b \<leftarrow> list_begin s l;
     r \<leftarrow> is_sorted s b (list_end l) lessf;
     _ \<leftarrow> assert r;
     Some s
   }"

partial_function (option) insert_place :: "list_links \<Rightarrow> klist \<Rightarrow> eaddr \<Rightarrow> less_func \<Rightarrow> eaddr \<Rightarrow> eaddr option" where
  [code]: "insert_place s l elem lessf e =
     (if e \<noteq> list_end l then if lessf elem e then Some e else do { e' \<leftarrow> list_next s e; insert_place s l elem lessf e' } else Some e)"

definition list_insert_ordered :: "list_links \<Rightarrow> klist \<Rightarrow> eaddr \<Rightarrow> less_func \<Rightarrow> list_links c_res" where
  "list_insert_ordered s l elem lessf = do {
     _ \<leftarrow> assert (elem \<noteq> 0);
     e \<leftarrow> list_begin s l;
     e \<leftarrow> insert_place s l elem lessf e;
     list_insert s e elem
   }"

partial_function (option) unique_loop :: "list_links \<Rightarrow> klist \<Rightarrow> klist option \<Rightarrow> less_func \<Rightarrow> eaddr \<Rightarrow> list_links option" where
  [code]: "unique_loop s l duplicates lessf elem = do {
     nxt \<leftarrow> list_next s elem;
     if nxt \<noteq> list_end l then
       if \<not> lessf elem nxt \<and> \<not> lessf nxt elem then do {
         (_, s1) \<leftarrow> list_remove s nxt;
         s2 \<leftarrow> (case duplicates of None \<Rightarrow> Some s1 | Some d \<Rightarrow> list_push_back s1 d nxt);
         unique_loop s2 l duplicates lessf elem
       }
       else unique_loop s l duplicates lessf nxt
     else Some s
   }"

definition list_unique :: "list_links \<Rightarrow> klist \<Rightarrow> klist option \<Rightarrow> less_func \<Rightarrow> list_links c_res" where
  "list_unique s l duplicates lessf = do {
     b \<leftarrow> list_empty s l;
     if b then Some s else do { e \<leftarrow> list_begin s l; unique_loop s l duplicates lessf e }
   }"

text \<open>The loops of \<open>list_max\<close> and \<open>list_min\<close>; \<open>better\<close> says when the current element replaces the best so far.\<close>

partial_function (option) best_loop :: "list_links \<Rightarrow> klist \<Rightarrow> (eaddr \<Rightarrow> eaddr \<Rightarrow> bool) \<Rightarrow> eaddr \<Rightarrow> eaddr \<Rightarrow> eaddr option" where
  [code]: "best_loop s l better best e =
     (if e \<noteq> list_end l then do { e' \<leftarrow> list_next s e; best_loop s l better (if better best e then e else best) e' } else Some best)"

definition list_max :: "list_links \<Rightarrow> klist \<Rightarrow> less_func \<Rightarrow> eaddr c_res" where
  "list_max s l lessf = do {
     m \<leftarrow> list_begin s l;
     if m \<noteq> list_end l then do { e \<leftarrow> list_next s m; best_loop s l (\<lambda>best e. lessf best e) m e } else Some m
   }"

definition list_min :: "list_links \<Rightarrow> klist \<Rightarrow> less_func \<Rightarrow> eaddr c_res" where
  "list_min s l lessf = do {
     m \<leftarrow> list_begin s l;
     if m \<noteq> list_end l then do { e \<leftarrow> list_next s m; best_loop s l (\<lambda>best e. lessf e best) m e } else Some m
   }"

subsection \<open>Lists in memory\<close>

definition lk :: "list_links \<Rightarrow> eaddr \<Rightarrow> eaddr \<Rightarrow> bool" where
  "lk s x y \<longleftrightarrow> le_next s x = y \<and> le_prev s y = x"

text \<open>All elements of a list, with the two headers.\<close>

definition full :: "klist \<Rightarrow> eaddr list \<Rightarrow> eaddr list" where
  "full l xs = l_head l # xs @ [l_tail l]"

definition dlist :: "list_links \<Rightarrow> klist \<Rightarrow> eaddr list \<Rightarrow> bool" where
  "dlist s l xs \<longleftrightarrow> distinct (full l xs) \<and> 0 \<notin> set (full l xs) \<and> successively (lk s) (full l xs)
     \<and> le_prev s (l_head l) = 0 \<and> le_next s (l_tail l) = 0"

text \<open>Nothing outside the addresses \<open>A\<close> differs.\<close>

definition same_outside :: "eaddr set \<Rightarrow> list_links \<Rightarrow> list_links \<Rightarrow> bool" where
  "same_outside A s s' \<longleftrightarrow> (\<forall>x. x \<notin> A \<longrightarrow> le_prev s' x = le_prev s x \<and> le_next s' x = le_next s x)"

lemma same_outside_refl [simp]: "same_outside A s s"
  by (simp add: same_outside_def)

lemma same_outside_trans: "same_outside A s s' \<Longrightarrow> same_outside A s' s'' \<Longrightarrow> same_outside A s s''"
  by (simp add: same_outside_def)

text \<open>The links of a part of a list survive changes at its ends.\<close>

lemma part_mono:
  assumes "successively (lk s) zs"
    and "\<And>x y. x \<in> set zs \<Longrightarrow> y \<in> set zs \<Longrightarrow> lk s x y \<Longrightarrow> le_next s' x = le_next s x \<and> le_prev s' y = le_prev s y"
  shows "successively (lk s') zs"
proof (rule successively_mono [OF assms(1)])
  show "lk s' x y" if "lk s x y" "x \<in> set zs" "y \<in> set zs" for x y
    using assms(2) [OF that(2,3,1)] that(1) by (simp add: lk_def)
qed

lemma dlist_frame:
  assumes "dlist s l xs" and "same_outside A s s'" and "set (full l xs) \<inter> A = {}"
  shows "dlist s' l xs"
proof -
  have same: "le_prev s' x = le_prev s x \<and> le_next s' x = le_next s x" if "x \<in> set (full l xs)" for x
    using assms(2,3) that by (auto simp: same_outside_def)
  have "successively (lk s') (full l xs)"
    by (rule part_mono [of s]) (use assms(1) same in \<open>simp_all add: dlist_def\<close>)
  then show ?thesis using assms(1) same by (simp add: dlist_def full_def)
qed

lemmas link_ops = get_prev_def get_next_def set_prev_def set_next_def assert_def

lemma dlist_pair: "dlist s l xs \<Longrightarrow> full l xs = us @ a # b # vs \<Longrightarrow> le_next s a = b \<and> le_prev s b = a \<and> a \<noteq> 0 \<and> b \<noteq> 0"
  by (auto simp: dlist_def successively_append_iff lk_def)

text \<open>An element, the tail and the head of a list.\<close>

lemma dlist_elem:
  assumes "dlist s l (as @ e # bs)"
  shows "le_prev s e = last (l_head l # as)" "le_next s e = hd (bs @ [l_tail l])" "is_interior s e"
proof -
  obtain us p where us: "l_head l # as = us @ [p]" by (metis append_butlast_last_id list.discI)
  obtain n vs where vs: "bs @ [l_tail l] = n # vs" by (cases bs) auto
  have f: "full l (as @ e # bs) = us @ p # e # n # vs" using us vs by (simp add: full_def)
  have p: "le_prev s e = p" "p \<noteq> 0" "e \<noteq> 0" using dlist_pair [OF assms f] by simp_all
  moreover have "full l (as @ e # bs) = (us @ [p]) @ e # n # vs" using f by simp
  then have n: "le_next s e = n" "n \<noteq> 0" using dlist_pair [OF assms] by blast+
  ultimately show "le_prev s e = last (l_head l # as)" "le_next s e = hd (bs @ [l_tail l])" "is_interior s e"
    using us vs by (auto simp: is_interior_def)
qed

lemma dlist_head:
  assumes "dlist s l xs"
  shows "le_next s (l_head l) = hd (xs @ [l_tail l])" "is_head s (l_head l)" "l_head l \<noteq> 0" "l_tail l \<noteq> 0"
proof -
  obtain n vs where vs: "xs @ [l_tail l] = n # vs" by (cases xs) auto
  then have "full l xs = [] @ l_head l # n # vs" by (simp add: full_def)
  note pair = dlist_pair [OF assms this]
  show "l_tail l \<noteq> 0" using assms by (auto simp: dlist_def full_def)
  show "le_next s (l_head l) = hd (xs @ [l_tail l])" "is_head s (l_head l)" "l_head l \<noteq> 0"
    using pair vs assms by (auto simp: is_head_def dlist_def)
qed

lemma dlist_tail:
  assumes "dlist s l xs"
  shows "le_prev s (l_tail l) = last (l_head l # xs)" "is_tail s (l_tail l)"
proof -
  obtain us p where us: "l_head l # xs = us @ [p]" by (metis append_butlast_last_id list.discI)
  then have "full l xs = us @ p # l_tail l # []" by (simp add: full_def)
  from dlist_pair [OF assms this] show "le_prev s (l_tail l) = last (l_head l # xs)" "is_tail s (l_tail l)"
    using us assms by (auto simp: is_tail_def dlist_def)
qed

text \<open>The element in front of which something is inserted: interior or the tail.\<close>

lemma dlist_before:
  assumes "dlist s l (as @ bs)"
  shows "le_prev s (hd (bs @ [l_tail l])) = last (l_head l # as)" "hd (bs @ [l_tail l]) \<noteq> 0" "last (l_head l # as) \<noteq> 0"
    "is_interior s (hd (bs @ [l_tail l])) \<or> is_tail s (hd (bs @ [l_tail l]))"
proof -
  have "set (full l (as @ bs)) = set (l_head l # as) \<union> set (bs @ [l_tail l])" by (auto simp: full_def)
  moreover have "hd (bs @ [l_tail l]) \<in> set (bs @ [l_tail l])" "last (l_head l # as) \<in> set (l_head l # as)"
    by (rule hd_in_set, simp, rule last_in_set, simp)
  ultimately show "hd (bs @ [l_tail l]) \<noteq> 0" "last (l_head l # as) \<noteq> 0" using assms unfolding dlist_def by (metis UnI2, metis UnI1)
  show "le_prev s (hd (bs @ [l_tail l])) = last (l_head l # as)"
    "is_interior s (hd (bs @ [l_tail l])) \<or> is_tail s (hd (bs @ [l_tail l]))"
    using dlist_elem(1,3) [of s l as] dlist_tail [of s l as] assms by (cases bs; auto)+
qed

lemma dlist_next_ok:
  assumes "dlist s l (as @ e # bs)"
  shows "list_next s e = Some (hd (bs @ [l_tail l]))"
  using dlist_elem(2,3) [OF assms] by (simp add: list_next_def link_ops is_interior_def)

lemma dlist_prev_ok:
  assumes "dlist s l (as @ bs)"
  shows "list_prev s (hd (bs @ [l_tail l])) = Some (last (l_head l # as))"
  using dlist_before [OF assms] by (auto simp: list_prev_def link_ops)

lemma list_begin_spec: "dlist s l xs \<Longrightarrow> list_begin s l = Some (hd (xs @ [l_tail l]))"
  using dlist_head [of s l xs] by (simp add: list_begin_def link_ops)

lemma list_empty_spec:
  assumes "dlist s l xs"
  shows "list_empty s l = Some (xs = [])"
proof -
  have "hd (xs @ [l_tail l]) = l_tail l \<longleftrightarrow> xs = []" using assms by (cases xs) (auto simp: dlist_def full_def)
  then show ?thesis using list_begin_spec [OF assms] by (simp add: list_empty_def list_end_def)
qed

lemma list_init_spec:
  assumes "l_head l \<noteq> 0" "l_tail l \<noteq> 0" "l_head l \<noteq> l_tail l"
  shows "\<exists>s'. list_init s l = Some s' \<and> dlist s' l [] \<and> same_outside {l_head l, l_tail l} s s'"
  using assms by (auto simp: list_init_def link_ops dlist_def full_def lk_def same_outside_def)

lemma list_insert_spec:
  assumes d: "dlist s l (as @ bs)" and e: "e \<noteq> 0" "e \<notin> set (full l (as @ bs))"
  shows "\<exists>s'. list_insert s (hd (bs @ [l_tail l])) e = Some s' \<and> dlist s' l (as @ e # bs) \<and> same_outside (insert e (set (full l (as @ bs)))) s s'"
proof -
  define A B where "A = l_head l # as" and "B = bs @ [l_tail l]"
  have ne: "A \<noteq> []" "B \<noteq> []" by (simp_all add: A_def B_def)
  have f: "full l (as @ bs) = A @ B" "full l (as @ e # bs) = A @ e # B" by (simp_all add: full_def A_def B_def)
  note b = dlist_before [OF d, folded A_def B_def]
  have sep: "distinct (A @ B)" "0 \<notin> set (A @ B)" "e \<notin> set (A @ B)" "successively (lk s) A" "successively (lk s) B" "lk s (last A) (hd B)"
    using d e ne unfolding dlist_def f by (auto simp: successively_append_iff)
  have mem: "last A \<in> set A" "hd B \<in> set B" using ne by simp_all
  let ?s = "s\<lparr>le_prev := (le_prev s)(e := last A, hd B := e), le_next := (le_next s)(e := hd B, last A := e)\<rparr>"
  have "last A \<noteq> e" "hd B \<noteq> e" "last A \<noteq> hd B" using sep mem by auto
  then have "list_insert s (hd B) e = Some ?s" using b e by (auto simp: list_insert_def link_ops fun_upd_twist)
  moreover have "successively (lk ?s) A"
    by (rule part_mono [OF sep(4)]) (use sep(1,3,6) mem in \<open>auto simp: lk_def\<close>)
  moreover have "successively (lk ?s) B"
    by (rule part_mono [OF sep(5)]) (use sep(1,3,6) mem in \<open>auto simp: lk_def\<close>)
  moreover have "lk ?s (last A) e" "lk ?s e (hd B)" using \<open>last A \<noteq> e\<close> \<open>hd B \<noteq> e\<close> by (simp_all add: lk_def)
  ultimately have "successively (lk ?s) (A @ e # B)" using ne by (cases B) (auto simp: successively_append_iff)
  moreover have "le_prev ?s (l_head l) = 0" "le_next ?s (l_tail l) = 0"
    using d sep(1,3) mem unfolding dlist_def A_def B_def by auto
  ultimately have "dlist ?s l (as @ e # bs)" using sep e unfolding dlist_def f by auto
  moreover have "same_outside (insert e (set (A @ B))) s ?s" using mem by (auto simp: same_outside_def)
  ultimately show ?thesis using \<open>list_insert s (hd B) e = Some ?s\<close> unfolding f B_def by blast
qed

text \<open>Two parts of a list joined by one new link, or separated.\<close>

lemma joined:
  assumes "successively (lk s) A" and "successively (lk s) B" and "A \<noteq> []" "B \<noteq> []" and "lk s (last A) (hd B)"
  shows "successively (lk s) (A @ B)"
  using assms by (simp add: successively_append_iff)

lemma list_remove_spec:
  assumes d: "dlist s l (as @ e # bs)"
  shows "\<exists>s'. list_remove s e = Some (hd (bs @ [l_tail l]), s') \<and> dlist s' l (as @ bs) \<and> same_outside (set (full l (as @ bs))) s s'"
proof -
  define A B where "A = l_head l # as" and "B = bs @ [l_tail l]"
  have ne: "A \<noteq> []" "B \<noteq> []" by (simp_all add: A_def B_def)
  have f: "full l (as @ bs) = A @ B" "full l (as @ e # bs) = A @ e # B" by (simp_all add: full_def A_def B_def)
  note el = dlist_elem [OF d, folded A_def B_def]
  have sep: "distinct (A @ e # B)" "0 \<notin> set (A @ e # B)" "successively (lk s) A" "successively (lk s) B"
    using d ne unfolding dlist_def f by (auto simp: successively_append_iff successively_Cons)
  have mem: "last A \<in> set A" "hd B \<in> set B" using ne by simp_all
  let ?s = "s\<lparr>le_prev := (le_prev s)(hd B := last A), le_next := (le_next s)(last A := hd B)\<rparr>"
  have x: "last A \<noteq> e" "hd B \<noteq> e" "last A \<noteq> hd B" "last A \<noteq> 0" "hd B \<noteq> 0" "e \<noteq> 0" using sep mem by auto
  then have run: "list_remove s e = Some (hd B, ?s)" using el by (simp add: list_remove_def link_ops)
  have at: "le_next s (last A) = e" "le_prev s (hd B) = e"
    using d ne unfolding dlist_def f by (auto simp: successively_append_iff successively_Cons lk_def)
  have "successively (lk ?s) A" by (rule part_mono [OF sep(3)]) (use sep(1) at mem in \<open>auto simp: lk_def\<close>)
  moreover have "successively (lk ?s) B" by (rule part_mono [OF sep(4)]) (use sep(1) at mem in \<open>auto simp: lk_def\<close>)
  ultimately have "successively (lk ?s) (A @ B)" using ne by (intro joined) (simp_all add: lk_def)
  moreover have "le_prev ?s (l_head l) = 0" "le_next ?s (l_tail l) = 0"
    using d sep(1) mem unfolding dlist_def A_def B_def by auto
  ultimately have "dlist ?s l (as @ bs)" using sep unfolding dlist_def f by auto
  moreover have "same_outside (set (A @ B)) s ?s" using mem by (auto simp: same_outside_def)
  ultimately show ?thesis using run unfolding f B_def by blast
qed

text \<open>Moving a part \<open>fs\<close> of a list forward, in front of \<open>vs\<close>.\<close>

lemma list_splice_spec:
  assumes d: "dlist s l (us @ vs @ fs @ ws)" and ne: "vs \<noteq> []" "fs \<noteq> []"
  shows "\<exists>s'. list_splice s (hd vs) (hd fs) (hd (ws @ [l_tail l])) = Some s' \<and> dlist s' l (us @ fs @ vs @ ws)
    \<and> same_outside (set (full l (us @ vs @ fs @ ws))) s s'"
proof -
  define U W where "U = l_head l # us" and "W = ws @ [l_tail l]"
  have nn: "U \<noteq> []" "W \<noteq> []" by (simp_all add: U_def W_def)
  have f: "full l (us @ vs @ fs @ ws) = U @ vs @ fs @ W" "full l (us @ fs @ vs @ ws) = U @ fs @ vs @ W" by (simp_all add: full_def U_def W_def)
  have sep: "distinct (U @ vs @ fs @ W)" "0 \<notin> set (U @ vs @ fs @ W)" and suc: "successively (lk s) (U @ vs @ fs @ W)"
    using d unfolding dlist_def f by auto
  have parts: "successively (lk s) U" "successively (lk s) vs" "successively (lk s) fs" "successively (lk s) W"
    and at: "lk s (last U) (hd vs)" "lk s (last vs) (hd fs)" "lk s (last fs) (hd W)"
    using suc ne nn by (auto simp: successively_append_iff)
  have mem: "last U \<in> set U" "hd vs \<in> set vs" "last vs \<in> set vs" "hd fs \<in> set fs" "last fs \<in> set fs" "hd W \<in> set W" using ne nn by simp_all
  have inn: "x \<noteq> 0 \<and> le_prev s x \<noteq> 0 \<and> le_next s x \<noteq> 0" if "x \<in> set vs \<union> set fs" for x
  proof -
    obtain as bs where "us @ vs @ fs @ ws = as @ x # bs" using \<open>x \<in> set vs \<union> set fs\<close> by (metis UnE in_set_conv_decomp append.assoc append_Cons)
    then show ?thesis using dlist_elem(3) d by (metis is_interior_def)
  qed
  have W: "is_interior s (hd W) \<or> is_tail s (hd W)" using dlist_before(4) [of s l "us @ vs @ fs" ws] d by (simp add: W_def)
  let ?s = "s\<lparr>le_prev := (le_prev s)(hd W := last vs, hd fs := last U, hd vs := last fs),
    le_next := (le_next s)(last vs := hd W, last fs := hd vs, last U := hd fs)\<rparr>"
  have x: "hd fs \<noteq> hd W" "hd vs \<noteq> hd W" "hd fs \<noteq> hd vs" "last vs \<noteq> last fs" "last vs \<noteq> last U" "last U \<noteq> last fs"
    "last U \<noteq> 0" "last vs \<noteq> 0" "hd W \<noteq> 0" using sep mem by auto
  have "list_splice s (hd vs) (hd fs) (hd W) = Some ?s"
    using inn [of "hd vs"] inn [of "hd fs"] inn [of "last fs"] W mem x at
    by (auto simp: list_splice_def list_prev_def link_ops is_interior_def lk_def)
  moreover have "successively (lk ?s) U" by (rule part_mono [OF parts(1)]) (use sep(1) at mem in \<open>auto simp: lk_def\<close>)
  moreover have "successively (lk ?s) vs" by (rule part_mono [OF parts(2)]) (use sep(1) at mem in \<open>auto simp: lk_def\<close>)
  moreover have "successively (lk ?s) fs" by (rule part_mono [OF parts(3)]) (use sep(1) at mem in \<open>auto simp: lk_def\<close>)
  moreover have "successively (lk ?s) W" by (rule part_mono [OF parts(4)]) (use sep(1) at mem in \<open>auto simp: lk_def\<close>)
  ultimately have "successively (lk ?s) (U @ fs @ vs @ W)" using ne nn x by (intro joined) (simp_all add: lk_def)
  moreover have "le_prev ?s (l_head l) = 0" "le_next ?s (l_tail l) = 0"
  proof -
    have "l_head l \<in> set U" "l_tail l \<in> set W" by (simp_all add: U_def W_def)
    then have "l_head l \<noteq> hd W" "l_head l \<noteq> hd fs" "l_head l \<noteq> hd vs" "l_tail l \<noteq> last vs" "l_tail l \<noteq> last fs" "l_tail l \<noteq> last U"
      using sep(1) mem by (auto simp: disjoint_iff)
    moreover have "le_prev s (l_head l) = 0" "le_next s (l_tail l) = 0" using d by (simp_all add: dlist_def)
    ultimately show "le_prev ?s (l_head l) = 0" "le_next ?s (l_tail l) = 0" by simp_all
  qed
  ultimately have "dlist ?s l (us @ fs @ vs @ ws)" using sep unfolding dlist_def f by auto
  moreover have "same_outside (set (U @ vs @ fs @ W)) s ?s" using mem by (auto simp: same_outside_def)
  ultimately show ?thesis using \<open>list_splice s (hd vs) (hd fs) (hd W) = Some ?s\<close> unfolding f W_def by blast
qed

lemma list_push_back_spec:
  "dlist s l xs \<Longrightarrow> e \<noteq> 0 \<Longrightarrow> e \<notin> set (full l xs) \<Longrightarrow>
    \<exists>s'. list_push_back s l e = Some s' \<and> dlist s' l (xs @ [e]) \<and> same_outside (insert e (set (full l xs))) s s'"
  using list_insert_spec [of s l xs "[]" e] by (simp add: list_push_back_def list_end_def)

lemma list_push_front_spec:
  "dlist s l xs \<Longrightarrow> e \<noteq> 0 \<Longrightarrow> e \<notin> set (full l xs) \<Longrightarrow>
    \<exists>s'. list_push_front s l e = Some s' \<and> dlist s' l (e # xs) \<and> same_outside (insert e (set (full l xs))) s s'"
  using list_insert_spec [of s l "[]" xs e] list_begin_spec [of s l xs] by (simp add: list_push_front_def)

lemma list_pop_front_spec:
  assumes "dlist s l (x # xs)"
  shows "\<exists>s'. list_pop_front s l = Some (x, s') \<and> dlist s' l xs \<and> same_outside (set (full l xs)) s s'"
  using list_remove_spec [of s l "[]" x xs] list_empty_spec [OF assms] dlist_head [OF assms] assms
  by (auto simp: list_pop_front_def list_front_def link_ops)

lemma list_pop_back_spec:
  assumes "dlist s l (xs @ [x])"
  shows "\<exists>s'. list_pop_back s l = Some (x, s') \<and> dlist s' l xs \<and> same_outside (set (full l xs)) s s'"
  using list_remove_spec [of s l xs x "[]"] list_empty_spec [OF assms] dlist_tail [OF assms] dlist_head(4) [OF assms] assms
  by (auto simp: list_pop_back_def list_back_def link_ops)

text \<open>The end of a range is reached only at its end.\<close>

lemma not_end:
  assumes "dlist s l (as @ x # bs)"
  shows "x \<noteq> l_tail l" "x \<noteq> l_head l"
  using assms by (auto simp: dlist_def full_def)

lemma size_loop_spec: "dlist s l (as @ bs) \<Longrightarrow> size_loop s l (hd (bs @ [l_tail l])) n = Some (n + length bs)"
proof (induction bs arbitrary: as n)
  case Nil
  then show ?case by (subst size_loop.simps) (simp add: list_end_def)
next
  case (Cons x bs)
  have "size_loop s l (hd (bs @ [l_tail l])) (Suc n) = Some (Suc n + length bs)" using Cons by (intro Cons.IH [of "as @ [x]"]) simp
  then show ?case using dlist_next_ok [OF Cons.prems] not_end [OF Cons.prems] by (subst size_loop.simps) (simp add: list_end_def)
qed

lemma list_size_spec: "dlist s l xs \<Longrightarrow> list_size s l = Some (length xs)"
  using size_loop_spec [of s l "[]" xs 0] list_begin_spec [of s l xs] by (simp add: list_size_def)

text \<open>The scan of \<open>list_max\<close> and \<open>list_min\<close> is a left fold, so the first of several best elements wins.\<close>

lemma best_loop_spec:
  "dlist s l (as @ bs) \<Longrightarrow>
    best_loop s l better b (hd (bs @ [l_tail l])) = Some (foldl (\<lambda>b e. if better b e then e else b) b bs)"
proof (induction bs arbitrary: as b)
  case Nil
  then show ?case by (subst best_loop.simps) (simp add: list_end_def)
next
  case (Cons x bs)
  have "best_loop s l better b' (hd (bs @ [l_tail l])) = Some (foldl (\<lambda>b e. if better b e then e else b) b' bs)" for b'
    using Cons by (intro Cons.IH [of "as @ [x]"]) simp
  then show ?case using dlist_next_ok [OF Cons.prems] not_end [OF Cons.prems] by (subst best_loop.simps) (simp add: list_end_def)
qed

lemma list_max_min_spec:
  assumes "dlist s l (x # xs)"
  shows "list_max s l lessf = Some (foldl (\<lambda>b e. if lessf b e then e else b) x xs)"
    and "list_min s l lessf = Some (foldl (\<lambda>b e. if lessf e b then e else b) x xs)"
  using best_loop_spec [of s l "[x]" xs] dlist_next_ok [of s l "[]" x xs] list_begin_spec [OF assms] not_end [of s l "[]" x xs] assms
  by (simp_all add: list_max_def list_min_def list_end_def)

subsection \<open>Sorting\<close>

definition ordered_by :: "('a \<Rightarrow> 'a \<Rightarrow> bool) \<Rightarrow> 'a list \<Rightarrow> bool" where
  "ordered_by lessf xs \<longleftrightarrow> sorted_wrt (\<lambda>x y. \<not> lessf y x) xs"

text \<open>What a comparison function must be: a strict weak order.\<close>

locale less_order =
  fixes lessf :: "'a \<Rightarrow> 'a \<Rightarrow> bool"
  assumes asym: "lessf x y \<Longrightarrow> \<not> lessf y x"
    and neg_trans: "\<not> lessf x y \<Longrightarrow> \<not> lessf y z \<Longrightarrow> \<not> lessf x z"
begin

abbreviation ordered :: "'a list \<Rightarrow> bool" where
  "ordered xs \<equiv> ordered_by lessf xs"

text \<open>Adjacent elements suffice.\<close>

lemma ordered_Cons2: "ordered (x # y # ys) \<longleftrightarrow> \<not> lessf y x \<and> ordered (y # ys)"
  using neg_trans by (auto simp: ordered_by_def)

lemma ordered_simps [simp]: "ordered []" "ordered [x]"
  by (simp_all add: ordered_by_def)

end

text \<open>The first maximal run, the merging of two runs, one pass over the list with the number of runs it outputs, and the
  number of descents.\<close>

fun run_split :: "('a \<Rightarrow> 'a \<Rightarrow> bool) \<Rightarrow> 'a list \<Rightarrow> 'a list \<times> 'a list" where
  "run_split lessf (x # y # ys) = (if lessf y x then ([x], y # ys) else (let (r, t) = run_split lessf (y # ys) in (x # r, t)))"
| "run_split lessf xs = (xs, [])"

fun merge_runs :: "('a \<Rightarrow> 'a \<Rightarrow> bool) \<Rightarrow> 'a list \<Rightarrow> 'a list \<Rightarrow> 'a list" where
  "merge_runs lessf (x # xs) (y # ys) = (if \<not> lessf y x then x # merge_runs lessf xs (y # ys) else y # merge_runs lessf (x # xs) ys)"
| "merge_runs lessf [] ys = ys"
| "merge_runs lessf xs [] = xs"

fun descents :: "('a \<Rightarrow> 'a \<Rightarrow> bool) \<Rightarrow> 'a list \<Rightarrow> nat" where
  "descents lessf (x # y # ys) = (if lessf y x then Suc (descents lessf (y # ys)) else descents lessf (y # ys))"
| "descents lessf xs = 0"

lemma run_split_append: "run_split lessf xs = (r, t) \<Longrightarrow> xs = r @ t"
  by (induction lessf xs arbitrary: r t rule: run_split.induct) (auto split: if_splits prod.splits)

lemma run_split_Nil: "run_split lessf xs = ([], t) \<Longrightarrow> xs = []"
  by (induction lessf xs arbitrary: t rule: run_split.induct) (auto split: if_splits prod.splits)

lemma run_split_shorter: "run_split lessf xs = (r, t) \<Longrightarrow> xs \<noteq> [] \<Longrightarrow> length t < length xs"
  using run_split_append [of lessf xs r t] run_split_Nil [of lessf xs t] by (cases r) auto

function sort_runs :: "('a \<Rightarrow> 'a \<Rightarrow> bool) \<Rightarrow> 'a list \<Rightarrow> 'a list \<times> nat" where
  "sort_runs lessf xs = (if xs = [] then ([], 0) else case run_split lessf xs of (r1, t1) \<Rightarrow>
     if t1 = [] then (xs, 1) else case run_split lessf t1 of (r2, t2) \<Rightarrow>
       (case sort_runs lessf t2 of (out, n) \<Rightarrow> (merge_runs lessf r1 r2 @ out, Suc n)))"
  by pat_completeness auto
termination
  by (relation "measure (\<lambda>(lessf, xs). length xs)") (simp, simp, metis run_split_shorter less_trans)

declare sort_runs.simps [simp del]

lemma mset_merge_runs: "mset (merge_runs lessf xs ys) = mset xs + mset ys"
  by (induction lessf xs ys rule: merge_runs.induct) auto

lemma sort_runs_Nil: "sort_runs lessf [] = ([], 0)"
  by (simp add: sort_runs.simps)

lemma sort_runs_one: "xs \<noteq> [] \<Longrightarrow> run_split lessf xs = (r, []) \<Longrightarrow> sort_runs lessf xs = (xs, 1)"
  by (simp add: sort_runs.simps)

lemma sort_runs_two:
  "xs \<noteq> [] \<Longrightarrow> run_split lessf xs = (r1, t1) \<Longrightarrow> t1 \<noteq> [] \<Longrightarrow> run_split lessf t1 = (r2, t2) \<Longrightarrow>
    sort_runs lessf xs = (merge_runs lessf r1 r2 @ fst (sort_runs lessf t2), Suc (snd (sort_runs lessf t2)))"
  by (simp add: sort_runs.simps [of lessf xs] split: prod.split)

lemma sort_runs_cases [case_names Nil one two]:
  assumes "P []" and "\<And>xs r. xs \<noteq> [] \<Longrightarrow> run_split lessf xs = (r, []) \<Longrightarrow> P xs"
    and "\<And>xs r1 t1 r2 t2. xs \<noteq> [] \<Longrightarrow> run_split lessf xs = (r1, t1) \<Longrightarrow> t1 \<noteq> [] \<Longrightarrow> run_split lessf t1 = (r2, t2) \<Longrightarrow> P t2 \<Longrightarrow> P xs"
  shows "P xs"
proof (induction xs rule: length_induct)
  case (1 xs)
  obtain r1 t1 where r1: "run_split lessf xs = (r1, t1)" by fastforce
  obtain r2 t2 where r2: "run_split lessf t1 = (r2, t2)" by fastforce
  show ?case
  proof (cases "xs = [] \<or> t1 = []")
    case False
    then have "length t2 < length xs" using run_split_shorter [OF r1] run_split_shorter [OF r2] by simp
    then show ?thesis using assms(3) [OF _ r1 _ r2] False 1 by blast
  next
    case True
    then show ?thesis using assms(1) assms(2) [of xs r1] r1 by blast
  qed
qed

lemma mset_sort_runs: "mset (fst (sort_runs lessf xs)) = mset xs"
proof (induction xs rule: sort_runs_cases [of _ lessf])
  case (two xs r1 t1 r2 t2)
  have "mset xs = mset r1 + mset r2 + mset t2" using run_split_append [OF two(2)] run_split_append [OF two(4)] by simp
  then show ?case using two(5) unfolding sort_runs_two [OF two(1-4)] by (simp add: mset_merge_runs)
qed (auto simp: sort_runs_Nil sort_runs_one)

text \<open>A run is ordered and ends with a descent.\<close>

lemma run_split_last: "run_split lessf xs = (r, t) \<Longrightarrow> t \<noteq> [] \<Longrightarrow> lessf (hd t) (last r)"
  by (induction lessf xs arbitrary: r t rule: run_split.induct) (auto split: if_splits prod.splits dest: run_split_Nil)

lemma descents_run: "run_split lessf xs = (r, t) \<Longrightarrow> descents lessf xs = (if t = [] then 0 else Suc (descents lessf t))"
  by (induction lessf xs arbitrary: r t rule: run_split.induct) (auto split: if_splits prod.splits)

lemma descents_append: "descents lessf (xs @ ys) \<le> Suc (descents lessf xs + descents lessf ys)"
proof (induction lessf xs rule: descents.induct [case_names two none one])
  case (one lessf x)
  then show ?case by (cases ys) auto
qed auto

context less_order
begin

lemma run_ordered: "run_split lessf xs = (r, t) \<Longrightarrow> ordered r"
proof (induction xs arbitrary: r t rule: induct_list012)
  case (3 x y ys)
  show ?case
  proof (cases "lessf y x")
    case False
    then obtain r' where r': "run_split lessf (y # ys) = (r', t)" "r = x # r'" using 3(3) by (auto split: prod.splits)
    then obtain r'' where "r' = y # r''" using run_split_append [OF r'(1)] run_split_Nil [of lessf "y # ys" t] by (cases r') auto
    then show ?thesis using False 3(2) [OF r'(1)] r'(2) by (simp add: ordered_Cons2)
  qed (use 3(3) in auto)
qed auto

lemma merge_ordered: "ordered xs \<Longrightarrow> ordered ys \<Longrightarrow> ordered (merge_runs lessf xs ys)"
proof (induction xs arbitrary: ys)
  case (Cons x xs)
  note outer = Cons
  from Cons.prems(2) show ?case
  proof (induction ys)
    case (Cons y ys)
    have set: "set (merge_runs lessf us vs) = set us \<union> set vs" for us vs
      using mset_merge_runs [of lessf us vs] by (metis set_mset_mset set_mset_union)
    show ?case
    proof (cases "lessf y x")
      case True
      have "ordered (merge_runs lessf (x # xs) ys)" using Cons by (simp add: ordered_by_def)
      moreover have "\<not> lessf z y" if "z \<in> set (x # xs) \<union> set ys" for z
        using that Cons.prems outer(2) True asym [OF True] neg_trans [of z x y] by (auto simp: ordered_by_def)
      ultimately show ?thesis using True set by (simp add: ordered_by_def)
    next
      case False
      have "ordered (merge_runs lessf xs (y # ys))" using outer Cons.prems by (simp add: ordered_by_def)
      moreover have "\<not> lessf z x" if "z \<in> set xs \<union> set (y # ys)" for z
        using that Cons.prems outer(2) False neg_trans [of z y x] by (auto simp: ordered_by_def)
      ultimately show ?thesis using False set by (simp add: ordered_by_def)
    qed
  qed (use outer(2) in simp)
qed simp

lemma ordered_descents: "ordered xs \<Longrightarrow> descents lessf xs = 0"
  by (induction xs rule: induct_list012) (auto simp: ordered_Cons2)

text \<open>A pass outputs at most one more run than half the descents, so the number of descents decreases until one run is left.\<close>

lemma sort_runs_descents:
  "descents lessf (fst (sort_runs lessf xs)) \<le> snd (sort_runs lessf xs) - 1 \<and> 2 * (snd (sort_runs lessf xs) - 1) \<le> descents lessf xs
    \<and> (xs \<noteq> [] \<longrightarrow> 0 < snd (sort_runs lessf xs))"
proof (induction xs rule: sort_runs_cases [of _ lessf])
  case (one xs r)
  then have "xs = r" using run_split_append by fastforce
  then show ?case using sort_runs_one [OF one] run_ordered [OF one(2)] ordered_descents by simp
next
  case (two xs r1 t1 r2 t2)
  have m: "descents lessf (merge_runs lessf r1 r2) = 0"
    using merge_ordered run_ordered [OF two(2)] run_ordered [OF two(4)] ordered_descents by blast
  have d: "descents lessf xs = Suc (descents lessf t1)" "descents lessf t1 = (if t2 = [] then 0 else Suc (descents lessf t2))"
    using descents_run [OF two(2)] descents_run [OF two(4)] two(3) by simp_all
  show ?case
  proof (cases "t2 = []")
    case True
    then show ?thesis using sort_runs_two [OF two(1-4)] m d by (simp add: sort_runs_Nil)
  next
    case False
    then show ?thesis using sort_runs_two [OF two(1-4)] m d two(5) descents_append [of lessf "merge_runs lessf r1 r2" "fst (sort_runs lessf t2)"]
      by auto
  qed
qed (simp add: sort_runs_Nil)

lemma sort_runs_last: "snd (sort_runs lessf xs) \<le> 1 \<Longrightarrow> ordered (fst (sort_runs lessf xs))"
proof (induction xs rule: sort_runs_cases [of _ lessf])
  case (one xs r)
  then show ?case using run_split_append [OF one(2)] run_ordered [OF one(2)] by (simp add: sort_runs_one)
next
  case (two xs r1 t1 r2 t2)
  then have "t2 = []" using sort_runs_two [OF two(1-4)] sort_runs_descents [of t2] by auto
  then show ?case using sort_runs_two [OF two(1-4)] merge_ordered run_ordered [OF two(2)] run_ordered [OF two(4)] by (simp add: sort_runs_Nil)
qed (simp add: sort_runs_Nil)

lemma ordered_adjacent: "successively (\<lambda>x y. \<not> lessf y x) xs \<longleftrightarrow> ordered xs"
  by (induction xs rule: induct_list012) (auto simp: ordered_Cons2)

end

text \<open>The loops over a part of a list.\<close>

lemma end_of_run_loop_spec:
  "dlist s l (as @ x # bs) \<Longrightarrow> run_split lessf (x # bs) = (r, t) \<Longrightarrow> end_of_run_loop s x (l_tail l) lessf = Some (hd (t @ [l_tail l]))"
proof (induction bs arbitrary: as x r)
  case Nil
  then show ?case using dlist_next_ok [OF Nil(1)] by (subst end_of_run_loop.simps) simp
next
  case (Cons y bs)
  have d: "dlist s l ((as @ [x]) @ y # bs)" using Cons.prems(1) by simp
  have p: "list_next s x = Some y" "list_prev s y = Some x" "y \<noteq> l_tail l"
    using dlist_next_ok [OF Cons.prems(1)] dlist_prev_ok [OF d] not_end [OF d] by simp_all
  show ?case
  proof (cases "lessf y x")
    case True
    then show ?thesis using Cons.prems(2) p by (subst end_of_run_loop.simps) auto
  next
    case False
    then obtain r' where "run_split lessf (y # bs) = (r', t)" using Cons.prems(2) by (auto split: prod.splits)
    then show ?thesis using Cons.IH [OF d] p False by (subst end_of_run_loop.simps) simp
  qed
qed

lemma find_end_of_run_spec:
  assumes "dlist s l (as @ bs)" "bs \<noteq> []" "run_split lessf bs = (r, t)"
  shows "find_end_of_run s (hd bs) (l_tail l) lessf = Some (hd (t @ [l_tail l]))"
proof -
  obtain x bs' where "bs = x # bs'" using assms(2) by (cases bs) auto
  then show ?thesis using end_of_run_loop_spec [of s l as x bs'] not_end [of s l as x bs'] dlist_before(2) [of s l as bs] dlist_tail(2) [of s l "as @ bs"] assms
    by (simp add: find_end_of_run_def assert_def is_tail_def)
qed

lemma is_sorted_loop_spec:
  "dlist s l (as @ x # r @ ws) \<Longrightarrow>
    is_sorted_loop s x (hd (ws @ [l_tail l])) lessf = Some (successively (\<lambda>x y. \<not> lessf y x) (x # r))"
proof (induction r arbitrary: as x)
  case Nil
  then show ?case using dlist_next_ok [OF Nil] by (subst is_sorted_loop.simps) simp
next
  case (Cons y r)
  have d: "dlist s l ((as @ [x]) @ y # r @ ws)" using Cons.prems by simp
  have "y \<notin> set (ws @ [l_tail l])" using d by (auto simp: dlist_def full_def)
  then have "y \<noteq> hd (ws @ [l_tail l])" using hd_in_set [of "ws @ [l_tail l]"] by auto
  moreover have "list_next s x = Some y" "list_prev s y = Some x"
    using dlist_next_ok [of s l as x "y # r @ ws"] dlist_prev_ok [OF d] Cons.prems by simp_all
  ultimately show ?case using Cons.IH [OF d] by (subst is_sorted_loop.simps) simp
qed

lemma is_sorted_spec:
  assumes "dlist s l (as @ r @ ws)"
  shows "is_sorted s (hd (r @ ws @ [l_tail l])) (hd (ws @ [l_tail l])) lessf = Some (successively (\<lambda>x y. \<not> lessf y x) r)"
proof (cases r)
  case (Cons x r')
  have "x \<notin> set (ws @ [l_tail l])" using assms Cons by (auto simp: dlist_def full_def)
  then have "x \<noteq> hd (ws @ [l_tail l])" using hd_in_set [of "ws @ [l_tail l]"] by auto
  then show ?thesis using is_sorted_loop_spec [of s l as x r' ws] assms Cons by (simp add: is_sorted_def)
qed (simp add: is_sorted_def)

lemma merge_loop_spec:
  "dlist s l (as @ r1 @ r2 @ ws) \<Longrightarrow>
    \<exists>s'. merge_loop s (hd (r1 @ r2 @ ws @ [l_tail l])) (hd (r2 @ ws @ [l_tail l])) (hd (ws @ [l_tail l])) lessf = Some s'
      \<and> dlist s' l (as @ merge_runs lessf r1 r2 @ ws) \<and> same_outside (set (full l (as @ r1 @ r2 @ ws))) s s'"
proof (induction lessf r1 r2 arbitrary: as s rule: merge_runs.induct)
  case (1 lessf x xs y ys)
  have d: "dlist s l (as @ x # (xs @ y # ys @ ws))" "dlist s l ((as @ x # xs) @ y # (ys @ ws))"
    "dlist s l ((as @ x # xs @ [y]) @ ys @ ws)" using 1(3) by simp_all
  have "x \<noteq> y" "y \<notin> set (ws @ [l_tail l])" using d(1) by (auto simp: dlist_def full_def)
  then have ne: "x \<noteq> y" "y \<noteq> hd (ws @ [l_tail l])" using hd_in_set [of "ws @ [l_tail l]"] by auto
  have n: "list_next s x = Some (hd (xs @ y # ys @ ws @ [l_tail l]))" "list_next s y = Some (hd (ys @ ws @ [l_tail l]))"
    "list_prev s (hd (ys @ ws @ [l_tail l])) = Some y"
    using dlist_next_ok [OF d(1)] dlist_next_ok [OF d(2)] dlist_prev_ok [OF d(3)] by simp_all
  show ?case
  proof (cases "lessf y x")
    case False
    then show ?thesis using 1(1) [of s "as @ [x]"] 1(3) ne n by (subst merge_loop.simps) simp
  next
    case True
    obtain s1 where s1: "list_splice s x y (hd (ys @ ws @ [l_tail l])) = Some s1" "dlist s1 l (as @ y # x # xs @ ys @ ws)"
      "same_outside (set (full l (as @ (x # xs) @ (y # ys) @ ws))) s s1"
      using list_splice_spec [of s l as "x # xs" "[y]" "ys @ ws"] 1(3) by auto
    obtain s2 where s2: "merge_loop s1 x (hd (ys @ ws @ [l_tail l])) (hd (ws @ [l_tail l])) lessf = Some s2"
      "dlist s2 l (as @ y # merge_runs lessf (x # xs) ys @ ws)" "same_outside (set (full l (as @ y # x # xs @ ys @ ws))) s1 s2"
      using 1(2) [of s1 "as @ [y]"] True s1(2) by auto
    have "set (full l (as @ y # x # xs @ ys @ ws)) = set (full l (as @ (x # xs) @ (y # ys) @ ws))" by (auto simp: full_def)
    then have "same_outside (set (full l (as @ (x # xs) @ (y # ys) @ ws))) s s2" using same_outside_trans [OF s1(3)] s2(3) by simp
    then show ?thesis using True ne n s1(1) s2(1,2) by (subst merge_loop.simps) simp
  qed
qed (subst merge_loop.simps, simp)+

lemma run_adjacent: "run_split lessf xs = (r, t) \<Longrightarrow> successively (\<lambda>x y. \<not> lessf y x) r"
proof (induction lessf xs arbitrary: r t rule: run_split.induct)
  case (1 lessf x y ys)
  show ?case
  proof (cases "lessf y x")
    case False
    then obtain r' where r': "run_split lessf (y # ys) = (r', t)" "r = x # r'" using 1(2) by (auto split: prod.splits)
    then obtain r'' where "r' = y # r''" using run_split_append [OF r'(1)] run_split_Nil [of lessf "y # ys" t] by (cases r') auto
    then show ?thesis using False 1(1) [OF False r'(1)] r'(2) by simp
  qed (use 1(2) in auto)
qed auto

lemma inplace_merge_spec:
  assumes d: "dlist s l (as @ r1 @ r2 @ ws)" and r: "successively (\<lambda>x y. \<not> lessf y x) r1" "successively (\<lambda>x y. \<not> lessf y x) r2"
  shows "\<exists>s'. inplace_merge s (hd (r1 @ r2 @ ws @ [l_tail l])) (hd (r2 @ ws @ [l_tail l])) (hd (ws @ [l_tail l])) lessf = Some s'
      \<and> dlist s' l (as @ merge_runs lessf r1 r2 @ ws) \<and> same_outside (set (full l (as @ r1 @ r2 @ ws))) s s'"
proof -
  have d': "dlist s l ((as @ r1) @ r2 @ ws)" "dlist s l ((as @ r1 @ r2) @ ws)" using d by simp_all
  have nz: "hd (r1 @ r2 @ ws @ [l_tail l]) \<noteq> 0" "hd (r2 @ ws @ [l_tail l]) \<noteq> 0" "hd (ws @ [l_tail l]) \<noteq> 0"
    using dlist_before(2) [OF d] dlist_before(2) [OF d'(1)] dlist_before(2) [OF d'(2)] by simp_all
  then show ?thesis using is_sorted_spec [of s l as r1 "r2 @ ws" lessf] is_sorted_spec [OF d'(1), of lessf] r d merge_loop_spec [OF d, of lessf]
    by (simp add: inplace_merge_def assert_def)
qed

lemma sort_pass_spec:
  "dlist s l (as @ bs) \<Longrightarrow>
    \<exists>s'. sort_pass s l lessf (hd (bs @ [l_tail l])) n = Some (n + snd (sort_runs lessf bs), s')
      \<and> dlist s' l (as @ fst (sort_runs lessf bs)) \<and> same_outside (set (full l (as @ bs))) s s'"
proof (induction bs arbitrary: s as n rule: sort_runs_cases [of _ lessf])
  case Nil
  then show ?case by (subst sort_pass.simps) (simp add: list_end_def sort_runs_Nil)
next
  case (one xs r)
  have "hd (xs @ [l_tail l]) = hd xs" "hd xs \<noteq> l_tail l" using one(1,3) not_end(1) [of s l as "hd xs" "tl xs"] by simp_all
  then show ?case using find_end_of_run_spec [OF one(3,1,2)] one sort_runs_one [OF one(1,2)]
    by (subst sort_pass.simps) (simp add: list_end_def)
next
  case (two xs r1 t1 r2 t2)
  have xs: "xs = r1 @ r2 @ t2" "t1 = r2 @ t2" using run_split_append [OF two(2)] run_split_append [OF two(4)] by simp_all
  have d: "dlist s l ((as @ r1) @ t1)" using two(6) xs by simp
  have h: "hd (xs @ [l_tail l]) = hd xs" "hd xs \<noteq> l_tail l" "hd (t1 @ [l_tail l]) = hd t1" "hd t1 \<noteq> l_tail l"
    using two(1,3,6) not_end(1) [of s l as "hd xs" "tl xs"] not_end(1) [of s l "as @ r1" "hd t1" "tl t1"] d by simp_all
  have f: "find_end_of_run s (hd xs) (l_tail l) lessf = Some (hd t1)" "find_end_of_run s (hd t1) (l_tail l) lessf = Some (hd (t2 @ [l_tail l]))"
    using find_end_of_run_spec [OF two(6,1,2)] find_end_of_run_spec [OF d two(3,4)] h by simp_all
  obtain s1 where s1: "inplace_merge s (hd xs) (hd t1) (hd (t2 @ [l_tail l])) lessf = Some s1"
    "dlist s1 l ((as @ merge_runs lessf r1 r2) @ t2)" "same_outside (set (full l (as @ xs))) s s1"
    using inplace_merge_spec [of s l as r1 r2 t2 lessf] two(6) run_adjacent [OF two(2)] run_adjacent [OF two(4)] h(1,3) xs by auto
  obtain s2 where s2: "sort_pass s1 l lessf (hd (t2 @ [l_tail l])) (Suc n) = Some (Suc n + snd (sort_runs lessf t2), s2)"
    "dlist s2 l ((as @ merge_runs lessf r1 r2) @ fst (sort_runs lessf t2))"
    "same_outside (set (full l ((as @ merge_runs lessf r1 r2) @ t2))) s1 s2" using two(5) [OF s1(2)] by blast
  have "set (merge_runs lessf r1 r2) = set r1 \<union> set r2" using mset_merge_runs [of lessf r1 r2] by (metis set_mset_mset set_mset_union)
  then have "set (full l ((as @ merge_runs lessf r1 r2) @ t2)) = set (full l (as @ xs))" by (auto simp: full_def xs)
  then have "same_outside (set (full l (as @ xs))) s s2" using same_outside_trans [OF s1(3)] s2(3) by simp
  then show ?case using h f s1(1) s2(1,2) unfolding sort_runs_two [OF two(1-4)] by (subst sort_pass.simps) (simp add: list_end_def)
qed

lemma sort_loop_spec:
  assumes "less_order lessf" "dlist s l xs"
  shows "\<exists>s' ys. sort_loop s l lessf = Some s' \<and> dlist s' l ys \<and> mset ys = mset xs \<and> ordered_by lessf ys \<and> same_outside (set (full l xs)) s s'"
  using assms(2)
proof (induction "descents lessf xs" arbitrary: s xs rule: less_induct)
  case less
  let ?out = "fst (sort_runs lessf xs)" and ?n = "snd (sort_runs lessf xs)"
  obtain s1 where s1: "sort_pass s l lessf (hd (xs @ [l_tail l])) 0 = Some (?n, s1)" "dlist s1 l ?out" "same_outside (set (full l xs)) s s1"
    using sort_pass_spec [of s l "[]" xs lessf 0] less(2) by auto
  have m: "mset ?out = mset xs" by (rule mset_sort_runs)
  then have "set ?out = set xs" by (metis set_mset_mset)
  then have F: "set (full l ?out) = set (full l xs)" by (simp add: full_def)
  have L: "sort_loop s l lessf = (if ?n > 1 then sort_loop s1 l lessf else Some s1)"
    using s1(1) list_begin_spec [OF less(2)] by (subst sort_loop.simps) simp
  show ?case
  proof (cases "?n > 1")
    case True
    then have "descents lessf ?out < descents lessf xs" using less_order.sort_runs_descents [OF assms(1), of xs] by linarith
    then obtain s2 ys where "sort_loop s1 l lessf = Some s2" "dlist s2 l ys" "mset ys = mset ?out" "ordered_by lessf ys"
      "same_outside (set (full l ?out)) s1 s2" using less(1) [OF _ s1(2)] by blast
    then show ?thesis using L True m F same_outside_trans [OF s1(3)] by (intro exI [of _ s2] exI [of _ ys]) simp
  next
    case False
    then show ?thesis using L s1(2,3) m less_order.sort_runs_last [OF assms(1), of xs] by (intro exI [of _ s1] exI [of _ ?out]) simp
  qed
qed

lemma list_sort_spec:
  assumes "less_order lessf" "dlist s l xs"
  shows "\<exists>s' ys. list_sort s l lessf = Some s' \<and> dlist s' l ys \<and> mset ys = mset xs \<and> ordered_by lessf ys \<and> same_outside (set (full l xs)) s s'"
proof -
  obtain s' ys where s': "sort_loop s l lessf = Some s'" "dlist s' l ys" "mset ys = mset xs" "ordered_by lessf ys" "same_outside (set (full l xs)) s s'"
    using sort_loop_spec [OF assms] by blast
  have "is_sorted s' (hd (ys @ [l_tail l])) (l_tail l) lessf = Some True"
    using is_sorted_spec [of s' l "[]" ys "[]" lessf] s'(2,4) less_order.ordered_adjacent [OF assms(1), of ys] by simp
  then show ?thesis using s' list_begin_spec [OF s'(2)] by (intro exI [of _ s'] exI [of _ ys]) (simp add: list_sort_def list_end_def assert_def)
qed

subsection \<open>Insertion in order, unique elements and reversal\<close>

lemma insert_place_spec:
  "dlist s l (as @ bs) \<Longrightarrow> insert_place s l e lessf (hd (bs @ [l_tail l])) = Some (hd (dropWhile (\<lambda>x. \<not> lessf e x) bs @ [l_tail l]))"
proof (induction bs arbitrary: as)
  case Nil
  then show ?case by (subst insert_place.simps) (simp add: list_end_def)
next
  case (Cons x bs)
  have "insert_place s l e lessf (hd (bs @ [l_tail l])) = Some (hd (dropWhile (\<lambda>x. \<not> lessf e x) bs @ [l_tail l]))"
    using Cons by (intro Cons.IH [of "as @ [x]"]) simp
  then show ?case using dlist_next_ok [OF Cons.prems] not_end [OF Cons.prems] by (subst insert_place.simps) (simp add: list_end_def)
qed

lemma list_insert_ordered_spec:
  assumes "dlist s l xs" "e \<noteq> 0" "e \<notin> set (full l xs)"
  shows "\<exists>s'. list_insert_ordered s l e lessf = Some s'
    \<and> dlist s' l (takeWhile (\<lambda>x. \<not> lessf e x) xs @ e # dropWhile (\<lambda>x. \<not> lessf e x) xs) \<and> same_outside (insert e (set (full l xs))) s s'"
  using list_insert_spec [of s l "takeWhile (\<lambda>x. \<not> lessf e x) xs" "dropWhile (\<lambda>x. \<not> lessf e x) xs" e]
    insert_place_spec [of s l "[]" xs e lessf] list_begin_spec [of s l xs] assms
  by (simp add: list_insert_ordered_def assert_def)

text \<open>The elements \<open>list_unique\<close> keeps and the elements it takes out, which go to the end of \<open>duplicates\<close>.\<close>

fun uniq :: "('a \<Rightarrow> 'a \<Rightarrow> bool) \<Rightarrow> 'a list \<Rightarrow> 'a list" where
  "uniq lessf (x # y # ys) = (if \<not> lessf x y \<and> \<not> lessf y x then uniq lessf (x # ys) else x # uniq lessf (y # ys))"
| "uniq lessf xs = xs"

fun dups :: "('a \<Rightarrow> 'a \<Rightarrow> bool) \<Rightarrow> 'a list \<Rightarrow> 'a list" where
  "dups lessf (x # y # ys) = (if \<not> lessf x y \<and> \<not> lessf y x then y # dups lessf (x # ys) else dups lessf (y # ys))"
| "dups lessf xs = []"

text \<open>The list of duplicates, when there is one, is another list.\<close>

definition dup_list :: "list_links \<Rightarrow> klist option \<Rightarrow> eaddr list \<Rightarrow> eaddr set \<Rightarrow> bool" where
  "dup_list s d ds A \<longleftrightarrow> (case d of None \<Rightarrow> True | Some k \<Rightarrow> dlist s k ds \<and> set (full k ds) \<inter> A = {})"

lemma unique_loop_spec:
  "dlist s l (as @ x # bs) \<Longrightarrow> dup_list s d ds (set (full l (as @ x # bs))) \<Longrightarrow>
    \<exists>s'. unique_loop s l d lessf x = Some s' \<and> dlist s' l (as @ uniq lessf (x # bs))
      \<and> (\<forall>k. d = Some k \<longrightarrow> dlist s' k (ds @ dups lessf (x # bs)))"
proof (induction lessf "x # bs" arbitrary: s as x bs ds rule: uniq.induct [case_names two none one])
  case (two lessf x y ys)
  have d: "dlist s l ((as @ [x]) @ y # ys)" using two(3) by simp
  have n: "list_next s x = Some y" "y \<noteq> l_tail l" using dlist_next_ok [OF two(3)] not_end [OF d] by simp_all
  show ?case
  proof (cases "\<not> lessf x y \<and> \<not> lessf y x")
    case True
    obtain s1 where s1: "list_remove s y = Some (hd (ys @ [l_tail l]), s1)" "dlist s1 l (as @ x # ys)"
      "same_outside (set (full l (as @ x # ys))) s s1" using list_remove_spec [OF d] by auto
    have y: "y \<noteq> 0" "y \<notin> set (full l (as @ x # ys))" using d by (auto simp: dlist_def full_def)
    have sub: "set (full l (as @ x # y # ys)) = insert y (set (full l (as @ x # ys)))" by (auto simp: full_def)
    obtain s2 ds2 where s2: "(case d of None \<Rightarrow> Some s1 | Some k \<Rightarrow> list_push_back s1 k y) = Some s2" "dlist s2 l (as @ x # ys)"
      "dup_list s2 d ds2 (set (full l (as @ x # ys)))" "d \<noteq> None \<Longrightarrow> ds2 = ds @ [y]"
    proof (cases d)
      case None
      then show thesis using s1(2) by (intro that [of s1 ds]) (simp_all add: dup_list_def)
    next
      case (Some k)
      then have k: "dlist s k ds" "set (full k ds) \<inter> set (full l (as @ x # y # ys)) = {}" using two(4) by (simp_all add: dup_list_def)
      have "dlist s1 k ds" using k sub by (intro dlist_frame [OF k(1) s1(3)]) auto
      then obtain s2 where p: "list_push_back s1 k y = Some s2" "dlist s2 k (ds @ [y])" "same_outside (insert y (set (full k ds))) s1 s2"
        using list_push_back_spec [of s1 k ds y] y(1) k(2) sub by blast
      have "dlist s2 l (as @ x # ys)" using k(2) y(2) sub by (intro dlist_frame [OF s1(2) p(3)]) auto
      moreover have "set (full k (ds @ [y])) \<inter> set (full l (as @ x # ys)) = {}" using k(2) y(2) sub by (auto simp: full_def)
      ultimately show thesis using p(1,2) Some by (intro that [of s2 "ds @ [y]"]) (simp_all add: dup_list_def)
    qed
    obtain s3 where "unique_loop s2 l d lessf x = Some s3" "dlist s3 l (as @ uniq lessf (x # ys))"
      "\<forall>k. d = Some k \<longrightarrow> dlist s3 k (ds2 @ dups lessf (x # ys))" using two(1) [OF True s2(2,3)] by blast
    then show ?thesis using n s1(1) s2(1,4) True by (subst unique_loop.simps) (simp add: list_end_def)
  next
    case False
    then show ?thesis using two(2) [OF False, of s "as @ [x]" ds] two(3,4) n by (subst unique_loop.simps) (auto simp: list_end_def)
  qed
next
  case (one lessf x)
  then show ?case using dlist_next_ok [of s l as x "[]"] by (subst unique_loop.simps) (simp add: list_end_def dup_list_def split: option.splits)
qed

lemma list_unique_spec:
  assumes "dlist s l xs" "dup_list s d ds (set (full l xs))"
  shows "\<exists>s'. list_unique s l d lessf = Some s' \<and> dlist s' l (uniq lessf xs) \<and> (\<forall>k. d = Some k \<longrightarrow> dlist s' k (ds @ dups lessf xs))"
proof (cases xs)
  case Nil
  then show ?thesis using assms list_empty_spec [OF assms(1)] by (auto simp: list_unique_def dup_list_def)
next
  case (Cons x bs)
  then show ?thesis using assms unique_loop_spec [of s l "[]" x bs d ds lessf] list_empty_spec [OF assms(1)] list_begin_spec [OF assms(1)]
    by (simp add: list_unique_def)
qed

text \<open>Reversal: the loop exchanges the two links of the elements it has passed.\<close>

definition flipped :: "eaddr set \<Rightarrow> list_links \<Rightarrow> list_links" where
  "flipped A s = \<lparr>le_prev = \<lambda>e. if e \<in> A then le_next s e else le_prev s e, le_next = \<lambda>e. if e \<in> A then le_prev s e else le_next s e\<rparr>"

lemma flipped_none [simp]: "flipped {} s = s"
  by (cases s) (simp add: flipped_def)

lemma reverse_loop_spec:
  "dlist s l (as @ bs) \<Longrightarrow> reverse_loop (flipped (set as) s) l (hd (bs @ [l_tail l])) = Some (flipped (set (as @ bs)) s)"
proof (induction bs arbitrary: as)
  case Nil
  then show ?case by (subst reverse_loop.simps) (simp add: list_end_def)
next
  case (Cons x bs)
  have x: "x \<noteq> 0" "x \<notin> set as" using Cons.prems by (auto simp: dlist_def full_def)
  have "swap_links (flipped (set as) s) x = Some (flipped (set (as @ [x])) s)"
    using x by (auto simp: swap_links_def link_ops flipped_def)
  moreover have "le_next s x = hd (bs @ [l_tail l])" using dlist_elem(2) [OF Cons.prems] .
  then have "get_prev (flipped (set (as @ [x])) s) x = Some (hd (bs @ [l_tail l]))" using x by (simp add: link_ops flipped_def)
  moreover have "reverse_loop (flipped (set (as @ [x])) s) l (hd (bs @ [l_tail l])) = Some (flipped (set (as @ x # bs)) s)"
    using Cons.IH [of "as @ [x]"] Cons.prems by simp
  ultimately show ?case using not_end [OF Cons.prems] by (subst reverse_loop.simps) (simp add: list_end_def)
qed

lemma list_reverse_spec:
  assumes d: "dlist s l xs"
  shows "\<exists>s'. list_reverse s l = Some s' \<and> dlist s' l (rev xs)"
proof (cases "xs = []")
  case True
  then show ?thesis using d list_empty_spec [OF d] by (simp add: list_reverse_def)
next
  case False
  let ?h = "l_head l" and ?t = "l_tail l" and ?a = "hd xs" and ?z = "last xs"
  have sep: "?h \<notin> set xs" "?t \<notin> set xs" "?h \<noteq> ?t" "distinct xs" "0 \<notin> set xs" "?h \<noteq> 0" "?t \<noteq> 0" using d by (auto simp: dlist_def full_def)
  have mem: "?a \<in> set xs" "?z \<in> set xs" using False by simp_all
  have ne: "?a \<noteq> ?h" "?a \<noteq> ?t" "?z \<noteq> ?h" "?z \<noteq> ?t" "?a \<noteq> 0" "?z \<noteq> 0" using sep mem by metis+
  have ends: "le_next s ?h = ?a" "le_prev s ?t = ?z" "le_prev s ?a = ?h" "le_next s ?z = ?t" "le_prev s ?h = 0" "le_next s ?t = 0"
    using dlist_head(1) [OF d] dlist_tail(1) [OF d] dlist_elem(1) [of s l "[]" ?a "tl xs"] dlist_elem(2) [of s l "butlast xs" ?z "[]"] d False
    by (simp_all add: dlist_def)
  let ?f = "flipped (set xs) s"
  let ?s = "?f\<lparr>le_next := (le_next ?f)(?h := ?z, ?a := ?t), le_prev := (le_prev ?f)(?t := ?a, ?z := ?h)\<rparr>"
  have "reverse_loop s l ?a = Some ?f" using reverse_loop_spec [of s l "[]" xs] d False by simp
  moreover have "le_next ?f ?h = ?a" "le_prev ?f ?t = ?z" "le_prev ?f ?z = ?t" "le_next ?f ?a = ?h" using sep mem ends by (simp_all add: flipped_def)
  ultimately have "list_reverse s l = Some ?s"
    using list_empty_spec [OF d] list_begin_spec [OF d] False sep(3,6,7) ne by (simp add: list_reverse_def link_ops)
  moreover have "successively (\<lambda>x y. lk ?s y x) xs"
  proof (rule successively_mono [of "lk s"])
    show "successively (lk s) xs" using d by (simp add: dlist_def full_def successively_Cons successively_append_iff)
    show "lk ?s y x" if "lk s x y" "x \<in> set xs" "y \<in> set xs" for x y
    proof -
      have "x \<noteq> ?z" "y \<noteq> ?a" "x \<noteq> ?h" "x \<noteq> ?t" "y \<noteq> ?h" "y \<noteq> ?t" using that ends sep by (auto simp: lk_def)
      then show ?thesis using that by (simp add: lk_def flipped_def)
    qed
  qed
  moreover have "lk ?s ?h ?z" "lk ?s ?a ?t" "le_prev ?s ?h = 0" "le_next ?s ?t = 0"
    using sep ne ends mem by (simp_all add: lk_def flipped_def)
  ultimately have "dlist ?s l (rev xs)" using sep False
    by (simp add: dlist_def full_def successively_Cons successively_append_iff successively_rev hd_rev last_rev)
  then show ?thesis using \<open>list_reverse s l = Some ?s\<close> by blast
qed

subsection \<open>Sequences of operations\<close>

text \<open>The operations that change a list, what they do with the list of its elements, and when they may be called: an element
  that is inserted is in no place of the list, and one that is removed, or in front of which something is inserted, is in the list.\<close>

datatype list_op = Push_Front eaddr | Push_Back eaddr | Insert_Before eaddr eaddr | Remove eaddr | Pop_Front | Pop_Back | Reverse

fun list_do :: "list_links \<Rightarrow> klist \<Rightarrow> list_op \<Rightarrow> list_links c_res" where
  "list_do s l (Push_Front e) = list_push_front s l e"
| "list_do s l (Push_Back e) = list_push_back s l e"
| "list_do s l (Insert_Before b e) = list_insert s b e"
| "list_do s l (Remove e) = map_option snd (list_remove s e)"
| "list_do s l Pop_Front = map_option snd (list_pop_front s l)"
| "list_do s l Pop_Back = map_option snd (list_pop_back s l)"
| "list_do s l Reverse = list_reverse s l"

fun seq_do :: "eaddr list \<Rightarrow> list_op \<Rightarrow> eaddr list" where
  "seq_do xs (Push_Front e) = e # xs"
| "seq_do xs (Push_Back e) = xs @ [e]"
| "seq_do xs (Insert_Before b e) = takeWhile (\<lambda>x. x \<noteq> b) xs @ e # dropWhile (\<lambda>x. x \<noteq> b) xs"
| "seq_do xs (Remove e) = remove1 e xs"
| "seq_do xs Pop_Front = tl xs"
| "seq_do xs Pop_Back = butlast xs"
| "seq_do xs Reverse = rev xs"

fun list_op_ok :: "klist \<Rightarrow> eaddr list \<Rightarrow> list_op \<Rightarrow> bool" where
  "list_op_ok l xs (Push_Front e) \<longleftrightarrow> e \<noteq> 0 \<and> e \<notin> set (full l xs)"
| "list_op_ok l xs (Push_Back e) \<longleftrightarrow> e \<noteq> 0 \<and> e \<notin> set (full l xs)"
| "list_op_ok l xs (Insert_Before b e) \<longleftrightarrow> b \<in> set xs \<and> e \<noteq> 0 \<and> e \<notin> set (full l xs)"
| "list_op_ok l xs (Remove e) \<longleftrightarrow> e \<in> set xs"
| "list_op_ok l xs Pop_Front \<longleftrightarrow> xs \<noteq> []"
| "list_op_ok l xs Pop_Back \<longleftrightarrow> xs \<noteq> []"
| "list_op_ok l xs Reverse \<longleftrightarrow> True"

fun run_list :: "list_links \<Rightarrow> klist \<Rightarrow> list_op list \<Rightarrow> list_links c_res" where
  "run_list s l [] = Some s"
| "run_list s l (x # xs) = do { s \<leftarrow> list_do s l x; run_list s l xs }"

fun list_ops_ok :: "klist \<Rightarrow> eaddr list \<Rightarrow> list_op list \<Rightarrow> bool" where
  "list_ops_ok l xs [] \<longleftrightarrow> True"
| "list_ops_ok l xs (x # ops) \<longleftrightarrow> list_op_ok l xs x \<and> list_ops_ok l (seq_do xs x) ops"

lemma list_do_spec:
  assumes d: "dlist s l xs" and ok: "list_op_ok l xs x"
  shows "\<exists>s'. list_do s l x = Some s' \<and> dlist s' l (seq_do xs x)"
proof (cases x)
  case (Push_Front e)
  then show ?thesis using list_push_front_spec [OF d] ok by auto
next
  case (Push_Back e)
  then show ?thesis using list_push_back_spec [OF d] ok by auto
next
  case (Insert_Before b e)
  have "dropWhile (\<lambda>x. x \<noteq> b) xs \<noteq> []" using ok Insert_Before by (auto simp: dropWhile_eq_Nil_conv)
  then have "hd (dropWhile (\<lambda>x. x \<noteq> b) xs @ [l_tail l]) = b" using hd_dropWhile [of "\<lambda>x. x \<noteq> b" xs] by simp
  then show ?thesis using list_insert_spec [of s l "takeWhile (\<lambda>x. x \<noteq> b) xs" "dropWhile (\<lambda>x. x \<noteq> b) xs" e] d ok Insert_Before by auto
next
  case (Remove e)
  then obtain as bs where "xs = as @ e # bs" "e \<notin> set as" using ok split_list_first [of e xs] by auto
  then show ?thesis using list_remove_spec [of s l as e bs] d Remove by (auto simp: remove1_append)
next
  case Pop_Front
  then show ?thesis using list_pop_front_spec [of s l "hd xs" "tl xs"] d ok by auto
next
  case Pop_Back
  then show ?thesis using list_pop_back_spec [of s l "butlast xs" "last xs"] d ok by auto
next
  case Reverse
  then show ?thesis using list_reverse_spec [OF d] by simp
qed

lemma list_ops_spec:
  "dlist s l xs \<Longrightarrow> list_ops_ok l xs ops \<Longrightarrow> \<exists>s'. run_list s l ops = Some s' \<and> dlist s' l (foldl seq_do xs ops)"
proof (induction ops arbitrary: s xs)
  case (Cons x ops)
  then obtain s1 where "list_do s l x = Some s1" "dlist s1 l (seq_do xs x)" using list_do_spec by fastforce
  then show ?case using Cons by simp
qed simp

subsection \<open>The comparison of the list test\<close>

definition value_less :: "(eaddr \<Rightarrow> int) \<Rightarrow> less_func" where
  "value_less vals a b \<longleftrightarrow> vals a < vals b"

interpretation by_value: less_order "value_less vals" for vals
  by unfold_locales (simp_all add: value_less_def)

context less_order
begin

lemma insert_keeps_order:
  assumes "ordered xs"
  shows "ordered (takeWhile (\<lambda>x. \<not> lessf e x) xs @ e # dropWhile (\<lambda>x. \<not> lessf e x) xs)"
  using assms
proof (induction xs)
  case (Cons x xs)
  show ?case
  proof (cases "lessf e x")
    case True
    then have "\<not> lessf z e" if "z \<in> set (x # xs)" for z
      using that Cons.prems asym [OF True] neg_trans [of z x e] by (auto simp: ordered_by_def)
    then show ?thesis using True Cons.prems by (simp add: ordered_by_def)
  next
    case False
    then show ?thesis using Cons by (auto simp: ordered_by_def dest: set_takeWhileD set_dropWhileD)
  qed
qed simp

end

subsection \<open>Properties\<close>

text \<open>C8. \<open>list_sort\<close>, for every comparison that is a strict weak order and every well-formed list, returns; the list then holds
  the same elements in nondecreasing order, its links are well formed in both directions, and nothing but the list has changed. In particular
  no assertion fails, the one that the result is sorted included.\<close>

theorem list_sort_sorts:
  assumes "less_order lessf" "dlist s l xs"
  shows "\<exists>s' ys. list_sort s l lessf = Some s' \<and> dlist s' l ys \<and> mset ys = mset xs \<and> ordered_by lessf ys \<and> same_outside (set (full l xs)) s s'"
  by (rule list_sort_spec [OF assms])

definition example_list :: list_links where
  "example_list = \<lparr>le_prev = (\<lambda>_. 0)(5 := 1, 3 := 5, 4 := 3, 2 := 4), le_next = (\<lambda>_. 0)(1 := 5, 5 := 3, 3 := 4, 4 := 2)\<rparr>"

theorem list_sort_sorts_witness:
  "less_order (value_less int) \<and> dlist example_list \<lparr>l_head = 1, l_tail = 2\<rparr> [5, 3, 4] \<and>
    (\<exists>s' ys. list_sort example_list \<lparr>l_head = 1, l_tail = 2\<rparr> (value_less int) = Some s' \<and> dlist s' \<lparr>l_head = 1, l_tail = 2\<rparr> ys
      \<and> mset ys = mset [5, 3, 4] \<and> ordered_by (value_less int) ys)"
proof -
  have "dlist example_list \<lparr>l_head = 1, l_tail = 2\<rparr> [5, 3, 4]" by (simp add: dlist_def full_def lk_def example_list_def)
  with list_sort_sorts [OF by_value.less_order_axioms this] by_value.less_order_axioms show ?thesis by blast
qed

text \<open>C9. Every sequence of the operations that change a list, called as their comments demand, returns and does to the linked list
  what the corresponding operations on sequences do: insertion at the ends and before an element, removal of an element, at the ends, and
  reversal. In the end \<open>list_size\<close> is the length and \<open>list_insert_ordered\<close> keeps an ordered list ordered.\<close>

theorem list_ops_refine_sequence:
  assumes "dlist s l xs" "list_ops_ok l xs ops"
  shows "\<exists>s'. run_list s l ops = Some s' \<and> dlist s' l (foldl seq_do xs ops) \<and> list_size s' l = Some (length (foldl seq_do xs ops))
    \<and> (\<forall>e lessf. less_order lessf \<longrightarrow> ordered_by lessf (foldl seq_do xs ops) \<longrightarrow> e \<noteq> 0 \<longrightarrow> e \<notin> set (full l (foldl seq_do xs ops)) \<longrightarrow>
        (\<exists>s'' ys. list_insert_ordered s' l e lessf = Some s'' \<and> dlist s'' l ys \<and> mset ys = add_mset e (mset (foldl seq_do xs ops)) \<and> ordered_by lessf ys))"
proof -
  obtain s' where s': "run_list s l ops = Some s'" "dlist s' l (foldl seq_do xs ops)" using list_ops_spec [OF assms] by blast
  moreover have "\<exists>s'' ys. list_insert_ordered s' l e lessf = Some s'' \<and> dlist s'' l ys \<and> mset ys = add_mset e (mset (foldl seq_do xs ops)) \<and> ordered_by lessf ys"
    if "less_order lessf" "ordered_by lessf (foldl seq_do xs ops)" "e \<noteq> 0" "e \<notin> set (full l (foldl seq_do xs ops))" for e lessf
    using list_insert_ordered_spec [OF s'(2) that(3,4), of lessf] less_order.insert_keeps_order [OF that(1,2), of e]
      mset_append [of "takeWhile (\<lambda>x. \<not> lessf e x) (foldl seq_do xs ops)" "dropWhile (\<lambda>x. \<not> lessf e x) (foldl seq_do xs ops)"] by fastforce
  ultimately show ?thesis using list_size_spec [OF s'(2)] by blast
qed

theorem list_ops_refine_sequence_witness:
  "\<exists>s'. run_list example_list \<lparr>l_head = 1, l_tail = 2\<rparr> [Push_Front 7, Insert_Before 3 9, Reverse, Remove 5, Pop_Back, Push_Back 5] = Some s'
    \<and> dlist s' \<lparr>l_head = 1, l_tail = 2\<rparr> [4, 3, 9, 5] \<and> list_size s' \<lparr>l_head = 1, l_tail = 2\<rparr> = Some 4"
proof -
  have "dlist example_list \<lparr>l_head = 1, l_tail = 2\<rparr> [5, 3, 4]" by (simp add: dlist_def full_def lk_def example_list_def)
  with list_ops_refine_sequence [OF this, of "[Push_Front 7, Insert_Before 3 9, Reverse, Remove 5, Pop_Back, Push_Back 5]"]
  show ?thesis by (auto simp: full_def)
qed

end
