(* ===== verification/Spec2Isabelle.thy ===== *)
theory Spec2Isabelle
  imports SocketServer Arithmetic FixedPoint Pagedir Console KList
begin

text \<open>
  A verification of the key-value server and of parts of the Pintos kernel of this repository.
\<close>

section \<open>Properties across components\<close>

definition net_ok :: "net_api \<Rightarrow> bool" where
  "net_ok net \<longleftrightarrow> net_socket net \<noteq> -1 \<and> net_setsockopt net \<noteq> -1 \<and> net_bind net \<noteq> -1 \<and> net_listen net \<noteq> -1"


text \<open>Two clients of a server on an empty directory.\<close>

definition env_d :: "jobj c_env" where
  "env_d = \<lparr>e_vla = (\<lambda>_. True), e_behind = [NUL], e_api = assoc_json, e_usable = (\<lambda>n. n)\<rparr>"

definition slave_d :: server_t where
  "slave_d = \<lparr>sr_master = False, listening = False, sr_sockfd = 0, sr_max_threads = 3, sr_port = 0, sr_hostname = [],
     sr_wq = empty_wq, sr_role = Kvserver server_d\<rparr>"


end
